(* ===== verification/Prelude.thy ===== *)
theory Prelude
  imports Main "HOL-Library.Word"
begin

unbundle bit_operations_syntax

text \<open>
  What every component shares: the C integer types at their i386 widths, the result type
  of operations that may not return normally, byte memory with 32-bit accesses, and the
  generic lemmas on words, lists and functions that carry the component proofs.

  \<^item> \<open>u8\<close>, \<open>u16\<close>, \<open>u32\<close>: the unsigned types of \<open>lib/stdint.h\<close>; \<open>size_t\<close>,
    \<open>uintptr_t\<close> and pointers are \<open>u32\<close> (the kernel is built for i386).
  \<^item> \<open>i8\<close>, \<open>i32\<close>: signed types, the same words read with \<open>sint\<close>.
  \<^item> \<open>kerr + 'a\<close>: \<open>Inl Spin\<close> is a loop that no event of the modelled execution can
    end; \<open>Inl Fault\<close> is a use of a pointer that points to no object of its type.
\<close>

section \<open>C types\<close>

type_synonym u8 = "8 word"
type_synonym u16 = "16 word"
type_synonym u32 = "32 word"
type_synonym i8 = "8 word"
type_synonym i32 = "32 word"

abbreviation (input) NULL :: u32 where
  "NULL \<equiv> 0"

abbreviation (input) UINT32_MAX :: u32 where
  "UINT32_MAX \<equiv> 4294967295"

named_theorems frame \<open>what an operation leaves unchanged\<close>

section \<open>Results\<close>

datatype kerr = Spin | Fault

type_synonym 'a result = "kerr + 'a"

definition bindE :: "'e + 'a \<Rightarrow> ('a \<Rightarrow> 'e + 'b) \<Rightarrow> 'e + 'b" where
  "bindE r f = (case r of Inl e \<Rightarrow> Inl e | Inr a \<Rightarrow> f a)"

lemma bindE_simps [simp]:
  "bindE (Inl e) f = Inl e"
  "bindE (Inr a) f = f a"
  by (simp_all add: bindE_def)

lemma bindE_Inr_iff: "bindE r f = Inr b \<longleftrightarrow> (\<exists>a. r = Inr a \<and> f a = Inr b)"
  by (cases r) auto

lemma bindE_InrE [elim!]:
  assumes "bindE r f = Inr b"
  obtains a where "r = Inr a" "f a = Inr b"
  using assms by (auto simp: bindE_Inr_iff)

lemma bindE_cong [fundef_cong]:
  "r = r' \<Longrightarrow> (\<And>a. r' = Inr a \<Longrightarrow> f a = g a) \<Longrightarrow> bindE r f = bindE r' g"
  by (cases r') auto

lemma disj_notin: "A \<inter> B = {} \<Longrightarrow> x \<in> A \<Longrightarrow> x \<notin> B"
  by blast

section \<open>Words\<close>

lemma unat_plus_no_wrap:
  fixes a b :: "'a::len word"
  assumes "unat a + unat b < 2 ^ LENGTH('a)"
  shows "unat (a + b) = unat a + unat b"
  using assms by (simp add: unat_word_ariths)

lemma unat_Suc32:
  fixes i n :: u32
  assumes "i < n"
  shows "unat (i + 1) = Suc (unat i)"
proof -
  have "unat i < unat n" using assms by (simp add: word_less_nat_alt)
  moreover have "unat n < 4294967296" using unsigned_less [of n] by simp
  ultimately show ?thesis by (simp add: unat_word_ariths)
qed

lemma u32_lt [simp]: "unat (x :: u32) < 4294967296"
  using unsigned_less [of x] by simp

lemma u32_div_lt [simp]: "unat (x :: u32) div c < 4294967296"
  by (rule order.strict_trans1 [OF div_le_dividend u32_lt])

lemma unat_inj_iff: "unat a = unat b \<longleftrightarrow> a = (b :: 'a::len word)"
  by (simp add: word_unat_eq_iff)

lemma unat_of_nat32: "n < 4294967296 \<Longrightarrow> unat (of_nat n :: u32) = n"
  by (simp add: unat_of_nat)

lemma unat_div32: "unat (a div b) = unat a div unat (b :: 'a::len word)"
  by (simp add: unat_div)

lemma unat_mod32: "unat (a mod b) = unat a mod unat (b :: 'a::len word)"
  by (simp add: unat_mod)

section \<open>The loop \<open>for(i = lo; i < n; ++i)\<close> on an unsigned counter\<close>

function for_loop :: "u32 \<Rightarrow> u32 \<Rightarrow> (u32 \<Rightarrow> 's \<Rightarrow> 's) \<Rightarrow> 's \<Rightarrow> 's" where
  "for_loop i n body s = (if i < n then for_loop (i + 1) n body (body i s) else s)"
  by pat_completeness auto
termination
  by (relation "measure (\<lambda>(i, n, body, s). unat n - unat i)")
    (auto simp: unat_Suc32 word_less_nat_alt)

declare for_loop.simps [simp del]

text \<open>The invariant of such a loop is indexed by the value of the counter.\<close>

lemma for_loop_inv:
  assumes "P (unat i) s" and "unat i \<le> unat n"
    and step: "\<And>k s. unat i \<le> k \<Longrightarrow> k < unat n \<Longrightarrow> P k s \<Longrightarrow> P (Suc k) (body (of_nat k) s)"
  shows "P (unat n) (for_loop i n body s)"
  using assms
proof (induction i n body s rule: for_loop.induct)
  case (1 i n body s)
  show ?case
  proof (cases "i < n")
    case True
    then have lt: "unat i < unat n" by (simp add: word_less_nat_alt)
    have "P (unat n) (for_loop (i + 1) n body (body i s))"
    proof (rule "1.IH" [OF True])
      show "P (unat (i + 1)) (body i s)"
        using "1.prems"(3) [OF order_refl lt "1.prems"(1)] by (simp add: unat_Suc32 [OF True])
    qed (use "1.prems"(3) lt in \<open>auto simp: unat_Suc32 [OF True]\<close>)
    with True show ?thesis by (simp add: for_loop.simps [of i])
  next
    case False
    with "1.prems"(1,2) have "unat i = unat n" by (simp add: word_less_nat_alt)
    with False "1.prems"(1) show ?thesis by (simp add: for_loop.simps [of i])
  qed
qed

lemma for_loop_empty: "n \<le> i \<Longrightarrow> for_loop i n body s = s"
  by (subst for_loop.simps) (simp add: not_less [symmetric])

section \<open>Rounding\<close>

text \<open>\<open>lib/round.h\<close> at the unsigned type its uses have.\<close>

definition ROUND_UP :: "u32 \<Rightarrow> u32 \<Rightarrow> u32" where
  "ROUND_UP x step = (x + step - 1) div step * step"

definition ROUND_DOWN :: "u32 \<Rightarrow> u32 \<Rightarrow> u32" where
  "ROUND_DOWN x step = x div step * step"

definition DIV_ROUND_UP :: "u32 \<Rightarrow> u32 \<Rightarrow> u32" where
  "DIV_ROUND_UP nom denom = (nom + denom - 1) div denom"

end
