(* ===== verification/Bitmap.thy ===== *)
theory Bitmap
  imports Prelude
begin

text \<open>
  The bitmap of \<open>lib/kernel/bitmap.c\<close>: a bit count and an array of 32-bit words placed
  behind it in a buffer of the caller's. The words are a function from the array index;
  that the code only touches indices below the word count is a theorem.

  \<open>bit_at bm k\<close> is the abstract bit \<open>k\<close>. Every operation is characterised on it for
  all arguments, also where \<open>idx_start + bit_count\<close> wraps around. The locale
  \<open>range_bitmap\<close> is the contract the page allocator of \<open>kernel/mm.c\<close> uses.
\<close>

section \<open>The operations\<close>

abbreviation (input) BITMAP_ERR :: u32 where
  "BITMAP_ERR \<equiv> UINT32_MAX"

abbreviation (input) BITS_PER_UINT8 :: u32 where
  "BITS_PER_UINT8 \<equiv> 8"

abbreviation (input) BITS_PER_UINT32 :: u32 where
  "BITS_PER_UINT32 \<equiv> 32"

record bitmap =
  bit_count :: u32
  bits :: "u32 \<Rightarrow> u32"

abbreviation (input) sizeof_bitmap :: u32 where
  "sizeof_bitmap \<equiv> 4"

definition bitmap_required_buf_size :: "u32 \<Rightarrow> u32" where
  "bitmap_required_buf_size count = DIV_ROUND_UP count BITS_PER_UINT8"

text \<open>\<open>buf\<close> is the caller's buffer, read as a bitmap.\<close>

definition bitmap_create_in_buf :: "u32 \<Rightarrow> bitmap \<Rightarrow> u32 \<Rightarrow> bitmap option" where
  "bitmap_create_in_buf count buf buf_size =
     (if buf_size - sizeof_bitmap < bitmap_required_buf_size count then None
      else Some (buf\<lparr>bit_count := count\<rparr>))"

definition bit_mask :: "u32 \<Rightarrow> u32" where
  "bit_mask idx = push_bit (unat (idx mod BITS_PER_UINT32)) 1"

definition bitmap_config_bit :: "bitmap \<Rightarrow> u32 \<Rightarrow> bool \<Rightarrow> bitmap" where
  "bitmap_config_bit bm idx val =
     (let idx_buf = idx div BITS_PER_UINT32; mask = bit_mask idx
      in if bit_count bm \<le> idx then bm
         else if val then bm\<lparr>bits := (bits bm)(idx_buf := bits bm idx_buf OR mask)\<rparr>
         else bm\<lparr>bits := (bits bm)(idx_buf := bits bm idx_buf AND NOT mask)\<rparr>)"

definition bitmap_config_all :: "bitmap \<Rightarrow> bool \<Rightarrow> bitmap" where
  "bitmap_config_all bm val =
     (let v = (if val then - 1 else 0);
          u32_bound = bit_count bm div BITS_PER_UINT32;
          u32_res = bit_count bm mod BITS_PER_UINT32;
          bm1 = for_loop 0 u32_bound (\<lambda>i b. b\<lparr>bits := (bits b)(i := v)\<rparr>) bm;
          res_bit_start_idx = u32_bound * BITS_PER_UINT32
      in for_loop 0 u32_res (\<lambda>i b. bitmap_config_bit b (res_bit_start_idx + i) val) bm1)"

definition bitmap_test_bit :: "bitmap \<Rightarrow> u32 \<Rightarrow> bool \<Rightarrow> bool" where
  "bitmap_test_bit bm idx val =
     (let idx_buf = idx div BITS_PER_UINT32; mask = bit_mask idx
      in if val then bits bm idx_buf AND mask \<noteq> 0 else NOT (bits bm idx_buf) AND mask \<noteq> 0)"

function find_group_loop :: "bitmap \<Rightarrow> u32 \<Rightarrow> bool \<Rightarrow> u32 \<Rightarrow> u32 \<Rightarrow> u32" where
  "find_group_loop bm count val idx_cur idx_last =
     (if idx_last \<le> bit_count bm \<and> idx_cur < bit_count bm then
        if bitmap_test_bit bm idx_cur val then
          if idx_cur + 1 = idx_last then idx_cur + 1 - count
          else find_group_loop bm count val (idx_cur + 1) idx_last
        else find_group_loop bm count val (idx_cur + 1) (idx_cur + 1 + count)
      else BITMAP_ERR)"
  by pat_completeness auto
termination
  by (relation "measure (\<lambda>(bm, count, val, cur, last). unat (bit_count bm) - unat cur)")
    (auto simp: unat_Suc32 word_less_nat_alt)

declare find_group_loop.simps [simp del]

definition bitmap_find_first_bits_group :: "bitmap \<Rightarrow> u32 \<Rightarrow> u32 \<Rightarrow> bool \<Rightarrow> u32" where
  "bitmap_find_first_bits_group bm idx_start count val =
     find_group_loop bm count val idx_start (idx_start + count)"

definition bitmap_find_first_bit :: "bitmap \<Rightarrow> u32 \<Rightarrow> bool \<Rightarrow> u32" where
  "bitmap_find_first_bit bm idx_start val = bitmap_find_first_bits_group bm idx_start 1 val"

definition bitmap_set_bit :: "bitmap \<Rightarrow> u32 \<Rightarrow> bitmap" where
  "bitmap_set_bit bm idx = bitmap_config_bit bm idx True"

definition bitmap_reset_bit :: "bitmap \<Rightarrow> u32 \<Rightarrow> bitmap" where
  "bitmap_reset_bit bm idx = bitmap_config_bit bm idx False"

definition bitmap_set_multi_bits :: "bitmap \<Rightarrow> u32 \<Rightarrow> u32 \<Rightarrow> bitmap" where
  "bitmap_set_multi_bits bm idx_start count =
     (let idx_last = idx_start + count
      in if bit_count bm < idx_last then bm
         else for_loop idx_start idx_last (\<lambda>i b. bitmap_set_bit b i) bm)"

definition bitmap_reset_multi_bits :: "bitmap \<Rightarrow> u32 \<Rightarrow> u32 \<Rightarrow> bitmap" where
  "bitmap_reset_multi_bits bm idx_start count =
     (let idx_last = idx_start + count
      in if bit_count bm < idx_last then bm
         else for_loop idx_start idx_last (\<lambda>i b. bitmap_reset_bit b i) bm)"

definition bitmap_get_bits_count :: "bitmap \<Rightarrow> u32" where
  "bitmap_get_bits_count bm = bit_count bm"

section \<open>Abstract bits\<close>

definition bit_at :: "bitmap \<Rightarrow> nat \<Rightarrow> bool" where
  "bit_at bm k \<longleftrightarrow> bit (bits bm (of_nat (k div 32))) (k mod 32)"

lemma of_nat_div32 [simp]: "of_nat (unat idx div 32) = (idx :: u32) div 32"
  by (simp add: word_unat_eq_iff unat_div unat_of_nat)

lemma div32_eq_iff:
  "k < 4294967296 \<Longrightarrow> (of_nat (k div 32) = (idx :: u32) div 32) = (k div 32 = unat idx div 32)"
  by (simp add: word_unat_eq_iff unat_div unat_of_nat)

lemma bit_mask_at: "bit (bit_mask idx) j \<longleftrightarrow> j = unat idx mod 32"
  by (auto simp: bit_mask_def bit_push_bit_iff bit_1_iff bit_exp_iff unat_mod)

lemma and_mask_iff: "w AND bit_mask idx \<noteq> 0 \<longleftrightarrow> bit w (unat idx mod 32)"
  by (simp add: bit_mask_def unat_mod bit_iff_and_push_bit_not_eq_0)

lemma test_bit_iff: "bitmap_test_bit bm idx val \<longleftrightarrow> bit_at bm (unat idx) = val"
  by (auto simp: bitmap_test_bit_def bit_at_def Let_def and_mask_iff bit_not_iff)

lemma config_bit_count [simp]: "bit_count (bitmap_config_bit bm idx val) = bit_count bm"
  by (simp add: bitmap_config_bit_def Let_def)

lemma bit_at_config_bit:
  assumes "k < 4294967296"
  shows "bit_at (bitmap_config_bit bm idx val) k =
    (if idx < bit_count bm \<and> k = unat idx then val else bit_at bm k)"
proof (cases "idx < bit_count bm")
  case True
  have eq: "k = unat idx \<longleftrightarrow> k div 32 = unat idx div 32 \<and> k mod 32 = unat idx mod 32"
    by (metis div_mult_mod_eq)
  show ?thesis
  proof (cases "k div 32 = unat idx div 32")
    case same: True
    with True show ?thesis
      by (auto simp: bitmap_config_bit_def Let_def bit_at_def not_le [symmetric] bit_or_iff
          bit_and_iff bit_not_iff bit_mask_at eq)
  next
    case False
    then have "of_nat (k div 32) \<noteq> idx div 32" using div32_eq_iff [OF assms] by simp
    with False True show ?thesis
      by (auto simp: bitmap_config_bit_def Let_def bit_at_def eq)
  qed
qed (auto simp: bitmap_config_bit_def Let_def not_less)

section \<open>Setting and resetting ranges\<close>

definition in_range :: "bitmap \<Rightarrow> u32 \<Rightarrow> u32 \<Rightarrow> nat \<Rightarrow> bool" where
  "in_range bm s c k \<longleftrightarrow>
     unat s + unat c \<le> unat (bit_count bm) \<and> unat s \<le> k \<and> k < unat s + unat c"

text \<open>
  The guard of the two range operations compares a sum that may have wrapped around. A
  wrapped sum is below \<open>idx_start\<close>, so the loop is empty: nothing changes, exactly as
  where the guard fails.
\<close>

lemma config_range_loop:
  assumes "unat s + unat c \<le> unat (bit_count bm)"
  shows "bit_count (for_loop s (s + c) (\<lambda>i b. bitmap_config_bit b i val) bm) = bit_count bm"
    and "k < 4294967296 \<Longrightarrow> bit_at (for_loop s (s + c) (\<lambda>i b. bitmap_config_bit b i val) bm) k =
      (if unat s \<le> k \<and> k < unat s + unat c then val else bit_at bm k)"
proof -
  have lt: "unat s + unat c < 4294967296" using assms by (rule le_less_trans) simp
  then have sc: "unat (s + c) = unat s + unat c" by (simp add: unat_plus_no_wrap)
  let ?P = "\<lambda>j b. bit_count b = bit_count bm \<and> (\<forall>k < 4294967296. bit_at b k =
    (if unat s \<le> k \<and> k < j then val else bit_at bm k))"
  have "?P (unat (s + c)) (for_loop s (s + c) (\<lambda>i b. bitmap_config_bit b i val) bm)"
  proof (rule for_loop_inv)
    fix j b assume j: "unat s \<le> j" "j < unat (s + c)" and P: "?P j b"
    have "unat (of_nat j :: u32) = j" using j(2) lt sc by (simp add: unat_of_nat)
    moreover from this have "of_nat j < bit_count bm"
      using j(2) assms sc by (simp add: word_less_nat_alt)
    ultimately show "?P (Suc j) (bitmap_config_bit b (of_nat j) val)"
      using P j by (auto simp: bit_at_config_bit less_Suc_eq)
  qed (auto simp: sc)
  then show "bit_count (for_loop s (s + c) (\<lambda>i b. bitmap_config_bit b i val) bm) = bit_count bm"
    and "k < 4294967296 \<Longrightarrow> bit_at (for_loop s (s + c) (\<lambda>i b. bitmap_config_bit b i val) bm) k =
      (if unat s \<le> k \<and> k < unat s + unat c then val else bit_at bm k)"
    by (simp_all add: sc)
qed

lemma range_guard:
  assumes "s + c \<le> bit_count bm" "\<not> unat s + unat c \<le> unat (bit_count bm)"
  shows "s + c \<le> s"
proof -
  have "unat (s + c) \<le> unat (bit_count bm)" using assms(1) by (simp add: word_le_nat_alt)
  with assms(2) have "4294967296 \<le> unat s + unat c"
    using unat_plus_no_wrap [of s c] by fastforce
  moreover have "unat s + unat c < 2 * 4294967296" using u32_lt [of s] u32_lt [of c] by linarith
  ultimately have "unat (s + c) = unat s + unat c - 4294967296"
    by (simp add: unat_word_ariths mod_if)
  moreover have "unat c < 4294967296" by (rule u32_lt)
  ultimately have "unat (s + c) \<le> unat s" by linarith
  then show ?thesis by (simp only: word_le_nat_alt)
qed

lemma range_cases:
  obtains (inside) "unat s + unat c \<le> unat (bit_count bm)" "\<not> bit_count bm < s + c"
  | (outside) "\<not> unat s + unat c \<le> unat (bit_count bm)" "bit_count bm < s + c \<or> s + c \<le> s"
proof (cases "unat s + unat c \<le> unat (bit_count bm)")
  case True
  then have "unat (s + c) = unat s + unat c"
    by (simp add: unat_plus_no_wrap order.strict_trans1 [OF True])
  with True inside show ?thesis by (simp add: word_less_nat_alt)
next
  case False
  with outside range_guard [of s c bm] show ?thesis by (meson not_less)
qed

lemma set_multi_bits_spec:
  shows "bit_count (bitmap_set_multi_bits bm s c) = bit_count bm"
    and "k < 4294967296 \<Longrightarrow>
      bit_at (bitmap_set_multi_bits bm s c) k = (in_range bm s c k \<or> bit_at bm k)"
  unfolding bitmap_set_multi_bits_def bitmap_set_bit_def Let_def in_range_def
  by (cases rule: range_cases [of s c bm]; auto simp: config_range_loop for_loop_empty)+

lemma reset_multi_bits_spec:
  shows "bit_count (bitmap_reset_multi_bits bm s c) = bit_count bm"
    and "k < 4294967296 \<Longrightarrow>
      bit_at (bitmap_reset_multi_bits bm s c) k = (\<not> in_range bm s c k \<and> bit_at bm k)"
  unfolding bitmap_reset_multi_bits_def bitmap_reset_bit_def Let_def in_range_def
  by (cases rule: range_cases [of s c bm]; auto simp: config_range_loop for_loop_empty)+

section \<open>The search for a group of equal bits\<close>

definition run_at :: "bitmap \<Rightarrow> bool \<Rightarrow> nat \<Rightarrow> nat \<Rightarrow> bool" where
  "run_at bm v i c \<longleftrightarrow> (\<forall>k. i \<le> k \<and> k < i + c \<longrightarrow> bit_at bm k = v)"

lemma run_at_0 [simp]: "run_at bm v i 0"
  by (auto simp: run_at_def)

text \<open>What the search promises: the first run of \<open>c\<close> bits at or after \<open>s\<close>, or the error value.\<close>

definition first_run :: "bitmap \<Rightarrow> nat \<Rightarrow> nat \<Rightarrow> bool \<Rightarrow> u32 \<Rightarrow> bool" where
  "first_run bm s c v r \<longleftrightarrow>
     (if r = BITMAP_ERR
      then \<forall>i. s \<le> i \<and> i + c \<le> unat (bit_count bm) \<longrightarrow> \<not> run_at bm v i c
      else s \<le> unat r \<and> unat r + c \<le> unat (bit_count bm) \<and> run_at bm v (unat r) c \<and>
        (\<forall>i. s \<le> i \<and> i < unat r \<longrightarrow> \<not> run_at bm v i c))"

text \<open>
  The invariant of the search: the bits from \<open>b\<close> (the start of the current candidate) up to the
  cursor all match, no run starts before \<open>b\<close>, and \<open>idx_last\<close> is \<open>b + count\<close> modulo
  \<open>2 ^ 32\<close>. Where that sum wraps, the cursor can never meet \<open>idx_last\<close>, and no run of
  that length fits into the bitmap either.
\<close>

definition candidate :: "bitmap \<Rightarrow> nat \<Rightarrow> u32 \<Rightarrow> bool \<Rightarrow> nat \<Rightarrow> u32 \<Rightarrow> u32 \<Rightarrow> bool" where
  "candidate bm s c v b cur lim \<longleftrightarrow>
     c \<noteq> 0 \<and> unat cur - b < unat c \<and> b \<le> unat cur \<and> s \<le> b \<and> run_at bm v b (unat cur - b) \<and>
     (\<forall>i. s \<le> i \<and> i < b \<longrightarrow> \<not> run_at bm v i (unat c)) \<and> lim = of_nat b + c"

lemma candidateD:
  assumes "candidate bm s c v b cur lim"
  shows "c \<noteq> 0" "unat cur - b < unat c" "b \<le> unat cur" "s \<le> b" "run_at bm v b (unat cur - b)"
    "s \<le> i \<Longrightarrow> i < b \<Longrightarrow> \<not> run_at bm v i (unat c)" "lim = of_nat b + c" "unat (of_nat b :: u32) = b" "b < 4294967296"
proof -
  show D: "c \<noteq> 0" "unat cur - b < unat c" "b \<le> unat cur" "s \<le> b" "run_at bm v b (unat cur - b)"
    "s \<le> i \<Longrightarrow> i < b \<Longrightarrow> \<not> run_at bm v i (unat c)" "lim = of_nat b + c"
    using assms by (simp_all add: candidate_def)
  show b: "b < 4294967296" using D(3) by (rule le_less_trans) simp
  then show "unat (of_nat b :: u32) = b" by (simp add: unat_of_nat)
qed

text \<open>Behind the last index at which a run fits, the search has failed.\<close>

lemma candidate_over:
  assumes "candidate bm s c v b cur lim" "\<not> (lim \<le> bit_count bm \<and> cur < bit_count bm)"
  shows "first_run bm s (unat c) v BITMAP_ERR"
proof -
  note C = candidateD [OF assms(1)]
  have "unat (bit_count bm) < b + unat c"
  proof (rule ccontr)
    assume "\<not> unat (bit_count bm) < b + unat c"
    then have le: "b + unat c \<le> unat (bit_count bm)" by simp
    moreover have "unat (bit_count bm) < 4294967296" by simp
    ultimately have "b + unat c < 4294967296" by (rule le_less_trans)
    then have "unat lim = b + unat c"
      using C(8) by (subst C(7), subst unat_plus_no_wrap) simp_all
    with assms(2) le C(2,3) show False by (auto simp: word_le_nat_alt word_less_nat_alt)
  qed
  then show ?thesis using C(6) by (simp add: first_run_def)
qed

text \<open>A bit that differs: the next candidate starts behind it.\<close>

lemma candidate_miss:
  assumes "candidate bm s c v b cur lim" "cur < bit_count bm" "\<not> bitmap_test_bit bm cur v"
  shows "candidate bm s c v (Suc (unat cur)) (cur + 1) (cur + 1 + c)"
proof -
  note C = candidateD [OF assms(1)]
  have cur: "unat (cur + 1) = Suc (unat cur)" using assms(2) by (rule unat_Suc32)
  have miss: "bit_at bm (unat cur) \<noteq> v" using assms(3) by (simp add: test_bit_iff)
  have "\<not> run_at bm v i (unat c)" if "s \<le> i" "i < Suc (unat cur)" for i
  proof (cases "i < b")
    case True
    with that C(6) show ?thesis by simp
  next
    case False
    with that C(2) have "i \<le> unat cur" "unat cur < i + unat c" by linarith+
    with miss show ?thesis by (auto simp: run_at_def)
  qed
  moreover have "0 < unat c" using C(1) by (simp add: unat_gt_0)
  ultimately show ?thesis using C(1,3,4) by (simp add: candidate_def cur cur [unfolded add.commute [of cur]] add.commute [of cur])
qed

text \<open>A bit that matches: it completes the run, or the candidate grows.\<close>

lemma candidate_run:
  assumes "candidate bm s c v b cur lim" "bitmap_test_bit bm cur v"
  shows "run_at bm v b (Suc (unat cur) - b)"
  using candidateD(3,5) [OF assms(1)] assms(2) by (auto simp: run_at_def test_bit_iff less_Suc_eq)

lemma candidate_hit:
  assumes "candidate bm s c v b cur lim" "cur < bit_count bm" "bitmap_test_bit bm cur v" "cur + 1 = lim"
  shows "first_run bm s (unat c) v (cur + 1 - c)"
proof -
  note C = candidateD [OF assms(1)]
  have c: "unat c < 4294967296" "unat c \<noteq> 0" using C(1) by (simp_all add: unat_eq_0)
  have cur: "unat (cur + 1) = Suc (unat cur)" using assms(2) by (rule unat_Suc32)
  have "Suc (unat cur) = (b + unat c) mod 4294967296"
    using cur C(8) by (simp add: assms(4) C(7) unat_word_ariths)
  moreover have "(b + unat c) mod 4294967296 < b" if "4294967296 \<le> b + unat c"
  proof -
    have "b + unat c - 4294967296 < 4294967296" "b + unat c - 4294967296 < b"
      using that C(9) c by linarith+
    then show ?thesis by (simp add: le_mod_geq [OF that])
  qed
  ultimately have bc: "Suc (unat cur) = b + unat c"
    using C(3) by (cases "b + unat c < 4294967296") (auto simp: not_less)
  then have le: "b + unat c \<le> unat (bit_count bm)" using assms(2) by (simp add: word_less_nat_alt)
  moreover have "unat (bit_count bm) < 4294967296" by simp
  ultimately have "b < 4294967295" using c by linarith
  then have "of_nat b \<noteq> BITMAP_ERR" using C(8) by (auto simp: word_unat_eq_iff)
  moreover have "cur + 1 - c = of_nat b" by (simp add: assms(4) C(7))
  ultimately show ?thesis
    using le bc candidate_run [OF assms(1,3)] C(4,6,8) by (simp add: first_run_def)
qed

lemma candidate_grows:
  assumes "candidate bm s c v b cur lim" "cur < bit_count bm" "bitmap_test_bit bm cur v" "cur + 1 \<noteq> lim"
  shows "candidate bm s c v b (cur + 1) lim"
proof -
  note C = candidateD [OF assms(1)]
  have cur: "unat (cur + 1) = Suc (unat cur)" using assms(2) by (rule unat_Suc32)
  have "Suc (unat cur) - b \<noteq> unat c"
  proof
    assume "Suc (unat cur) - b = unat c"
    then have "Suc (unat cur) = b + unat c" using C(3) by linarith
    then have "of_nat (Suc (unat cur)) = (of_nat (b + unat c) :: u32)" by (rule arg_cong)
    with assms(4) show False by (simp add: C(7) add.commute)
  qed
  then have "unat (cur + 1) - b < unat c" using C(2,3) cur by linarith
  then show ?thesis using C(1,3,4,6,7) candidate_run [OF assms(1,3)] cur by (simp add: candidate_def)
qed

lemma find_group_loop_spec:
  assumes "candidate bm s c v b cur lim"
  shows "first_run bm s (unat c) v (find_group_loop bm c v cur lim)"
  using assms
proof (induction bm c v cur lim arbitrary: b rule: find_group_loop.induct)
  case (1 bm c v cur lim)
  show ?case
  proof (cases "lim \<le> bit_count bm \<and> cur < bit_count bm")
    case False
    then have "find_group_loop bm c v cur lim = BITMAP_ERR"
      by (subst find_group_loop.simps) (simp only: if_False)
    then show ?thesis using candidate_over [OF "1.prems" False] by simp
  next
    case True
    then have "cur < bit_count bm" by simp
    note step = candidate_miss [OF "1.prems" this] candidate_hit [OF "1.prems" this] candidate_grows [OF "1.prems" this]
    show ?thesis
      using True step "1.IH" by (cases "bitmap_test_bit bm cur v"; cases "cur + 1 = lim")
        (simp_all add: find_group_loop.simps [of bm c v cur lim])
  qed
qed

lemma find_group_spec:
  assumes "c \<noteq> 0"
  shows "first_run bm (unat s) (unat c) v (bitmap_find_first_bits_group bm s c v)"
  unfolding bitmap_find_first_bits_group_def using assms
  by (intro find_group_loop_spec [where b = "unat s"])
    (auto simp: candidate_def unat_gt_0)

lemma find_group_hit:
  assumes "c \<noteq> 0" "bitmap_find_first_bits_group bm s c v = r" "r \<noteq> BITMAP_ERR"
  shows "unat s \<le> unat r" "unat r + unat c \<le> unat (bit_count bm)"
    and "\<And>k. unat r \<le> k \<Longrightarrow> k < unat r + unat c \<Longrightarrow> bit_at bm k = v"
  using find_group_spec [OF assms(1), of bm s v] assms(2,3)
  by (auto simp: first_run_def run_at_def)

lemma find_group_miss:
  assumes "c \<noteq> 0" "bitmap_find_first_bits_group bm s c v = BITMAP_ERR"
    "unat s \<le> i" "i + unat c \<le> unat (bit_count bm)"
  shows "\<exists>k. i \<le> k \<and> k < i + unat c \<and> bit_at bm k \<noteq> v"
  using find_group_spec [OF assms(1), of bm s v] assms(2-4)
  by (auto simp: first_run_def run_at_def)

section \<open>Filling the whole bitmap\<close>

lemma config_all_words:
  "n \<le> 134217728 \<Longrightarrow> let b = for_loop 0 (of_nat n) (\<lambda>i b. b\<lparr>bits := (bits b)(i := v)\<rparr>) bm in
     bit_count b = bit_count bm \<and> (\<forall>j. bits b j = (if unat j < n then v else bits bm j))"
  unfolding Let_def
proof -
  assume n: "n \<le> 134217728"
  then have un: "unat (of_nat n :: u32) = n" by (simp add: unat_of_nat)
  let ?P = "\<lambda>m b. bit_count b = bit_count bm \<and> (\<forall>j. bits b j = (if unat j < m then v else bits bm j))"
  have "?P (unat (of_nat n :: u32)) (for_loop 0 (of_nat n) (\<lambda>i b. b\<lparr>bits := (bits b)(i := v)\<rparr>) bm)"
  proof (rule for_loop_inv)
    fix m b assume "m < unat (of_nat n :: u32)" "?P m b"
    moreover from this have "unat (of_nat m :: u32) = m" using un n by (simp add: unat_of_nat)
    ultimately show "?P (Suc m) (b\<lparr>bits := (bits b)(of_nat m := v)\<rparr>)"
      by (auto simp: less_Suc_eq word_unat_eq_iff)
  qed simp_all
  then show "bit_count (for_loop 0 (of_nat n) (\<lambda>i b. b\<lparr>bits := (bits b)(i := v)\<rparr>) bm) = bit_count bm \<and>
    (\<forall>j. bits (for_loop 0 (of_nat n) (\<lambda>i b. b\<lparr>bits := (bits b)(i := v)\<rparr>) bm) j =
      (if unat j < n then v else bits bm j))" by (simp add: un)
qed

lemma config_all_rest:
  fixes bm :: bitmap and lo r :: u32
  assumes "unat lo + unat r \<le> unat (bit_count bm)"
  shows "bit_count (for_loop 0 r (\<lambda>i b. bitmap_config_bit b (lo + i) v) bm) = bit_count bm"
    and "k < 4294967296 \<Longrightarrow> bit_at (for_loop 0 r (\<lambda>i b. bitmap_config_bit b (lo + i) v) bm) k =
      (if unat lo \<le> k \<and> k < unat lo + unat r then v else bit_at bm k)"
proof -
  have n: "unat (bit_count bm) < 4294967296" by simp
  let ?P = "\<lambda>j b. bit_count b = bit_count bm \<and> (\<forall>k < 4294967296. bit_at b k =
    (if unat lo \<le> k \<and> k < unat lo + j then v else bit_at bm k))"
  have "?P (unat r) (for_loop 0 r (\<lambda>i b. bitmap_config_bit b (lo + i) v) bm)"
  proof (rule for_loop_inv)
    fix j b assume j: "j < unat r" and P: "?P j b"
    have uj: "unat (of_nat j :: u32) = j"
      using j by (intro unat_of_nat32 order.strict_trans [OF j]) simp
    moreover have "unat lo + j < 4294967296" using j assms n by linarith
    ultimately have "unat (lo + of_nat j) = unat lo + j"
      by (subst unat_plus_no_wrap) simp_all
    moreover from this have "lo + of_nat j < bit_count bm"
      using j assms by (simp add: word_less_nat_alt)
    ultimately show "?P (Suc j) (bitmap_config_bit b (lo + of_nat j) v)"
      using P by (auto simp: bit_at_config_bit)
  qed auto
  then show "bit_count (for_loop 0 r (\<lambda>i b. bitmap_config_bit b (lo + i) v) bm) = bit_count bm"
    and "k < 4294967296 \<Longrightarrow> bit_at (for_loop 0 r (\<lambda>i b. bitmap_config_bit b (lo + i) v) bm) k =
      (if unat lo \<le> k \<and> k < unat lo + unat r then v else bit_at bm k)" by simp_all
qed

lemma config_all_spec:
  shows "bit_count (bitmap_config_all bm v) = bit_count bm"
    and "k < unat (bit_count bm) \<Longrightarrow> bit_at (bitmap_config_all bm v) k = v"
proof -
  let ?n = "unat (bit_count bm)"
  define b1 where "b1 = for_loop 0 (of_nat (?n div 32))
    (\<lambda>i b. b\<lparr>bits := (bits b)(i := (if v then - 1 else 0))\<rparr>) bm"
  have n: "?n < 4294967296" by simp
  then have "?n div 32 \<le> 134217728" by linarith
  from config_all_words [OF this, of "if v then - 1 else 0" bm]
  have b1: "bit_count b1 = bit_count bm"
    "bits b1 j = (if unat j < ?n div 32 then if v then - 1 else 0 else bits bm j)" for j
    by (simp_all add: b1_def Let_def)
  have lo: "unat (bit_count bm div 32 * 32) = ?n div 32 * 32"
  proof -
    have "?n div 32 * 32 < 4294967296" using n by linarith
    then show ?thesis by (simp add: unat_word_ariths unat_div)
  qed
  have eq: "bitmap_config_all bm v = for_loop 0 (bit_count bm mod 32)
    (\<lambda>i b. bitmap_config_bit b (bit_count bm div 32 * 32 + i) v) b1"
    by (simp add: bitmap_config_all_def b1_def Let_def)
  have le: "unat (bit_count bm div 32 * 32) + unat (bit_count bm mod 32) \<le> unat (bit_count b1)"
    by (simp add: lo b1 unat_mod)
  show "bit_count (bitmap_config_all bm v) = bit_count bm"
    by (simp add: eq config_all_rest [OF le] b1)
  assume k: "k < ?n"
  then have k32: "k < 4294967296" using n by linarith
  show "bit_at (bitmap_config_all bm v) k = v"
  proof (cases "k < ?n div 32 * 32")
    case True
    have "unat (of_nat (k div 32) :: u32) = k div 32"
      using k n by (intro unat_of_nat32) linarith
    moreover have "k div 32 < ?n div 32" using True by (simp add: div_less_iff_less_mult)
    ultimately have "bit_at b1 k = v"
      by (simp add: bit_at_def b1 bit_minus_1_iff)
    with True k32 show ?thesis by (simp add: eq config_all_rest [OF le] lo)
  next
    case False
    with k k32 show ?thesis by (simp add: eq config_all_rest [OF le] lo unat_mod)
  qed
qed

section \<open>The words a bitmap touches\<close>

lemma config_bit_words:
  assumes "j \<noteq> idx div 32 \<or> bit_count bm \<le> idx"
  shows "bits (bitmap_config_bit bm idx v) j = bits bm j"
  using assms by (auto simp: bitmap_config_bit_def Let_def)

section \<open>The contract of a bit array with ranges\<close>

locale range_bitmap =
  fixes size_of :: "'b \<Rightarrow> u32"
    and bit_of :: "'b \<Rightarrow> nat \<Rightarrow> bool"
    and find :: "'b \<Rightarrow> u32 \<Rightarrow> u32 \<Rightarrow> bool \<Rightarrow> u32"
    and set_range :: "'b \<Rightarrow> u32 \<Rightarrow> u32 \<Rightarrow> 'b"
    and reset_range :: "'b \<Rightarrow> u32 \<Rightarrow> u32 \<Rightarrow> 'b"
  assumes size_set: "size_of (set_range b s c) = size_of b"
    and size_reset: "size_of (reset_range b s c) = size_of b"
    and bit_set: "k < 4294967296 \<Longrightarrow> unat s + unat c \<le> unat (size_of b) \<Longrightarrow>
      bit_of (set_range b s c) k = (unat s \<le> k \<and> k < unat s + unat c \<or> bit_of b k)"
    and bit_reset: "k < 4294967296 \<Longrightarrow> unat s + unat c \<le> unat (size_of b) \<Longrightarrow>
      bit_of (reset_range b s c) k = (\<not> (unat s \<le> k \<and> k < unat s + unat c) \<and> bit_of b k)"
    and find_hit: "c \<noteq> 0 \<Longrightarrow> find b s c v = r \<Longrightarrow> r \<noteq> BITMAP_ERR \<Longrightarrow>
      unat s \<le> unat r \<and> unat r + unat c \<le> unat (size_of b) \<and>
      (\<forall>k. unat r \<le> k \<and> k < unat r + unat c \<longrightarrow> bit_of b k = v)"
    and find_miss: "c \<noteq> 0 \<Longrightarrow> find b s c v = BITMAP_ERR \<Longrightarrow> unat s \<le> i \<Longrightarrow>
      i + unat c \<le> unat (size_of b) \<Longrightarrow> \<exists>k. i \<le> k \<and> k < i + unat c \<and> bit_of b k \<noteq> v"
begin

text \<open>Claiming a range the search found: it was free, it is taken now, nothing else moved.\<close>

lemma claim_found:
  assumes "c \<noteq> 0" "find b 0 c False = r" "r \<noteq> BITMAP_ERR"
  shows "unat r + unat c \<le> unat (size_of b)"
    and "unat r \<le> k \<Longrightarrow> k < unat r + unat c \<Longrightarrow> \<not> bit_of b k \<and> bit_of (set_range b r c) k"
    and "\<not> (unat r \<le> k \<and> k < unat r + unat c) \<Longrightarrow> k < 4294967296 \<Longrightarrow>
      bit_of (set_range b r c) k = bit_of b k"
proof -
  show le: "unat r + unat c \<le> unat (size_of b)"
    using find_hit [OF assms] by blast
  moreover have "unat (size_of b) < 4294967296" by simp
  ultimately have "k < unat r + unat c \<Longrightarrow> k < 4294967296" by linarith
  then show "unat r \<le> k \<Longrightarrow> k < unat r + unat c \<Longrightarrow> \<not> bit_of b k \<and> bit_of (set_range b r c) k"
    using find_hit [OF assms] bit_set [of k r c b] by simp
  show "\<not> (unat r \<le> k \<and> k < unat r + unat c) \<Longrightarrow> k < 4294967296 \<Longrightarrow>
      bit_of (set_range b r c) k = bit_of b k"
    using bit_set [of k r c b] le by auto
qed

text \<open>Releasing what was claimed restores every bit.\<close>

lemma release_claimed:
  assumes "c \<noteq> 0" "find b 0 c False = r" "r \<noteq> BITMAP_ERR" "k < 4294967296"
  shows "bit_of (reset_range (set_range b r c) r c) k = bit_of b k"
  using claim_found [OF assms(1-3)] bit_reset [OF assms(4), of r c "set_range b r c"] assms(4)
  by (auto simp: size_set bit_set)

text \<open>Where a free range of the wanted length exists the search does not fail.\<close>

lemma find_succeeds:
  assumes "c \<noteq> 0" "i + unat c \<le> unat (size_of b)"
    and "\<And>k. i \<le> k \<Longrightarrow> k < i + unat c \<Longrightarrow> \<not> bit_of b k"
  shows "find b 0 c False \<noteq> BITMAP_ERR"
  using find_miss [OF assms(1), of b 0 False i] assms(2,3) by auto

end

interpretation bmap: range_bitmap bit_count bit_at bitmap_find_first_bits_group
  bitmap_set_multi_bits bitmap_reset_multi_bits
  by unfold_locales
    (auto simp: set_multi_bits_spec reset_multi_bits_spec in_range_def
      dest: find_group_hit find_group_miss)

end
