(* ===== verification/Memory.thy ===== *)
theory Memory
  imports Prelude
begin

text \<open>
  Byte memory over the 32-bit address space, its little-endian 32-bit view, and the
  functions of \<open>lib/string.c\<close> on it. \<open>char\<close> is signed on i386, so the comparisons
  of \<open>memcmp\<close> and \<open>strcmp\<close> read bytes with \<open>sint\<close>. A scan for a terminator that is
  not there does not end: \<open>strlen\<close> and \<open>strcmp\<close> are partial functions.
\<close>

section \<open>Bytes and 32-bit words\<close>

type_synonym memory = "u32 \<Rightarrow> u8"

definition load32 :: "memory \<Rightarrow> u32 \<Rightarrow> u32" where
  "load32 m a = ucast (m a) OR push_bit 8 (ucast (m (a + 1))) OR
     push_bit 16 (ucast (m (a + 2))) OR push_bit 24 (ucast (m (a + 3)))"

definition store32 :: "u32 \<Rightarrow> u32 \<Rightarrow> memory \<Rightarrow> memory" where
  "store32 a w m = m(a := ucast w, a + 1 := ucast (drop_bit 8 w),
     a + 2 := ucast (drop_bit 16 w), a + 3 := ucast (drop_bit 24 w))"

lemma store32_bytes:
  "store32 a w m a = ucast w" "store32 a w m (a + 1) = ucast (drop_bit 8 w)"
  "store32 a w m (a + 2) = ucast (drop_bit 16 w)" "store32 a w m (a + 3) = ucast (drop_bit 24 w)"
  by (simp_all add: store32_def)

lemma load32_store32_same [simp]: "load32 (store32 a w m) a = w"
proof (rule bit_word_eqI)
  fix n assume "n < LENGTH(32)"
  then consider "n < 8" | "8 \<le> n" "n < 16" | "16 \<le> n" "n < 24" | "24 \<le> n" "n < 32"
    by fastforce
  then show "bit (load32 (store32 a w m) a) n = bit w n"
    unfolding load32_def store32_bytes by cases (auto simp: bit_simps)
qed

text \<open>Words whose byte ranges are apart do not interfere.\<close>

definition apart :: "u32 \<Rightarrow> u32 \<Rightarrow> bool" where
  "apart a b \<longleftrightarrow> unat a + 3 < unat b \<or> unat b + 3 < unat a"

lemma store32_other:
  assumes "unat a + 3 < 4294967296" "unat x < unat a \<or> unat a + 3 < unat x"
  shows "store32 a w m x = m x"
proof -
  have "unat (a + 1) = unat a + 1" "unat (a + 2) = unat a + 2" "unat (a + 3) = unat a + 3"
    using assms(1) by (simp_all add: unat_plus_no_wrap)
  with assms(2) show ?thesis by (auto simp: store32_def word_unat_eq_iff)
qed

lemma load32_cong:
  "m a = m' a \<Longrightarrow> m (a + 1) = m' (a + 1) \<Longrightarrow> m (a + 2) = m' (a + 2) \<Longrightarrow> m (a + 3) = m' (a + 3) \<Longrightarrow>
   load32 m a = load32 m' a"
  by (simp add: load32_def)

lemma load32_store32_other:
  assumes "apart a b" "unat a + 3 < 4294967296" "unat b + 3 < 4294967296"
  shows "load32 (store32 a w m) b = load32 m b"
proof -
  have "unat (b + 1) = unat b + 1" "unat (b + 2) = unat b + 2" "unat (b + 3) = unat b + 3"
    using assms(3) by (simp_all add: unat_plus_no_wrap)
  then show ?thesis
    using assms by (intro load32_cong store32_other) (auto simp: apart_def)
qed

section \<open>\<open>lib/string.c\<close>\<close>

primrec copy_bytes :: "nat \<Rightarrow> u32 \<Rightarrow> u32 \<Rightarrow> memory \<Rightarrow> memory" where
  "copy_bytes 0 d s m = m"
| "copy_bytes (Suc n) d s m = copy_bytes n (d + 1) (s + 1) (m(d := m s))"

definition memcpy :: "u32 \<Rightarrow> u32 \<Rightarrow> u32 \<Rightarrow> memory \<Rightarrow> u32 \<times> memory" where
  "memcpy dest src sz m =
     (if dest = NULL \<or> src = NULL \<or> sz = 0 then (NULL, m)
      else (dest, copy_bytes (unat sz) dest src m))"

definition memmove :: "u32 \<Rightarrow> u32 \<Rightarrow> u32 \<Rightarrow> memory \<Rightarrow> u32 \<times> memory" where
  "memmove dest src sz m = memcpy dest src sz m"

text \<open>The loop of \<open>memcmp\<close> counts down but moves neither pointer.\<close>

primrec memcmp_loop :: "nat \<Rightarrow> u32 \<Rightarrow> u32 \<Rightarrow> memory \<Rightarrow> int" where
  "memcmp_loop 0 d s m = 0"
| "memcmp_loop (Suc n) d s m =
     (if m d \<noteq> m s then (if sint (m s) < sint (m d) then 1 else - 1) else memcmp_loop n d s m)"

definition memcmp :: "u32 \<Rightarrow> u32 \<Rightarrow> u32 \<Rightarrow> memory \<Rightarrow> int" where
  "memcmp dest src sz m =
     (if dest = NULL \<or> src = NULL \<or> sz = 0 then - 2 else memcmp_loop (unat sz) dest src m)"

primrec fill_bytes :: "nat \<Rightarrow> u32 \<Rightarrow> u8 \<Rightarrow> memory \<Rightarrow> memory" where
  "fill_bytes 0 d v m = m"
| "fill_bytes (Suc n) d v m = fill_bytes n (d + 1) v (m(d := v))"

definition memset :: "u32 \<Rightarrow> i32 \<Rightarrow> u32 \<Rightarrow> memory \<Rightarrow> u32 \<times> memory" where
  "memset dest val sz m =
     (if dest = NULL then (NULL, m) else (dest, fill_bytes (unat sz) dest (ucast val) m))"

partial_function (option) strend :: "memory \<Rightarrow> u32 \<Rightarrow> u32 option" where
  "strend m p = (if m p = 0 then Some p else strend m (p + 1))"

definition strlen :: "u32 \<Rightarrow> memory \<Rightarrow> u32 option" where
  "strlen str m = (if str = NULL then Some 0 else map_option (\<lambda>p. p - str) (strend m str))"

definition strlcpy :: "u32 \<Rightarrow> u32 \<Rightarrow> u32 \<Rightarrow> memory \<Rightarrow> (u32 \<times> memory) option" where
  "strlcpy dest src sz m =
     (case strlen src m of
        None \<Rightarrow> None
      | Some src_len \<Rightarrow>
          (let dest_len = sz - 1
           in if 0 < sz then
                (let dest_len = (if src_len < dest_len then src_len else dest_len);
                     m1 = snd (memcpy dest src dest_len m)
                 in Some (dest_len, m1(dest + dest_len := 0)))
              else Some (dest_len, m)))"

text \<open>
  \<open>while(*str1 != '\0' && *str1++ == *str2++);\<close>: both pointers move before the result of
  the comparison is looked at, so after a mismatch they are one past it.
\<close>

partial_function (option) strcmp_loop :: "memory \<Rightarrow> u32 \<Rightarrow> u32 \<Rightarrow> (u32 \<times> u32) option" where
  "strcmp_loop m str1 str2 =
     (if m str1 = 0 then Some (str1, str2)
      else if m str1 = m str2 then strcmp_loop m (str1 + 1) (str2 + 1)
      else Some (str1 + 1, str2 + 1))"

definition strcmp :: "u32 \<Rightarrow> u32 \<Rightarrow> memory \<Rightarrow> int option" where
  "strcmp str1 str2 m =
     map_option (\<lambda>(p, q). if sint (m p) < sint (m q) then - 1 else if sint (m q) < sint (m p) then 1 else 0)
       (strcmp_loop m str1 str2)"

section \<open>Copying and filling\<close>

lemma copy_bytes_spec:
  assumes "unat d + n < 4294967296" "unat s + n < 4294967296"
    and "unat d \<le> unat s \<or> unat s + n \<le> unat d"
  shows "copy_bytes n d s m a =
    (if unat d \<le> unat a \<and> unat a < unat d + n then m (s + (a - d)) else m a)"
  using assms
proof (induction n arbitrary: d s m)
  case 0
  show ?case by (auto simp: not_le)
next
  case (Suc n)
  have ud: "unat (d + 1) = Suc (unat d)" and us: "unat (s + 1) = Suc (unat s)"
    using Suc.prems(1,2) by (simp_all add: unat_plus_no_wrap)
  have IH: "copy_bytes n (d + 1) (s + 1) (m(d := m s)) a =
    (if Suc (unat d) \<le> unat a \<and> unat a < unat d + Suc n
     then (m(d := m s)) (s + 1 + (a - (d + 1))) else (m(d := m s)) a)"
    using Suc.prems by (subst Suc.IH) (auto simp only: ud us add_Suc_right add_Suc)
  show ?case
  proof (cases "Suc (unat d) \<le> unat a \<and> unat a < unat d + Suc n")
    case True
    have "unat (a - d) = unat a - unat d"
      using True by (simp add: unat_sub word_le_nat_alt)
    then have "unat (s + (a - d)) = unat s + (unat a - unat d)"
    proof -
      have "unat s + (unat a - unat d) < 4294967296" using True Suc.prems(2) by linarith
      with \<open>unat (a - d) = unat a - unat d\<close> show ?thesis by (subst unat_plus_no_wrap) simp_all
    qed
    then have "unat (s + (a - d)) \<noteq> unat d"
      using True Suc.prems(3) by linarith
    then have "s + (a - d) \<noteq> d" by metis
    with True show ?thesis by (simp add: IH)
  next
    case False
    show ?thesis
    proof (cases "a = d")
      case True
      with IH show ?thesis by simp
    next
      case ad: False
      then have "unat a \<noteq> unat d" by (simp add: unat_inj_iff)
      with False have "\<not> (unat d \<le> unat a \<and> unat a < unat d + Suc n)" by linarith
      with False ad IH show ?thesis by auto
    qed
  qed
qed

lemma fill_bytes_spec:
  assumes "unat d + n < 4294967296"
  shows "fill_bytes n d v m a = (if unat d \<le> unat a \<and> unat a < unat d + n then v else m a)"
  using assms
proof (induction n arbitrary: d m)
  case 0
  show ?case by (auto simp: not_le)
next
  case (Suc n)
  have "unat (d + 1) = Suc (unat d)" using Suc.prems by (simp add: unat_plus_no_wrap)
  with Suc.IH [of "d + 1"] Suc.prems show ?case by (auto simp: word_unat_eq_iff)
qed

section \<open>Terminated strings\<close>

text \<open>\<open>cstr m p s\<close>: the bytes \<open>s\<close>, none of them zero, lie at \<open>p\<close>, followed by a zero.\<close>

fun cstr :: "memory \<Rightarrow> u32 \<Rightarrow> u8 list \<Rightarrow> bool" where
  "cstr m p [] \<longleftrightarrow> m p = 0"
| "cstr m p (c # cs) \<longleftrightarrow> m p = c \<and> c \<noteq> 0 \<and> cstr m (p + 1) cs"

lemma strend_cstr: "cstr m p s \<Longrightarrow> strend m p = Some (p + of_nat (length s))"
  by (induction s arbitrary: p) (simp_all add: strend.simps add.assoc)

lemma strlen_cstr: "p \<noteq> NULL \<Longrightarrow> cstr m p s \<Longrightarrow> strlen p m = Some (of_nat (length s))"
  by (simp add: strlen_def strend_cstr)

lemma cstr_nth: "cstr m p s \<Longrightarrow> i < length s \<Longrightarrow> m (p + of_nat i) = s ! i"
proof (induction s arbitrary: p i)
  case (Cons c cs)
  then show ?case
    by (cases i) (use Cons.IH [of "p + 1" "i - 1"] in \<open>simp_all add: add.assoc\<close>)
qed simp

lemma cstr_end: "cstr m p s \<Longrightarrow> m (p + of_nat (length s)) = 0"
proof (induction s arbitrary: p)
  case (Cons c cs)
  then show ?case using Cons.IH [of "p + 1"] by (simp add: add.assoc)
qed simp

lemma cstr_nonzero: "cstr m p s \<Longrightarrow> 0 \<notin> set s"
  by (induction s arbitrary: p) auto

lemma cstr_agree:
  assumes "cstr m p s" "unat p + length s < 4294967296"
    and "\<And>a. unat p \<le> unat a \<Longrightarrow> unat a \<le> unat p + length s \<Longrightarrow> m' a = m a"
  shows "cstr m' p s"
  using assms
proof (induction s arbitrary: p)
  case Nil
  then show ?case by simp
next
  case (Cons x s)
  have p1: "unat (p + 1) = unat p + 1" using Cons.prems(2) by (subst unat_plus_no_wrap) simp_all
  have "cstr m' (p + 1) s"
    by (rule Cons.IH) (use Cons.prems p1 in auto)
  then show ?case using Cons.prems(1,3) by simp
qed

lemma cstr_take:
  assumes "\<And>i. i < n \<Longrightarrow> m (p + of_nat i) = s ! i" "m (p + of_nat n) = 0" "n \<le> length s"
    and "0 \<notin> set s"
  shows "cstr m p (take n s)"
  using assms
proof (induction n arbitrary: p s)
  case 0
  then show ?case by simp
next
  case (Suc n)
  then obtain c cs where s: "s = c # cs" by (cases s) auto
  have "cstr m (p + 1) (take n cs)"
  proof (rule Suc.IH)
    show "m (p + 1 + of_nat i) = cs ! i" if "i < n" for i
      using Suc.prems(1) [of "Suc i"] that by (simp add: s add.assoc)
  qed (use Suc.prems in \<open>auto simp: s add.assoc\<close>)
  with Suc.prems(1) [of 0] Suc.prems(4) show ?case by (auto simp: s)
qed

lemma memcpy_copy: "d \<noteq> NULL \<Longrightarrow> s \<noteq> NULL \<Longrightarrow> snd (memcpy d s n m) = copy_bytes (unat n) d s m"
  by (auto simp: memcpy_def)

lemma memset_fill: "d \<noteq> NULL \<Longrightarrow> snd (memset d v n m) = fill_bytes (unat n) d (ucast v) m"
  by (simp add: memset_def)

section \<open>\<open>strlcpy\<close>\<close>

text \<open>
  \<open>strlcpy\<close> copies the longest prefix that leaves room for the terminator, always
  terminates the copy, returns its length and writes nothing else.
\<close>

lemma strlcpy_prefix:
  assumes s: "cstr m src s" "src \<noteq> NULL" "dest \<noteq> NULL" "length s < 4294967295"
    and n: "0 < n" and k: "k = min (length s) (unat n - 1)"
    and wrap: "unat dest + k < 4294967295" "unat src + length s < 4294967296"
    and ov: "unat src + length s < unat dest \<or> unat dest + k < unat src"
  obtains m' where "strlcpy dest src n m = Some (of_nat k, m')" "cstr m' dest (take k s)"
    and "\<And>a. unat a < unat dest \<or> unat dest + k < unat a \<Longrightarrow> m' a = m a"
proof -
  let ?m' = "(copy_bytes k dest src m)(dest + of_nat k := 0)"
  have len: "strlen src m = Some (of_nat (length s))" using s by (simp add: strlen_cstr)
  have n0: "0 < unat n" using n by (simp add: word_less_nat_alt)
  have un: "unat (n - 1) = unat n - 1"
    using n0 by (subst unat_sub) (simp_all add: word_le_nat_alt)
  have ul: "unat (of_nat (length s) :: u32) = length s" using s(4) by (intro unat_of_nat32) simp
  have kk: "(if of_nat (length s) < n - 1 then of_nat (length s) else n - 1) = (of_nat k :: u32)"
    using ul un by (auto simp: k word_less_nat_alt min_def word_unat_eq_iff unat_of_nat)
  have uk: "unat (of_nat k :: u32) = k" using wrap by (intro unat_of_nat32) simp
  have eq: "strlcpy dest src n m = Some (of_nat k, ?m')"
    using n s(2,3) by (simp add: strlcpy_def len Let_def kk memcpy_copy uk)
  have ks: "k \<le> length s" by (simp add: k)
  have cp: "copy_bytes k dest src m a =
    (if unat dest \<le> unat a \<and> unat a < unat dest + k then m (src + (a - dest)) else m a)" for a
    using wrap ov ks by (intro copy_bytes_spec) auto
  have ui: "unat (dest + of_nat i) = unat dest + i" if "i \<le> k" for i
    using that wrap uk by (subst unat_plus_no_wrap) (simp_all add: unat_of_nat)
  have "cstr ?m' dest (take k s)"
  proof (rule cstr_take)
    fix i assume i: "i < k"
    then have "dest + of_nat i \<noteq> dest + of_nat k"
      using ui [of i] ui [of k] by (metis less_imp_le nat_neq_iff order_refl add_left_cancel)
    then show "?m' (dest + of_nat i) = s ! i"
      using i ui [of i] cstr_nth [OF s(1), of i] ks by (simp add: cp)
  qed (use ks cstr_nonzero [OF s(1)] in simp_all)
  moreover have "?m' a = m a" if "unat a < unat dest \<or> unat dest + k < unat a" for a
    using that ui [of k] by (auto simp: cp)
  ultimately show ?thesis using that eq by blast
qed

section \<open>Comparing\<close>

lemma memcmp_loop_first:
  "0 < n \<Longrightarrow> memcmp_loop n d s m =
    (if m d = m s then 0 else if sint (m s) < sint (m d) then 1 else - 1)"
proof (induction n)
  case (Suc n)
  then show ?case by (cases n) auto
qed simp

text \<open>Where the two pointers of \<open>strcmp\<close> stop, on strings with the common prefix \<open>xs\<close>.\<close>

lemma strcmp_loop_prefix:
  assumes "\<And>i. i < n \<Longrightarrow> m (p + of_nat i) \<noteq> 0 \<and> m (p + of_nat i) = m (q + of_nat i)"
  shows "strcmp_loop m p q = strcmp_loop m (p + of_nat n) (q + of_nat n)"
  using assms
proof (induction n arbitrary: p q)
  case 0
  then show ?case by simp
next
  case (Suc n)
  have "m q \<noteq> 0" "m p = m q" using Suc.prems [of 0] by auto
  then have "strcmp_loop m p q = strcmp_loop m (p + 1) (q + 1)"
    by (simp add: strcmp_loop.simps [of m p q])
  also have "\<dots> = strcmp_loop m (p + 1 + of_nat n) (q + 1 + of_nat n)"
  proof (rule Suc.IH)
    fix i assume "i < n"
    then show "m (p + 1 + of_nat i) \<noteq> 0 \<and> m (p + 1 + of_nat i) = m (q + 1 + of_nat i)"
      using Suc.prems [of "Suc i"] by (auto simp: add.assoc)
  qed
  finally show ?case by (simp add: add.assoc)
qed

lemma strcmp_at_mismatch:
  assumes "\<And>i. i < n \<Longrightarrow> m (p + of_nat i) \<noteq> 0 \<and> m (p + of_nat i) = m (q + of_nat i)"
    and "m (p + of_nat n) \<noteq> 0" "m (p + of_nat n) \<noteq> m (q + of_nat n)"
  shows "strcmp_loop m p q = Some (p + of_nat (Suc n), q + of_nat (Suc n))"
  using strcmp_loop_prefix [OF assms(1)] assms(2,3)
  by (simp add: strcmp_loop.simps [of m "p + of_nat n"] add.assoc add.commute [of 1])

lemma strcmp_at_end:
  assumes "\<And>i. i < n \<Longrightarrow> m (p + of_nat i) \<noteq> 0 \<and> m (p + of_nat i) = m (q + of_nat i)"
    and "m (p + of_nat n) = 0"
  shows "strcmp_loop m p q = Some (p + of_nat n, q + of_nat n)"
  using strcmp_loop_prefix [OF assms(1)] assms(2)
  by (simp add: strcmp_loop.simps [of m "p + of_nat n"])

lemma strcmp_same:
  assumes "cstr m p s" "cstr m q s"
  shows "strcmp p q m = Some 0"
proof -
  have "strcmp_loop m p q = Some (p + of_nat (length s), q + of_nat (length s))"
    using cstr_nth [OF assms(1)] cstr_nth [OF assms(2)] cstr_nonzero [OF assms(1)] cstr_end [OF assms(1)]
    by (intro strcmp_at_end) (auto dest: nth_mem)
  then show ?thesis using cstr_end [OF assms(1)] cstr_end [OF assms(2)] by (simp add: strcmp_def)
qed

lemma strcmp_last_char:
  assumes "cstr m p (xs @ [a])" "cstr m q (xs @ [b])"
  shows "strcmp p q m = Some 0"
proof (cases "a = b")
  case True
  with assms show ?thesis by (simp add: strcmp_same)
next
  case False
  have "strcmp_loop m p q = Some (p + of_nat (Suc (length xs)), q + of_nat (Suc (length xs)))"
    using cstr_nth [OF assms(1)] cstr_nth [OF assms(2)] cstr_nonzero [OF assms(1)] False
    by (intro strcmp_at_mismatch) (auto simp: nth_append dest: nth_mem)
  then show ?thesis
    using cstr_end [OF assms(1)] cstr_end [OF assms(2)] by (simp add: strcmp_def)
qed

section \<open>Moving\<close>

text \<open>A move that reads all of the source before it writes.\<close>

definition moved :: "u32 \<Rightarrow> u32 \<Rightarrow> nat \<Rightarrow> memory \<Rightarrow> memory" where
  "moved d s n m = (\<lambda>a. if unat (a - d) < n then m (s + (a - d)) else m a)"

lemma copy_bytes_snoc:
  "copy_bytes (Suc n) d s m = (let m' = copy_bytes n d s m in m'(d + of_nat n := m' (s + of_nat n)))"
proof (induction n arbitrary: d s m)
  case (Suc n)
  show ?case by (subst copy_bytes.simps(2), subst Suc.IH) (simp add: Let_def add.assoc)
qed simp

lemma copy_bytes_unwritten:
  assumes "n \<le> unat (a - d)"
  shows "copy_bytes n d s m a = m a"
  using assms
proof (induction n)
  case (Suc n)
  have "unat (of_nat n :: u32) = n" using Suc.prems u32_lt [of "a - d"] by (intro unat_of_nat32) linarith
  then have "a \<noteq> d + of_nat n" using Suc.prems by auto
  then show ?case using Suc by (simp add: copy_bytes_snoc Let_def del: copy_bytes.simps)
qed simp

lemma copy_bytes_written:
  assumes "i < n" "n \<le> 4294967296"
  shows "copy_bytes n d s m (d + of_nat i) = copy_bytes i d s m (s + of_nat i)"
  using assms
proof (induction n)
  case (Suc n)
  show ?case
  proof (cases "i = n")
    case False
    have "unat (of_nat n :: u32) = n" "unat (of_nat i :: u32) = i" using Suc.prems by (auto intro!: unat_of_nat32)
    then have "(of_nat i :: u32) \<noteq> of_nat n" using False by metis
    then show ?thesis using Suc False by (simp add: copy_bytes_snoc Let_def del: copy_bytes.simps)
  qed (simp add: copy_bytes_snoc Let_def del: copy_bytes.simps)
qed simp

lemma moves_iff:
  assumes "0 < n" "unat d + n \<le> 4294967296" "unat s + n \<le> 4294967296"
  shows "(\<forall>m. copy_bytes n d s m = moved d s n m) \<longleftrightarrow> d \<le> s \<or> unat s + n \<le> unat d"
proof
  assume L: "d \<le> s \<or> unat s + n \<le> unat d"
  have "copy_bytes n d s m a = moved d s n m a" for m a
  proof (cases "unat (a - d) < n")
    case True
    define i where "i = unat (a - d)"
    have a: "a - d = of_nat i" "a = d + of_nat i" by (simp_all add: i_def)
    have i: "i < n" using True by (simp add: i_def)
    have "i \<le> unat (s + of_nat i - d)"
    proof -
      have u: "unat (s + of_nat i) = unat s + i"
      proof -
        have "unat (of_nat i :: u32) = i" using i assms by (intro unat_of_nat32) simp
        then show ?thesis using i assms by (subst unat_plus_no_wrap) simp_all
      qed
      show ?thesis using L
      proof
        assume "d \<le> s"
        then have "unat d \<le> unat s" by (simp add: word_le_nat_alt)
        then show ?thesis using u by (subst unat_sub_if') simp
      next
        assume "unat s + n \<le> unat d"
        then show ?thesis using u i assms by (subst unat_sub_if') simp
      qed
    qed
    then have "copy_bytes i d s m (s + of_nat i) = m (s + of_nat i)" by (rule copy_bytes_unwritten)
    then show ?thesis using copy_bytes_written [OF i, of d s m] assms True by (simp add: moved_def a)
  qed (simp add: moved_def copy_bytes_unwritten)
  then show "\<forall>m. copy_bytes n d s m = moved d s n m" by blast
next
  assume R: "\<forall>m. copy_bytes n d s m = moved d s n m"
  show "d \<le> s \<or> unat s + n \<le> unat d"
  proof (rule ccontr)
    assume "\<not> ?thesis"
    then have lt: "unat s < unat d" "unat d < unat s + n" by (simp_all add: word_le_nat_alt)
    define k where "k = unat d - unat s"
    have k: "0 < k" "k < n" using lt by (simp_all add: k_def)
    have u: "unat (of_nat k :: u32) = k" using k assms by (intro unat_of_nat32) simp
    have sd: "s + of_nat k = d"
      by (rule word_unat_eq_iff [THEN iffD2]) (use u lt u32_lt [of d] in \<open>simp add: unat_plus_no_wrap k_def\<close>)
    let ?m = "(\<lambda>_. 0)(s := 1) :: memory"
    have "copy_bytes n d s ?m (d + of_nat k) = copy_bytes k d s ?m (d + of_nat 0)"
      using copy_bytes_written [OF k(2), of d s ?m] assms by (simp add: sd)
    also have "\<dots> = 1" using copy_bytes_written [OF k(1), of d s ?m] k(2) assms by simp
    finally have "copy_bytes n d s ?m (d + of_nat k) = 1" .
    moreover have "moved d s n ?m (d + of_nat k) = 0" using lt k u by (auto simp: moved_def sd)
    ultimately show False using R by (metis zero_neq_one)
  qed
qed

end
