(* ===== verification/Vaddr.thy ===== *)
theory Vaddr
  imports Prelude
begin

text \<open>
  Addresses and page-table entries: \<open>kernel/vaddr.h\<close>, \<open>kernel/pte.h\<close> and the constants
  of \<open>kernel/loader.h\<close> they use. The kernel maps physical memory linearly at 3 GB.
\<close>

section \<open>The functions\<close>

abbreviation (input) PAGE_BITS :: nat where "PAGE_BITS \<equiv> 12"
abbreviation (input) PAGE_SIZE :: u32 where "PAGE_SIZE \<equiv> 4096"
abbreviation (input) KERNEL_VADDR_BASE :: u32 where "KERNEL_VADDR_BASE \<equiv> 0xc0000000"

definition is_user_vaddr :: "u32 \<Rightarrow> bool" where
  "is_user_vaddr vaddr \<longleftrightarrow> vaddr < KERNEL_VADDR_BASE"

definition is_kernel_vaddr :: "u32 \<Rightarrow> bool" where
  "is_kernel_vaddr vaddr \<longleftrightarrow> KERNEL_VADDR_BASE \<le> vaddr"

definition ptov :: "u32 \<Rightarrow> u32" where
  "ptov paddr = paddr + KERNEL_VADDR_BASE"

definition vtop :: "u32 \<Rightarrow> u32" where
  "vtop vaddr = vaddr - KERNEL_VADDR_BASE"

definition pg_no :: "u32 \<Rightarrow> u32" where
  "pg_no vaddr = drop_bit PAGE_BITS vaddr"

abbreviation (input) PTE_MASK_PHY_ADDR :: u32 where "PTE_MASK_PHY_ADDR \<equiv> 0xfffff000"
abbreviation (input) PTE_MASK_FLAGS :: u32 where "PTE_MASK_FLAGS \<equiv> NOT PTE_MASK_PHY_ADDR"
abbreviation (input) PAGE_DIR_BIT_SHIFT :: nat where "PAGE_DIR_BIT_SHIFT \<equiv> 22"
abbreviation (input) PAGE_TABLE_IDX_MASK :: u32 where "PAGE_TABLE_IDX_MASK \<equiv> 0x3ff000"

abbreviation (input) PTE_P :: u32 where "PTE_P \<equiv> 0x1"
abbreviation (input) PTE_W :: u32 where "PTE_W \<equiv> 0x2"
abbreviation (input) PTE_U :: u32 where "PTE_U \<equiv> 0x4"
abbreviation (input) PTE_A :: u32 where "PTE_A \<equiv> 0x20"
abbreviation (input) PTE_D :: u32 where "PTE_D \<equiv> 0x40"

definition virt_to_pd_idx :: "u32 \<Rightarrow> u32" where
  "virt_to_pd_idx vaddr = drop_bit PAGE_DIR_BIT_SHIFT vaddr"

definition virt_to_pt_idx :: "u32 \<Rightarrow> u32" where
  "virt_to_pt_idx vaddr = drop_bit PAGE_BITS (vaddr AND PAGE_TABLE_IDX_MASK)"

definition mk_pde :: "u32 \<Rightarrow> u32 \<Rightarrow> u32" where
  "mk_pde paddr flags = (paddr AND PTE_MASK_PHY_ADDR) OR (flags AND PTE_MASK_FLAGS)"

definition mk_pte :: "u32 \<Rightarrow> u32 \<Rightarrow> u32" where
  "mk_pte paddr flags = mk_pde paddr flags"

section \<open>Their arithmetic reading\<close>

lemma unat_drop: "unat (drop_bit n (w :: u32)) = unat w div 2 ^ n"
  by (subst unat_drop_bit_eq) (rule drop_bit_eq_div)

lemma unat_take: "unat (take_bit n (w :: u32)) = unat w mod 2 ^ n"
  by (subst unsigned_take_bit_eq) (rule take_bit_eq_mod)

lemma unat_pg_no: "unat (pg_no v) = unat v div 4096"
  by (simp add: pg_no_def unat_drop)

lemma unat_pd_idx: "unat (virt_to_pd_idx v) = unat v div 4194304"
  by (simp add: virt_to_pd_idx_def unat_drop)

lemma mask_low12: "(0xfff :: u32) = mask 12"
  by (simp add: mask_eq_exp_minus_1)

lemma mask_high20: "(0xfffff000 :: u32) = NOT (mask 12)"
  by (simp add: mask_eq_exp_minus_1)

lemma mask_pt: "(0x3ff000 :: u32) = push_bit 12 (mask 10)"
  by (simp add: mask_eq_exp_minus_1 push_bit_eq_mult)

lemma pt_idx_eq: "virt_to_pt_idx v = take_bit 10 (drop_bit 12 v)"
  unfolding virt_to_pt_idx_def mask_pt
  by (rule bit_word_eqI) (auto simp: bit_simps ac_simps simp del: push_bit_mask_eq)

lemma unat_pt_idx: "unat (virt_to_pt_idx v) = unat v div 4096 mod 1024"
  by (simp only: pt_idx_eq unat_take unat_drop) simp

lemma ptov_vtop [simp]: "vtop (ptov p) = p" "ptov (vtop v) = v"
  by (simp_all add: ptov_def vtop_def)

lemma unat_ptov: "unat p < 1073741824 \<Longrightarrow> unat (ptov p) = unat p + 3221225472"
  by (simp add: ptov_def unat_plus_no_wrap)

lemma and_low12: "(w :: u32) AND mask 12 = take_bit 12 w"
  by (simp add: take_bit_eq_mask)

lemma page_aligned_iff: "take_bit 12 p = (0 :: u32) \<longleftrightarrow> unat p mod 4096 = 0"
  using unat_take [of 12 p] by (simp add: unat_eq_0 [symmetric])

text \<open>An entry for an aligned frame keeps the frame and the flags apart.\<close>

lemma mk_pde_parts:
  assumes "unat p mod 4096 = 0"
  shows "mk_pde p fl AND NOT (mask 12) = p" "mk_pde p fl AND mask 12 = fl AND mask 12"
proof -
  have "\<not> bit (take_bit 12 p) n" for n using assms by (simp only: page_aligned_iff [symmetric] bit_0_eq) simp
  then have p: "bit p n \<Longrightarrow> 12 \<le> n" for n by (metis bit_take_bit_iff not_less)
  show "mk_pde p fl AND NOT (mask 12) = p"
    unfolding mk_pde_def mask_high20 by (rule bit_word_eqI) (auto simp: bit_simps dest: p)
  show "mk_pde p fl AND mask 12 = fl AND mask 12"
    unfolding mk_pde_def mask_high20 by (rule bit_word_eqI) (auto simp: bit_simps dest: p)
qed

end
