(* ===== verification/Spinlock.thy ===== *)
theory Spinlock
  imports Prelude
begin

text \<open>
  The spin locks of \<open>kernel/sync.c\<close>: a signed byte, 1 when free. Two views of them:

  \<^item> sequential, for the rest of the kernel: on the one CPU the kernel runs on, nothing
    changes the lock while \<open>spin_lock\<close> polls it, so the call returns exactly when the
    lock is not 0; a call on a held lock is the value \<open>Inl Spin\<close>;
  \<^item> interleaved, for the locks themselves: any number of threads each at a point of the
    assembler loop, one atomic instruction per step. This is where mutual exclusion is
    shown, and the number of waiting threads \<open>spin_lock_alt\<close> tolerates.
\<close>

section \<open>The operations on the one CPU\<close>

text \<open>\<open>movb $0, %dl; xchgb %dl, lock; cmpb $0, %dl; je 1b\<close>\<close>

partial_function (option) spin_lock_loop :: "i8 \<Rightarrow> i8 option" where
  "spin_lock_loop lock =
     (let dl = 0; (dl, lock) = (lock, dl) in if dl = 0 then spin_lock_loop lock else Some lock)"

definition spin_lock :: "i8 \<Rightarrow> i8 result" where
  "spin_lock lock = (case spin_lock_loop lock of None \<Rightarrow> Inl Spin | Some l \<Rightarrow> Inr l)"

definition spin_unlock :: "i8 \<Rightarrow> i8" where
  "spin_unlock lock = 1"

definition spin_lock_init :: "i8 \<Rightarrow> i8" where
  "spin_lock_init lock = spin_unlock lock"

lemma spin_lock_loop_0: "spin_lock_loop 0 = None"
proof -
  have "spin_lock_loop l = Some r \<Longrightarrow> l \<noteq> 0" for l r
    by (erule spin_lock_loop.raw_induct [rotated, where P = "\<lambda>l r. l \<noteq> 0"])
      (auto split: if_splits)
  then show ?thesis by (cases "spin_lock_loop 0") auto
qed

lemma spin_lock_held [simp]: "spin_lock 0 = Inl Spin"
  by (simp add: spin_lock_def spin_lock_loop_0)

lemma spin_lock_free: "l \<noteq> 0 \<Longrightarrow> spin_lock l = Inr 0"
  by (simp add: spin_lock_def spin_lock_loop.simps)

lemma spin_lock_1 [simp]: "spin_lock 1 = Inr 0"
  by (simp add: spin_lock_free)

lemma spin_lock_result: "spin_lock l = (if l = 0 then Inl Spin else Inr 0)"
  by (simp add: spin_lock_free)

lemma spin_unlock_1 [simp]: "spin_unlock l = 1" "spin_lock_init l = 1"
  by (simp_all add: spin_unlock_def spin_lock_init_def)

section \<open>The interleaved locks\<close>

text \<open>
  Points of a thread: outside; \<open>Try\<close> at label 1, before the locked instruction; \<open>Poll\<close>
  at label 2 of \<open>spin_lock_alt\<close>; \<open>Holding\<close> after label 3.
\<close>

datatype lock_pc = Outside | Try | Poll | Holding

record lock_state =
  lock_byte :: i8
  at :: "nat \<Rightarrow> lock_pc"

definition lock_start :: lock_state where
  "lock_start = \<lparr>lock_byte = 1, at = (\<lambda>_. Outside)\<rparr>"

text \<open>\<open>spin_lock\<close>: the exchange stores 0 and looks at what was there.\<close>

inductive xchg_step :: "lock_state \<Rightarrow> lock_state \<Rightarrow> bool" where
  call: "at s i = Outside \<Longrightarrow> xchg_step s (s\<lparr>at := (at s)(i := Try)\<rparr>)"
| again: "at s i = Try \<Longrightarrow> lock_byte s = 0 \<Longrightarrow> xchg_step s (s\<lparr>lock_byte := 0\<rparr>)"
| got: "at s i = Try \<Longrightarrow> lock_byte s \<noteq> 0 \<Longrightarrow>
    xchg_step s (s\<lparr>lock_byte := 0, at := (at s)(i := Holding)\<rparr>)"
| unlock: "at s i = Holding \<Longrightarrow>
    xchg_step s (s\<lparr>lock_byte := spin_unlock (lock_byte s), at := (at s)(i := Outside)\<rparr>)"

text \<open>
  \<open>spin_lock_alt\<close>: \<open>lock; decb\<close> and \<open>jns 3f\<close>; a thread that did not get the lock polls
  until the byte is positive and then decrements again.
\<close>

inductive decb_step :: "lock_state \<Rightarrow> lock_state \<Rightarrow> bool" where
  call: "at s i = Outside \<Longrightarrow> decb_step s (s\<lparr>at := (at s)(i := Try)\<rparr>)"
| got: "at s i = Try \<Longrightarrow> 0 \<le> sint (lock_byte s - 1) \<Longrightarrow>
    decb_step s (s\<lparr>lock_byte := lock_byte s - 1, at := (at s)(i := Holding)\<rparr>)"
| missed: "at s i = Try \<Longrightarrow> sint (lock_byte s - 1) < 0 \<Longrightarrow>
    decb_step s (s\<lparr>lock_byte := lock_byte s - 1, at := (at s)(i := Poll)\<rparr>)"
| poll: "at s i = Poll \<Longrightarrow> sint (lock_byte s) \<le> 0 \<Longrightarrow> decb_step s s"
| retry: "at s i = Poll \<Longrightarrow> 0 < sint (lock_byte s) \<Longrightarrow> decb_step s (s\<lparr>at := (at s)(i := Try)\<rparr>)"
| unlock: "at s i = Holding \<Longrightarrow>
    decb_step s (s\<lparr>lock_byte := spin_unlock (lock_byte s), at := (at s)(i := Outside)\<rparr>)"

text \<open>The states a set of threads numbered below \<open>n\<close> can reach.\<close>

inductive reaches :: "(lock_state \<Rightarrow> lock_state \<Rightarrow> bool) \<Rightarrow> nat \<Rightarrow> lock_state \<Rightarrow> bool"
  for step :: "lock_state \<Rightarrow> lock_state \<Rightarrow> bool" and n :: nat where
  start: "reaches step n lock_start"
| move: "reaches step n s \<Longrightarrow> step s t \<Longrightarrow> \<forall>i\<ge>n. at t i = Outside \<Longrightarrow> reaches step n t"

inductive_cases xchg_stepE: "xchg_step s t"
inductive_cases decb_stepE: "decb_step s t"

lemma reaches_outside: "reaches step n s \<Longrightarrow> \<forall>i\<ge>n. at s i = Outside"
  by (induction rule: reaches.induct) (auto simp: lock_start_def)

subsection \<open>Mutual exclusion of \<open>spin_lock\<close>\<close>

definition xchg_inv :: "lock_state \<Rightarrow> bool" where
  "xchg_inv s \<longleftrightarrow> (if lock_byte s = 0 then \<exists>i. \<forall>j. at s j = Holding \<longleftrightarrow> j = i
                  else \<forall>j. at s j \<noteq> Holding)"

lemma xchg_step_inv: "xchg_step s t \<Longrightarrow> xchg_inv s \<Longrightarrow> xchg_inv t"
  by (induction rule: xchg_step.induct) (force simp: xchg_inv_def split: if_splits)+

lemma xchg_reaches_inv: "reaches xchg_step n s \<Longrightarrow> xchg_inv s"
proof (induction rule: reaches.induct)
  case start
  show ?case by (simp add: xchg_inv_def lock_start_def)
qed (rule xchg_step_inv)

subsection \<open>Mutual exclusion of \<open>spin_lock_alt\<close>\<close>

text \<open>
  While the lock is held every decrement parks its thread at \<open>Poll\<close>, so the byte is at
  least minus the number of threads there. With at most 129 threads (one holder, 128
  others) it stays at or above \<open>-128\<close>, the least value of the byte.
\<close>

definition polling :: "nat \<Rightarrow> lock_state \<Rightarrow> nat" where
  "polling n s = card {i. i < n \<and> at s i = Poll}"

definition decb_inv :: "nat \<Rightarrow> lock_state \<Rightarrow> bool" where
  "decb_inv n s \<longleftrightarrow> (\<forall>i\<ge>n. at s i = Outside) \<and>
     (if lock_byte s = 1 then \<forall>j. at s j \<noteq> Holding
      else (\<exists>i. \<forall>j. at s j = Holding \<longleftrightarrow> j = i) \<and>
        - int (polling n s) \<le> sint (lock_byte s) \<and> sint (lock_byte s) \<le> 0)"

lemma sint8_dec:
  assumes "- 128 < sint (l :: i8)"
  shows "sint (l - 1) = sint l - 1"
proof -
  have "- 128 \<le> sint l - 1" "sint l - 1 < 128"
    using assms sint_lt [of l] by simp_all
  then show ?thesis
    by (simp add: sint_word_ariths signed_take_bit_int_eq_self)
qed

lemma polling_less:
  assumes "\<forall>i\<ge>n. at s i = Outside" "at s h = Holding" "at s i = Try"
  shows "Suc (Suc (polling n s)) \<le> n"
proof -
  let ?P = "{k. k < n \<and> at s k = Poll}"
  have "h < n" "i < n" using assms by (metis lock_pc.distinct not_le)+
  then have "card (insert h (insert i ?P)) \<le> card {..<n}" by (intro card_mono) auto
  moreover have "h \<notin> insert i ?P" "i \<notin> ?P" using assms(2,3) by auto
  ultimately show ?thesis by (simp add: polling_def)
qed

lemma polling_upd:
  assumes "i < n" "at s i \<noteq> Poll"
  shows "polling n (s\<lparr>lock_byte := l, at := (at s)(i := Poll)\<rparr>) = Suc (polling n s)"
proof -
  have eq: "{k. k < n \<and> at (s\<lparr>lock_byte := l, at := (at s)(i := Poll)\<rparr>) k = Poll} =
      insert i {k. k < n \<and> at s k = Poll}"
    using assms(1) by auto
  show ?thesis unfolding polling_def eq using assms(2) by simp
qed

lemma polling_same:
  assumes "at s i \<noteq> Poll" "p \<noteq> Poll"
  shows "polling n (s\<lparr>at := (at s)(i := p)\<rparr>) = polling n s"
    and "polling n (s\<lparr>lock_byte := l, at := (at s)(i := p)\<rparr>) = polling n s"
proof -
  have "{k. k < n \<and> (if k = i then p else at s k) = Poll} = {k. k < n \<and> at s k = Poll}"
    using assms by auto
  then show "polling n (s\<lparr>at := (at s)(i := p)\<rparr>) = polling n s"
    and "polling n (s\<lparr>lock_byte := l, at := (at s)(i := p)\<rparr>) = polling n s"
    by (simp_all add: polling_def)
qed

text \<open>A thread about to decrement a held lock finds it above \<open>-128\<close>.\<close>

lemma decb_held:
  assumes "decb_inv n s" "n \<le> 129" "lock_byte s \<noteq> 1" "at s i = Try"
  shows "sint (lock_byte s - 1) = sint (lock_byte s) - 1" "sint (lock_byte s) \<le> 0"
proof -
  obtain h where h: "at s h = Holding" using assms(1,3) by (auto simp: decb_inv_def)
  have "Suc (Suc (polling n s)) \<le> n"
    using assms(1) h assms(4) by (intro polling_less) (auto simp: decb_inv_def)
  moreover have "- int (polling n s) \<le> sint (lock_byte s)"
    using assms(1,3) by (simp add: decb_inv_def)
  ultimately have "- 128 < sint (lock_byte s)" using assms(2) by linarith
  then show "sint (lock_byte s - 1) = sint (lock_byte s) - 1" by (rule sint8_dec)
  show "sint (lock_byte s) \<le> 0" using assms(1,3) by (simp add: decb_inv_def)
qed

lemma decb_step_inv:
  assumes step: "decb_step s t" and inv: "decb_inv n s" and n: "n \<le> 129"
    and out: "\<forall>i\<ge>n. at t i = Outside"
  shows "decb_inv n t"
  using step
proof cases
  case (call i)
  then have "at t j = Holding \<longleftrightarrow> at s j = Holding" for j by auto
  moreover have "polling n t = polling n s" "lock_byte t = lock_byte s"
    using call by (simp_all add: polling_same)
  ultimately show ?thesis using inv out by (simp add: decb_inv_def)
next
  case (got i)
  have l: "lock_byte s = 1" using decb_held [OF inv n _ got(2)] got(3) by fastforce
  with got inv out show ?thesis by (auto simp: decb_inv_def)
next
  case (missed i)
  have l: "lock_byte s \<noteq> 1" using missed(3) by auto
  have "i < n" using inv missed(2) by (metis decb_inv_def lock_pc.distinct(1) not_le)
  then have p: "polling n t = Suc (polling n s)"
    unfolding missed(1) using missed(2) by (intro polling_upd) simp_all
  have "at t j = Holding \<longleftrightarrow> at s j = Holding" for j using missed(1,2) by auto
  moreover have "lock_byte t \<noteq> 1" "lock_byte t = lock_byte s - 1" using missed(1,3) by auto
  ultimately show ?thesis
    using inv l p out decb_held [OF inv n l missed(2)] by (simp add: decb_inv_def)
next
  case (poll i)
  then show ?thesis using inv by simp
next
  case (retry i)
  then have "lock_byte s = 1" using inv by (auto simp: decb_inv_def split: if_splits)
  with retry inv out show ?thesis by (auto simp: decb_inv_def)
next
  case (unlock i)
  have "at s j \<noteq> Holding \<or> j = i" for j
    using inv unlock(2) by (auto simp: decb_inv_def split: if_splits)
  then have "at t j \<noteq> Holding" for j using unlock(1) by auto
  moreover have "lock_byte t = 1" using unlock(1) by simp
  ultimately show ?thesis using out by (simp add: decb_inv_def)
qed

lemma decb_reaches_inv: "reaches decb_step n s \<Longrightarrow> n \<le> 129 \<Longrightarrow> decb_inv n s"
proof (induction rule: reaches.induct)
  case start
  show ?case by (simp add: decb_inv_def lock_start_def)
qed (blast intro: decb_step_inv)

text \<open>
  The bound is sharp. With 130 threads, one holding and 129 decrementing, the byte goes
  from \<open>-128\<close> to \<open>127\<close>, \<open>jns\<close> sees a non-negative result, and a second thread enters.
\<close>

definition calls :: "nat \<Rightarrow> lock_state" where
  "calls k = \<lparr>lock_byte = 1, at = (\<lambda>i. if i < k then Try else Outside)\<rparr>"

definition misses :: "nat \<Rightarrow> lock_state" where
  "misses k = \<lparr>lock_byte = - of_nat k,
     at = (\<lambda>i. if i = 0 then Holding else if i \<le> k then Poll else if i < 130 then Try else Outside)\<rparr>"

lemma decb130_move: "reaches decb_step 130 s \<Longrightarrow> decb_step s t \<Longrightarrow> \<forall>i\<ge>130. at t i = Outside \<Longrightarrow>
    reaches decb_step 130 t"
  by (rule reaches.move)

lemma calls_reach: "k \<le> 130 \<Longrightarrow> reaches decb_step 130 (calls k)"
proof (induction k)
  case 0
  have "calls 0 = lock_start" by (simp add: calls_def lock_start_def)
  then show ?case by (simp add: reaches.start)
next
  case (Suc k)
  have "calls (Suc k) = (calls k)\<lparr>at := (at (calls k))(k := Try)\<rparr>"
    by (auto simp: calls_def less_Suc_eq fun_eq_iff)
  moreover have "decb_step (calls k) \<dots>"
    by (rule decb_step.call) (simp add: calls_def)
  ultimately have step: "decb_step (calls k) (calls (Suc k))" by simp
  have "reaches decb_step 130 (calls k)" using Suc by simp
  then show ?case by (rule decb130_move [OF _ step]) (use Suc.prems in \<open>simp add: calls_def\<close>)
qed

lemma sint8_neg: "k \<le> 128 \<Longrightarrow> sint (- of_nat k :: i8) = - int k"
proof (induction k)
  case (Suc k)
  then have "sint (- of_nat k - 1 :: i8) = - int k - 1" by (subst sint8_dec) auto
  moreover have "- of_nat (Suc k) = (- of_nat k - 1 :: i8)" by simp
  ultimately show ?case by (simp only:)
qed simp

lemma misses_reach: "k \<le> 128 \<Longrightarrow> reaches decb_step 130 (misses k)"
proof (induction k)
  case 0
  have "misses 0 = (calls 130)\<lparr>lock_byte := lock_byte (calls 130) - 1, at := (at (calls 130))(0 := Holding)\<rparr>"
    by (auto simp: misses_def calls_def fun_eq_iff)
  moreover have "decb_step (calls 130) \<dots>"
    by (rule decb_step.got) (simp_all add: calls_def)
  ultimately have step: "decb_step (calls 130) (misses 0)" by simp
  show ?case by (rule decb130_move [OF calls_reach step]) (simp_all add: misses_def)
next
  case (Suc k)
  have "misses (Suc k) =
      (misses k)\<lparr>lock_byte := lock_byte (misses k) - 1, at := (at (misses k))(Suc k := Poll)\<rparr>"
    by (auto simp: misses_def fun_eq_iff)
  moreover have "decb_step (misses k) \<dots>"
  proof (rule decb_step.missed)
    show "at (misses k) (Suc k) = Try" using Suc.prems by (simp add: misses_def)
    have "lock_byte (misses k) - 1 = - of_nat (Suc k)" by (simp add: misses_def)
    then show "sint (lock_byte (misses k) - 1) < 0" using Suc.prems by (simp only: sint8_neg)
  qed
  ultimately have step: "decb_step (misses k) (misses (Suc k))" by simp
  have "reaches decb_step 130 (misses k)" using Suc by simp
  then show ?case by (rule decb130_move [OF _ step]) (use Suc.prems in \<open>simp add: misses_def\<close>)
qed

section \<open>Properties\<close>

text \<open>
  C29: Mutual exclusion of \<open>spin_lock\<close>: in every interleaving of the atomic steps of any number
  of threads, at most one thread is past the exchange and has not unlocked.
\<close>

theorem spin_lock_mutual_exclusion:
  assumes "reaches xchg_step n s" "at s i = Holding" "at s j = Holding"
  shows "i = j"
  using xchg_reaches_inv [OF assms(1)] assms(2,3) by (auto simp: xchg_inv_def split: if_splits)

text \<open>One thread that calls and gets the lock.\<close>

definition one_holder :: lock_state where
  "one_holder = \<lparr>lock_byte = 0, at = (\<lambda>_. Outside)(0 := Holding)\<rparr>"

lemma one_holder_reached: "reaches xchg_step 1 one_holder" "reaches decb_step 1 one_holder"
proof -
  let ?c = "lock_start\<lparr>at := (at lock_start)(0 := Try)\<rparr>"
  have "xchg_step lock_start ?c" by (rule xchg_step.call) (simp add: lock_start_def)
  then have x: "reaches xchg_step 1 ?c" by (rule reaches.move [OF reaches.start]) (simp add: lock_start_def)
  have "decb_step lock_start ?c" by (rule decb_step.call) (simp add: lock_start_def)
  then have d: "reaches decb_step 1 ?c" by (rule reaches.move [OF reaches.start]) (simp add: lock_start_def)
  have eq: "?c\<lparr>lock_byte := 0, at := (at ?c)(0 := Holding)\<rparr> = one_holder"
    "?c\<lparr>lock_byte := lock_byte ?c - 1, at := (at ?c)(0 := Holding)\<rparr> = one_holder"
    by (simp_all add: lock_start_def one_holder_def)
  have "xchg_step ?c one_holder"
    using xchg_step.got [of ?c 0] unfolding eq by (simp add: lock_start_def)
  then show "reaches xchg_step 1 one_holder"
    by (rule reaches.move [OF x]) (simp add: one_holder_def)
  have "decb_step ?c one_holder"
    using decb_step.got [of ?c 0] unfolding eq by (simp add: lock_start_def)
  then show "reaches decb_step 1 one_holder"
    by (rule reaches.move [OF d]) (simp add: one_holder_def)
qed

theorem spin_lock_mutual_exclusion_witness: "\<forall>i. at one_holder i = Holding \<longleftrightarrow> i = 0"
proof (intro allI iffI)
  show "i = 0" if "at one_holder i = Holding" for i
    by (rule spin_lock_mutual_exclusion [OF one_holder_reached(1) that]) (simp add: one_holder_def)
qed (simp add: one_holder_def)

text \<open>
  Mutual exclusion of \<open>spin_lock_alt\<close>, with up to 129 threads: while one holds the lock the
  others drive the signed byte down, at most to \<open>-128\<close>.
\<close>

theorem spin_lock_alt_mutual_exclusion:
  assumes "reaches decb_step n s" "n \<le> 129" "at s i = Holding" "at s j = Holding"
  shows "i = j"
  using decb_reaches_inv [OF assms(1,2)] assms(3,4) by (auto simp: decb_inv_def split: if_splits)

theorem spin_lock_alt_mutual_exclusion_witness: "\<forall>i. i = 0 \<longleftrightarrow> at one_holder i = Holding"
proof (intro allI iffI)
  show "i = 0" if "at one_holder i = Holding" for i
    by (rule spin_lock_alt_mutual_exclusion [OF one_holder_reached(2) _ that]) (simp_all add: one_holder_def)
qed (simp add: one_holder_def)

text \<open>
  The bound is sharp: with 130 threads the byte wraps from \<open>-128\<close> to \<open>127\<close>, the sign flag
  is clear, and a second thread enters while the first holds the lock.
\<close>

theorem spin_lock_alt_overflow:
  "\<exists>s. reaches decb_step 130 s \<and> at s 0 = Holding \<and> at s 129 = Holding"
proof -
  let ?t = "(misses 128)\<lparr>lock_byte := lock_byte (misses 128) - 1, at := (at (misses 128))(129 := Holding)\<rparr>"
  have "decb_step (misses 128) ?t"
    by (rule decb_step.got) (simp_all add: misses_def)
  then have "reaches decb_step 130 ?t"
    by (rule decb130_move [OF misses_reach, rotated]) (simp_all add: misses_def)
  then show ?thesis by (intro exI [of _ ?t]) (simp add: misses_def)
qed

end
