(* ===== verification/Mm.thy ===== *)
theory Mm
  imports Bitmap Memory Vaddr Spinlock
begin

text \<open>
  The page allocator of \<open>kernel/mm.c\<close>: one pool of 4 kB pages behind a bitmap, one bit
  per page, 1 when allocated. The bitmap and the byte memory the pages lie in are the
  components \<open>Bitmap\<close> and \<open>Memory\<close>; \<open>klog\<close> records the calls of \<open>printk\<close> with their
  format and arguments, in order.

  The locale \<open>page_allocator\<close> is the contract the task and page-table code relies on. In
  it, a client that only frees what it was given is shown to hold pairwise disjoint
  blocks at all times, whatever the order of its calls.
\<close>

section \<open>The operations\<close>

abbreviation (input) KERNEL_MEM_POOL_PHY_START :: u32 where
  "KERNEL_MEM_POOL_PHY_START \<equiv> 0x100000"

abbreviation (input) PF_ATOMIC :: u32 where "PF_ATOMIC \<equiv> 1"
abbreviation (input) PF_ZERO :: u32 where "PF_ZERO \<equiv> 2"

record mem_pool =
  slock :: i8
  bm :: bitmap
  base :: u32

record mm =
  kernel_pool :: mem_pool
  mem :: memory
  klog :: "(string \<times> u32 list) list"

definition printk_mm :: "string \<Rightarrow> u32 list \<Rightarrow> mm \<Rightarrow> mm" where
  "printk_mm fmt args s = s\<lparr>klog := klog s @ [(fmt, args)]\<rparr>"

text \<open>\<open>buf\<close> is what the memory at \<open>start_addr\<close> holds, read as a bitmap.\<close>

definition mem_pool_init :: "mem_pool \<Rightarrow> bitmap \<Rightarrow> u32 \<Rightarrow> u32 \<Rightarrow> bool \<times> mem_pool" where
  "mem_pool_init pool buf start_addr page_cnt =
     (let bm_pages = DIV_ROUND_UP (bitmap_required_buf_size page_cnt + sizeof_bitmap) PAGE_SIZE;
          page_cnt = page_cnt - bm_pages;
          pool = pool\<lparr>slock := spin_lock_init (slock pool)\<rparr>
      in case bitmap_create_in_buf page_cnt buf (bm_pages * PAGE_SIZE) of
           None \<Rightarrow> (False, pool)
         | Some b \<Rightarrow> (True, pool\<lparr>bm := bitmap_config_all b False,
                                base := start_addr + bm_pages * PAGE_SIZE\<rparr>))"

definition mm_init :: "bitmap \<Rightarrow> u32 \<Rightarrow> mm \<Rightarrow> mm result" where
  "mm_init buf page_num s =
     (let page_num = page_num - pg_no KERNEL_MEM_POOL_PHY_START;
          s = printk_mm ''Initial free memory pages %d.\<newline>'' [page_num] s;
          (ok, pool) = mem_pool_init (kernel_pool s) buf (ptov KERNEL_MEM_POOL_PHY_START) page_num;
          s = s\<lparr>kernel_pool := pool\<rparr>
      in if \<not> ok then Inl Spin
         else Inr (printk_mm ''Current free kernel pages %d, kernel memory pool base %08p\<newline>''
                [bitmap_get_bits_count (bm pool), base pool] s))"

definition pool_lock :: "mm \<Rightarrow> mm result" where
  "pool_lock s = bindE (spin_lock (slock (kernel_pool s)))
     (\<lambda>l. Inr (s\<lparr>kernel_pool := (kernel_pool s)\<lparr>slock := l\<rparr>\<rparr>))"

definition pool_unlock :: "mm \<Rightarrow> mm" where
  "pool_unlock s =
     s\<lparr>kernel_pool := (kernel_pool s)\<lparr>slock := spin_unlock (slock (kernel_pool s))\<rparr>\<rparr>"

definition mm_kget_pages :: "u32 \<Rightarrow> u32 \<Rightarrow> mm \<Rightarrow> (u32 \<times> mm) result" where
  "mm_kget_pages pf_flag page_count s =
     (if page_count = 0 then Inr (NULL, s)
      else bindE (pool_lock s) (\<lambda>s.
        let page_idx = bitmap_find_first_bits_group (bm (kernel_pool s)) 0 page_count False
        in if page_idx = BITMAP_ERR then
             (let s = (if pf_flag AND PF_ATOMIC \<noteq> 0
                       then printk_mm ''Kernel pool error: out of memory.\<newline>'' [] s else s)
              in Inr (NULL, pool_unlock s))
           else
             (let s = s\<lparr>kernel_pool := (kernel_pool s)
                        \<lparr>bm := bitmap_set_multi_bits (bm (kernel_pool s)) page_idx page_count\<rparr>\<rparr>;
                  s = pool_unlock s;
                  pages = base (kernel_pool s) + page_idx * PAGE_SIZE;
                  s = (if pf_flag AND PF_ZERO \<noteq> 0
                       then s\<lparr>mem := snd (memset pages 0 (page_count * PAGE_SIZE) (mem s))\<rparr> else s)
              in Inr (pages, s))))"

definition mm_kget_page :: "u32 \<Rightarrow> mm \<Rightarrow> (u32 \<times> mm) result" where
  "mm_kget_page pf_flag s = mm_kget_pages pf_flag 1 s"

definition mm_kfree_pages :: "u32 \<Rightarrow> u32 \<Rightarrow> mm \<Rightarrow> mm result" where
  "mm_kfree_pages pages page_count s =
     (let pool = kernel_pool s;
          kernel_pool_end = base pool + bitmap_get_bits_count (bm pool) * PAGE_SIZE;
          pages = ROUND_DOWN pages PAGE_SIZE
      in if pages < base pool \<or> kernel_pool_end \<le> pages then Inr s
         else
           (let page_no_start = pg_no pages - pg_no (base pool)
            in if bitmap_get_bits_count (bm pool) < page_no_start + page_count then Inr s
               else bindE (pool_lock s) (\<lambda>s.
                 let s = s\<lparr>kernel_pool := (kernel_pool s)
                       \<lparr>bm := bitmap_reset_multi_bits (bm (kernel_pool s)) page_no_start page_count\<rparr>\<rparr>
                 in Inr (pool_unlock s))))"

definition mm_kfree_page :: "u32 \<Rightarrow> mm \<Rightarrow> mm result" where
  "mm_kfree_page pages s = mm_kfree_pages pages 1 s"

section \<open>The state of the pool\<close>

text \<open>Between calls the lock is free, and the pool lies page-aligned inside the address space.\<close>

definition pool_inv :: "mm \<Rightarrow> bool" where
  "pool_inv s \<longleftrightarrow> slock (kernel_pool s) = 1 \<and> unat (base (kernel_pool s)) mod 4096 = 0 \<and>
     0 < unat (base (kernel_pool s)) \<and>
     unat (base (kernel_pool s)) + unat (bit_count (bm (kernel_pool s))) * 4096 < 4294967296"

definition pool_base_page :: "mm \<Rightarrow> nat" where
  "pool_base_page s = unat (base (kernel_pool s)) div 4096"

definition pool_pages :: "mm \<Rightarrow> nat" where
  "pool_pages s = unat (bit_count (bm (kernel_pool s)))"

text \<open>The allocated pages, by page number (\<open>pg_no\<close> of their addresses).\<close>

definition taken :: "mm \<Rightarrow> nat set" where
  "taken s = {pool_base_page s + k | k. k < pool_pages s \<and> bit_at (bm (kernel_pool s)) k}"

definition pages_at :: "u32 \<Rightarrow> u32 \<Rightarrow> nat set" where
  "pages_at p c = {unat p div 4096 ..< unat p div 4096 + unat c}"

lemma taken_iff:
  "pool_base_page s + k \<in> taken s \<longleftrightarrow> k < pool_pages s \<and> bit_at (bm (kernel_pool s)) k"
  by (simp add: taken_def)

lemma pool_page_lt: "pool_inv s \<Longrightarrow> pool_base_page s + pool_pages s < 1048576"
  by (auto simp: pool_inv_def pool_base_page_def pool_pages_def)

section \<open>What a call does\<close>

text \<open>The lock is taken and released within the call, so only the bitmap and the memory change.\<close>

definition claim :: "u32 \<Rightarrow> u32 \<Rightarrow> u32 \<Rightarrow> mm \<Rightarrow> mm" where
  "claim pf r c s =
     (let s = s\<lparr>kernel_pool := (kernel_pool s)\<lparr>bm := bitmap_set_multi_bits (bm (kernel_pool s)) r c\<rparr>\<rparr>
      in if pf AND PF_ZERO \<noteq> 0
         then s\<lparr>mem := snd (memset (base (kernel_pool s) + r * PAGE_SIZE) 0 (c * PAGE_SIZE) (mem s))\<rparr>
         else s)"

definition unclaim :: "u32 \<Rightarrow> u32 \<Rightarrow> mm \<Rightarrow> mm" where
  "unclaim r c s = s\<lparr>kernel_pool := (kernel_pool s)\<lparr>bm := bitmap_reset_multi_bits (bm (kernel_pool s)) r c\<rparr>\<rparr>"

lemma pool_slock_upd: "slock (kernel_pool s) = l \<Longrightarrow> s\<lparr>kernel_pool := (kernel_pool s)\<lparr>slock := l\<rparr>\<rparr> = s"
  by (cases s; cases "kernel_pool s") simp

lemma pool_lock_eq:
  "pool_lock s = (if slock (kernel_pool s) = 0 then Inl Spin
                  else Inr (s\<lparr>kernel_pool := (kernel_pool s)\<lparr>slock := 0\<rparr>\<rparr>))"
  by (simp add: pool_lock_def spin_lock_result)

lemma kget_eq:
  assumes "slock (kernel_pool s) = 1"
  shows "mm_kget_pages pf c s =
    (if c = 0 then Inr (NULL, s)
     else let r = bitmap_find_first_bits_group (bm (kernel_pool s)) 0 c False
          in if r = BITMAP_ERR
             then Inr (NULL, if pf AND PF_ATOMIC \<noteq> 0
                             then printk_mm ''Kernel pool error: out of memory.\<newline>'' [] s else s)
             else Inr (base (kernel_pool s) + r * PAGE_SIZE, claim pf r c s))"
  using pool_slock_upd [OF assms] assms
  by (simp add: mm_kget_pages_def pool_lock_eq pool_unlock_def printk_mm_def claim_def Let_def)

lemma kfree_eq:
  assumes "slock (kernel_pool s) = 1"
  shows "mm_kfree_pages p c s =
    (let pool = kernel_pool s; p = ROUND_DOWN p PAGE_SIZE; r = pg_no p - pg_no (base pool)
     in if p < base pool \<or> base pool + bit_count (bm pool) * PAGE_SIZE \<le> p \<or>
           bit_count (bm pool) < r + c
        then Inr s else Inr (unclaim r c s))"
  using pool_slock_upd [OF assms] assms
  by (simp add: mm_kfree_pages_def pool_lock_eq pool_unlock_def unclaim_def Let_def
      bitmap_get_bits_count_def)

lemma claim_pool [simp]:
  "slock (kernel_pool (claim pf r c s)) = slock (kernel_pool s)"
  "base (kernel_pool (claim pf r c s)) = base (kernel_pool s)"
  "bm (kernel_pool (claim pf r c s)) = bitmap_set_multi_bits (bm (kernel_pool s)) r c"
  "klog (claim pf r c s) = klog s"
  by (simp_all add: claim_def Let_def)

lemma unclaim_pool [simp]:
  "slock (kernel_pool (unclaim r c s)) = slock (kernel_pool s)"
  "base (kernel_pool (unclaim r c s)) = base (kernel_pool s)"
  "bm (kernel_pool (unclaim r c s)) = bitmap_reset_multi_bits (bm (kernel_pool s)) r c"
  "mem (unclaim r c s) = mem s" "klog (unclaim r c s) = klog s"
  by (simp_all add: unclaim_def)

lemma pool_inv_claim: "pool_inv s \<Longrightarrow> pool_inv (claim pf r c s)"
  by (simp add: pool_inv_def set_multi_bits_spec)

lemma pool_inv_unclaim: "pool_inv s \<Longrightarrow> pool_inv (unclaim r c s)"
  by (simp add: pool_inv_def reset_multi_bits_spec)

lemma pool_inv_printk [simp]: "pool_inv (printk_mm f a s) = pool_inv s" "taken (printk_mm f a s) = taken s"
  "kernel_pool (printk_mm f a s) = kernel_pool s" "mem (printk_mm f a s) = mem s"
  by (simp_all add: pool_inv_def printk_mm_def taken_def pool_base_page_def pool_pages_def)

lemma pool_dims [simp]:
  "pool_base_page (claim pf r c s) = pool_base_page s" "pool_pages (claim pf r c s) = pool_pages s"
  "pool_base_page (unclaim r c s) = pool_base_page s" "pool_pages (unclaim r c s) = pool_pages s"
  by (simp_all add: pool_base_page_def pool_pages_def set_multi_bits_spec reset_multi_bits_spec)

text \<open>The address of the pool's page \<open>r\<close>.\<close>

lemma page_addr:
  assumes "pool_inv s" "unat r < pool_pages s"
  shows "unat (base (kernel_pool s) + r * PAGE_SIZE) = unat (base (kernel_pool s)) + unat r * 4096"
    and "unat (base (kernel_pool s) + r * PAGE_SIZE) div 4096 = pool_base_page s + unat r"
    and "unat (base (kernel_pool s) + r * PAGE_SIZE) mod 4096 = 0"
proof -
  have b: "unat (base (kernel_pool s)) mod 4096 = 0"
    "unat (base (kernel_pool s)) + pool_pages s * 4096 < 4294967296"
    using assms(1) by (simp_all add: pool_inv_def pool_pages_def)
  have r: "unat r * 4096 < 4294967296" "unat (base (kernel_pool s)) + unat r * 4096 < 4294967296"
    using b(2) assms(2) by linarith+
  then have "unat (r * PAGE_SIZE) = unat r * 4096" by (simp add: unat_word_ariths)
  then show eq: "unat (base (kernel_pool s) + r * PAGE_SIZE) =
      unat (base (kernel_pool s)) + unat r * 4096"
    using r(2) by (simp add: unat_plus_no_wrap)
  show "unat (base (kernel_pool s) + r * PAGE_SIZE) div 4096 = pool_base_page s + unat r"
    by (simp add: eq pool_base_page_def)
  show "unat (base (kernel_pool s) + r * PAGE_SIZE) mod 4096 = 0"
    using b(1) by (simp add: eq)
qed

lemma pool_index:
  assumes "unat r + unat c \<le> pool_pages s" "k < pool_pages s"
  shows "pool_base_page s + k \<in> {pool_base_page s + unat r ..< pool_base_page s + unat r + unat c}
    \<longleftrightarrow> unat r \<le> k \<and> k < unat r + unat c"
  by auto

lemma taken_claim:
  assumes "unat r + unat c \<le> pool_pages s"
  shows "taken (claim pf r c s) =
    taken s \<union> {pool_base_page s + unat r ..< pool_base_page s + unat r + unat c}"
proof -
  have "k < pool_pages s \<Longrightarrow> k < 4294967296" for k
    unfolding pool_pages_def by (erule less_trans) (rule u32_lt)
  then have "k < pool_pages s \<Longrightarrow> bit_at (bm (kernel_pool (claim pf r c s))) k \<longleftrightarrow>
      unat r \<le> k \<and> k < unat r + unat c \<or> bit_at (bm (kernel_pool s)) k" for k
    using assms by (auto simp: set_multi_bits_spec in_range_def pool_pages_def)
  then have "taken (claim pf r c s) = {pool_base_page s + k | k. k < pool_pages s \<and>
      (unat r \<le> k \<and> k < unat r + unat c \<or> bit_at (bm (kernel_pool s)) k)}"
    by (auto simp: taken_def)
  also have "\<dots> = taken s \<union> (\<lambda>k. pool_base_page s + k) ` {unat r ..< unat r + unat c}"
    using assms
    by (auto simp: taken_def simp del: image_add_atLeastLessThan image_add_atLeastLessThan')
  finally show ?thesis by (simp add: ac_simps)
qed

lemma taken_unclaim:
  assumes "unat r + unat c \<le> pool_pages s"
  shows "taken (unclaim r c s) =
    taken s - {pool_base_page s + unat r ..< pool_base_page s + unat r + unat c}"
proof -
  have "k < pool_pages s \<Longrightarrow> k < 4294967296" for k
    unfolding pool_pages_def by (erule less_trans) (rule u32_lt)
  then have "k < pool_pages s \<Longrightarrow> bit_at (bm (kernel_pool (unclaim r c s))) k \<longleftrightarrow>
      \<not> (unat r \<le> k \<and> k < unat r + unat c) \<and> bit_at (bm (kernel_pool s)) k" for k
    using assms by (auto simp: reset_multi_bits_spec in_range_def pool_pages_def)
  then have "taken (unclaim r c s) = {pool_base_page s + k | k. k < pool_pages s \<and>
      \<not> (unat r \<le> k \<and> k < unat r + unat c) \<and> bit_at (bm (kernel_pool s)) k}"
    by (auto simp: taken_def)
  also have "\<dots> = taken s - (\<lambda>k. pool_base_page s + k) ` {unat r ..< unat r + unat c}"
    by (auto simp: taken_def simp del: image_add_atLeastLessThan image_add_atLeastLessThan')
  finally show ?thesis by (simp add: ac_simps)
qed

section \<open>Allocation\<close>

lemma kget_returns:
  assumes "pool_inv s"
  obtains p t where "mm_kget_pages pf c s = Inr (p, t)"
proof (cases "mm_kget_pages pf c s")
  case (Inl e)
  moreover have "slock (kernel_pool s) = 1" using assms by (simp add: pool_inv_def)
  ultimately show ?thesis by (simp add: kget_eq Let_def split: if_splits)
next
  case (Inr r)
  with that show ?thesis by (cases r) auto
qed

text \<open>
  A non-null result is a page-aligned block of the pool all of whose pages were free; they
  are taken now and no other page changed hands. A null result changed nothing.
\<close>

lemma kget_block:
  assumes inv: "pool_inv s" and get: "mm_kget_pages pf c s = Inr (p, t)" and p: "p \<noteq> NULL"
  obtains r where "c \<noteq> 0" "t = claim pf r c s" "p = base (kernel_pool s) + r * PAGE_SIZE"
    "bitmap_find_first_bits_group (bm (kernel_pool s)) 0 c False = r"
    "unat r + unat c \<le> pool_pages s" "unat p div 4096 = pool_base_page s + unat r"
    "unat p mod 4096 = 0" "unat p + unat c * 4096 < 4294967296"
proof -
  define r where "r = bitmap_find_first_bits_group (bm (kernel_pool s)) 0 c False"
  have sl: "slock (kernel_pool s) = 1" using inv by (simp add: pool_inv_def)
  from get p have c: "c \<noteq> 0" and r: "r \<noteq> BITMAP_ERR"
    and t: "t = claim pf r c s" and pr: "p = base (kernel_pool s) + r * PAGE_SIZE"
    unfolding kget_eq [OF sl] r_def by (auto simp: Let_def split: if_splits)
  have rc: "unat r + unat c \<le> pool_pages s"
    using bmap.claim_found(1) [OF c r_def [symmetric] r] by (simp add: pool_pages_def)
  have "0 < unat c" using c by (simp add: unat_gt_0)
  then have "unat r < pool_pages s" using rc by linarith
  note addr = page_addr [OF inv this]
  have "unat (base (kernel_pool s)) + pool_pages s * 4096 < 4294967296"
    using inv by (simp add: pool_inv_def pool_pages_def)
  then have "unat p + unat c * 4096 < 4294967296"
    unfolding pr addr(1) using rc by linarith
  with c t pr r_def rc addr show ?thesis by (intro that) simp_all
qed

lemma page_not_null:
  assumes "pool_inv s" "unat r < pool_pages s"
  shows "base (kernel_pool s) + r * PAGE_SIZE \<noteq> NULL"
  using page_addr(1) [OF assms] assms(1) unat_0 by (fastforce simp: pool_inv_def)

lemma kget_null:
  assumes inv: "pool_inv s" and get: "mm_kget_pages pf c s = Inr (NULL, t)"
  shows "pool_inv t" "taken t = taken s" "kernel_pool t = kernel_pool s" "mem t = mem s"
    "c \<noteq> 0 \<Longrightarrow> bitmap_find_first_bits_group (bm (kernel_pool s)) 0 c False = BITMAP_ERR"
proof -
  define r where "r = bitmap_find_first_bits_group (bm (kernel_pool s)) 0 c False"
  have sl: "slock (kernel_pool s) = 1" using inv by (simp add: pool_inv_def)
  have "c = 0 \<or> r = BITMAP_ERR"
  proof (rule ccontr)
    assume nt: "\<not> (c = 0 \<or> r = BITMAP_ERR)"
    then have "unat r + unat c \<le> pool_pages s"
      using bmap.claim_found(1) [of c "bm (kernel_pool s)" r] by (simp add: pool_pages_def r_def)
    moreover have "0 < unat c" using nt by (simp add: unat_gt_0)
    ultimately have "unat r < pool_pages s" by linarith
    from page_not_null [OF inv this] nt get show False
      by (simp add: kget_eq [OF sl] Let_def r_def)
  qed
  with get have "t = s \<or> t = printk_mm ''Kernel pool error: out of memory.\<newline>'' [] s"
    by (auto simp: kget_eq [OF sl] Let_def r_def [symmetric] split: if_splits)
  with inv show "pool_inv t" "taken t = taken s" "kernel_pool t = kernel_pool s" "mem t = mem s"
    by auto
  show "c \<noteq> 0 \<Longrightarrow> bitmap_find_first_bits_group (bm (kernel_pool s)) 0 c False = BITMAP_ERR"
    using \<open>c = 0 \<or> r = BITMAP_ERR\<close> by (simp add: r_def)
qed

lemma kget_fresh:
  assumes inv: "pool_inv s" and get: "mm_kget_pages pf c s = Inr (p, t)" and p: "p \<noteq> NULL"
  shows "pool_inv t" "unat p mod 4096 = 0" "pages_at p c \<inter> taken s = {}"
    "taken t = taken s \<union> pages_at p c"
proof -
  obtain r where r: "c \<noteq> 0" "t = claim pf r c s"
    "bitmap_find_first_bits_group (bm (kernel_pool s)) 0 c False = r"
    "unat r + unat c \<le> pool_pages s" "unat p div 4096 = pool_base_page s + unat r"
    "unat p mod 4096 = 0"
    by (rule kget_block [OF inv get p])
  show "pool_inv t" using inv r(2) by (simp add: pool_inv_claim)
  show "unat p mod 4096 = 0" by (rule r(6))
  have at: "pages_at p c = {pool_base_page s + unat r ..< pool_base_page s + unat r + unat c}"
    by (simp add: pages_at_def r(5))
  show "taken t = taken s \<union> pages_at p c" unfolding at r(2) using r(4) by (rule taken_claim)
  have "unat c \<noteq> 0" using r(1) by (simp add: unat_eq_0)
  then have "unat r < 4294967295"
    using r(4) u32_lt [of "bit_count (bm (kernel_pool s))"] unfolding pool_pages_def by linarith
  then have "r \<noteq> BITMAP_ERR" by auto
  from bmap.claim_found(2) [OF r(1,3) this]
  show "pages_at p c \<inter> taken s = {}" unfolding at by (auto simp: taken_def)
qed

text \<open>With \<open>PF_ZERO\<close> exactly the bytes of the block are cleared; without it the memory is left alone.\<close>

lemma kget_mem:
  assumes inv: "pool_inv s" and get: "mm_kget_pages pf c s = Inr (p, t)" and p: "p \<noteq> NULL"
  shows "mem t a = (if pf AND PF_ZERO \<noteq> 0 \<and> unat p \<le> unat a \<and> unat a < unat p + unat c * 4096
                    then 0 else mem s a)"
proof -
  obtain r where r: "t = claim pf r c s" "p = base (kernel_pool s) + r * PAGE_SIZE"
    "unat p + unat c * 4096 < 4294967296"
    by (rule kget_block [OF inv get p])
  have "unat (c * PAGE_SIZE) = unat c * 4096"
    using r(3) by (simp add: unat_word_ariths)
  with r p show ?thesis
    by (auto simp: claim_def Let_def memset_fill fill_bytes_spec)
qed

section \<open>Release\<close>

lemma round_down_page: "unat (ROUND_DOWN p PAGE_SIZE) = unat p div 4096 * 4096"
proof -
  have "unat p div 4096 * 4096 < 4294967296"
    by (rule le_less_trans [of _ "unat p"]) simp_all
  then show ?thesis by (simp add: ROUND_DOWN_def unat_word_ariths unat_div)
qed

lemma taken_unclaim_outside:
  assumes "\<not> unat r + unat c \<le> pool_pages s"
  shows "taken (unclaim r c s) = taken s"
proof -
  have "k < pool_pages s \<Longrightarrow> k < 4294967296" for k
    unfolding pool_pages_def by (erule less_trans) (rule u32_lt)
  then have "k < pool_pages s \<Longrightarrow> bit_at (bm (kernel_pool (unclaim r c s))) k = bit_at (bm (kernel_pool s)) k" for k
    using assms by (auto simp: reset_multi_bits_spec in_range_def pool_pages_def)
  then show ?thesis by (auto simp: taken_def)
qed

text \<open>
  Releasing looks at the range only, not at whether the pages are taken. The end of the
  range is computed modulo \<open>2 ^ 32\<close>; where it wraps, the bitmap routine changes nothing.
\<close>

lemma kfree_block:
  assumes inv: "pool_inv s"
  obtains t where "mm_kfree_pages p c s = Inr t" "pool_inv t" "mem t = mem s" "klog t = klog s"
    "taken t = (if pool_base_page s \<le> unat p div 4096 \<and> unat p div 4096 < pool_base_page s + pool_pages s \<and>
        unat p div 4096 + unat c \<le> pool_base_page s + pool_pages s
      then taken s - pages_at p c else taken s)"
proof -
  define q where "q = unat p div 4096"
  define p' where "p' = ROUND_DOWN p PAGE_SIZE"
  define r where "r = pg_no p' - pg_no (base (kernel_pool s))"
  have sl: "slock (kernel_pool s) = 1" using inv by (simp add: pool_inv_def)
  have b: "unat (base (kernel_pool s)) = pool_base_page s * 4096"
    using inv by (auto simp: pool_inv_def pool_base_page_def)
  have n: "pool_base_page s * 4096 + pool_pages s * 4096 < 4294967296"
    using inv b by (simp add: pool_inv_def pool_pages_def)
  have up: "unat p' = q * 4096" by (simp add: p'_def q_def round_down_page)
  have un: "unat (bit_count (bm (kernel_pool s)) * PAGE_SIZE) = pool_pages s * 4096"
    using n by (simp add: unat_word_ariths pool_pages_def)
  have ue: "unat (base (kernel_pool s) + bit_count (bm (kernel_pool s)) * PAGE_SIZE) =
      pool_base_page s * 4096 + pool_pages s * 4096"
    using n un b by (simp add: unat_plus_no_wrap)
  have low: "p' < base (kernel_pool s) \<longleftrightarrow> q < pool_base_page s"
    by (simp add: word_less_nat_alt up b)
  have high: "base (kernel_pool s) + bit_count (bm (kernel_pool s)) * PAGE_SIZE \<le> p' \<longleftrightarrow>
      pool_base_page s + pool_pages s \<le> q"
    by (simp only: word_le_nat_alt ue up) linarith
  have ur: "unat r = q - pool_base_page s" if "pool_base_page s \<le> q"
    unfolding r_def using that by (subst unat_sub) (simp_all add: word_le_nat_alt unat_pg_no up b)
  have eq: "mm_kfree_pages p c s =
      (if q < pool_base_page s \<or> pool_base_page s + pool_pages s \<le> q \<or> bit_count (bm (kernel_pool s)) < r + c
       then Inr s else Inr (unclaim r c s))"
    unfolding kfree_eq [OF sl] Let_def p'_def [symmetric] r_def [symmetric] low high by (rule refl)
  show ?thesis
  proof (cases "pool_base_page s \<le> q \<and> q < pool_base_page s + pool_pages s \<and>
      q + unat c \<le> pool_base_page s + pool_pages s")
    case True
    then have le: "unat r + unat c \<le> pool_pages s" using ur by linarith
    moreover have "pool_pages s < 4294967296" unfolding pool_pages_def by (rule u32_lt)
    ultimately have "unat (r + c) = unat r + unat c" by (intro unat_plus_no_wrap) simp
    then have "\<not> bit_count (bm (kernel_pool s)) < r + c"
      using le by (simp add: word_less_nat_alt pool_pages_def)
    with True have "mm_kfree_pages p c s = Inr (unclaim r c s)" by (simp add: eq)
    moreover have "taken (unclaim r c s) = taken s - pages_at p c"
      using True ur by (subst taken_unclaim [OF le]) (simp add: pages_at_def q_def)
    ultimately show ?thesis using that True inv by (simp add: pool_inv_unclaim q_def)
  next
    case False
    then have "mm_kfree_pages p c s = Inr s \<or>
        mm_kfree_pages p c s = Inr (unclaim r c s) \<and> \<not> unat r + unat c \<le> pool_pages s"
      using ur by (auto simp: eq)
    then show ?thesis
      using that False inv by (auto simp: q_def pool_inv_unclaim taken_unclaim_outside)
  qed
qed

section \<open>Initialisation\<close>

text \<open>
  The pool gets the pages above the first megabyte; the bitmap takes the first of them,
  enough for its words, and the rest starts out free. The bounds say that there is at
  least one page above the first megabyte and that physical memory ends below 1 GB, the
  end of the kernel's linear map.
\<close>

definition bitmap_pages :: "nat \<Rightarrow> nat" where
  "bitmap_pages n = ((n + 7) div 8 + 4 + 4095) div 4096"

lemma bitmap_pages_le: "0 < n \<Longrightarrow> bitmap_pages n \<le> n"
proof -
  assume n: "0 < n"
  define x where "x = (n + 7) div 8"
  have "x \<le> n + 7" unfolding x_def by (rule div_le_dividend)
  then have "x + 4 + 4095 < Suc n * 4096" using n by simp
  then have "bitmap_pages n < Suc n"
    unfolding bitmap_pages_def x_def by (simp only: div_less_iff_less_mult zero_less_numeral)
  then show ?thesis by simp
qed

lemma bitmap_pages_ge: "(n + 7) div 8 + 4 \<le> bitmap_pages n * 4096"
proof -
  let ?x = "(n + 7) div 8 + 4"
  have "?x + 4095 < Suc (bitmap_pages n) * 4096"
    unfolding bitmap_pages_def using dividend_less_div_times [of 4096 "?x + 4095"]
    by simp
  then show ?thesis by simp
qed

text \<open>The words of a bitmap of \<open>m\<close> bits and its header end inside \<open>k\<close> pages.\<close>

lemma bitmap_words_fit:
  fixes m n k :: nat
  assumes "(n + 7) div 8 + 4 \<le> k * 4096" "m \<le> n"
  shows "4 + 4 * ((m + 31) div 32) \<le> k * 4096"
proof -
  define q j where "q = (n + 7) div 8" and "j = (m + 31) div 32"
  have "n + 7 < Suc q * 8" unfolding q_def using dividend_less_div_times [of 8 "n + 7"] by simp
  moreover have "j * 32 \<le> m + 31" unfolding j_def by (rule div_times_less_eq_dividend)
  ultimately have "j * 4 < q + 4" using assms(2) by simp
  then have "j * 4 < k * 4096" using assms(1) unfolding q_def by linarith
  then have "j < k * 1024" by simp
  then show ?thesis unfolding j_def by simp
qed

lemma unat_required:
  assumes "unat c < 4294967289"
  shows "unat (bitmap_required_buf_size c) = (unat c + 7) div 8"
proof -
  have "c + 8 - 1 = c + 7" by simp
  moreover have "unat (c + 7) = unat c + 7" using assms by (simp add: unat_plus_no_wrap)
  ultimately show ?thesis
    by (simp only: bitmap_required_buf_size_def DIV_ROUND_UP_def unat_div) simp
qed

text \<open>How many of \<open>m\<close> pages the bitmap takes, and that it fits in them.\<close>

lemma bitmap_pages_word:
  fixes m :: u32
  assumes m: "0 < unat m" "unat m < 261888"
  defines "k \<equiv> DIV_ROUND_UP (bitmap_required_buf_size m + sizeof_bitmap) PAGE_SIZE"
  shows "unat k = bitmap_pages (unat m)" "unat k \<le> unat m" "unat (k * PAGE_SIZE) = unat k * 4096"
    "unat (m - k) = unat m - unat k" "(unat m + 7) div 8 + 4 \<le> unat k * 4096"
proof -
  define c where "c = bitmap_required_buf_size m"
  have c: "unat c = (unat m + 7) div 8" unfolding c_def using m by (intro unat_required) linarith
  then have "unat c \<le> unat m + 7" by simp
  then have "unat (c + 4099) = unat c + 4099" using m by (intro trans [OF unat_plus_no_wrap]) simp_all
  moreover have "c + 4 + 4096 - 1 = c + 4099" by simp
  ultimately show k: "unat k = bitmap_pages (unat m)"
    unfolding k_def DIV_ROUND_UP_def bitmap_pages_def c_def [symmetric]
    by (simp add: unat_div add.commute [of c]) (simp add: c add.commute)
  show km: "unat k \<le> unat m" unfolding k using m by (intro bitmap_pages_le) simp
  show "unat (k * PAGE_SIZE) = unat k * 4096" using km m by (simp add: unat_word_ariths)
  show "unat (m - k) = unat m - unat k" using km by (simp add: unat_sub word_le_nat_alt)
  show "(unat m + 7) div 8 + 4 \<le> unat k * 4096" unfolding k by (rule bitmap_pages_ge)
qed

lemma pool_bitmap_created:
  fixes m :: u32
  assumes m: "0 < unat m" "unat m < 261888"
  defines "k \<equiv> DIV_ROUND_UP (bitmap_required_buf_size m + sizeof_bitmap) PAGE_SIZE"
  shows "bitmap_create_in_buf (m - k) buf (k * PAGE_SIZE) = Some (buf\<lparr>bit_count := m - k\<rparr>)"
proof -
  note K = bitmap_pages_word [OF m, folded k_def]
  have "unat (k * PAGE_SIZE - 4) = unat k * 4096 - 4"
    using K(3,5) by (subst unat_sub) (simp_all add: word_le_nat_alt)
  moreover have "unat (bitmap_required_buf_size (m - k)) = (unat m - unat k + 7) div 8"
    using K(4) m by (subst unat_required) simp_all
  moreover have "(unat m - unat k + 7) div 8 \<le> unat k * 4096 - 4"
  proof (rule order_trans)
    show "(unat m - unat k + 7) div 8 \<le> (unat m + 7) div 8" by (rule div_le_mono) simp
    show "(unat m + 7) div 8 \<le> unat k * 4096 - 4" by (rule add_le_imp_le_diff [OF K(5)])
  qed
  ultimately have "\<not> k * PAGE_SIZE - 4 < bitmap_required_buf_size (m - k)"
    by (simp only: word_less_nat_alt not_less)
  then show ?thesis by (simp add: bitmap_create_in_buf_def)
qed

text \<open>The two messages of \<open>mm_init\<close>.\<close>

lemma mm_init_log:
  assumes "mm_init buf n s = Inr t"
  shows "klog t = klog s @ [(''Initial free memory pages %d.\<newline>'', [n - 256]),
    (''Current free kernel pages %d, kernel memory pool base %08p\<newline>'',
      [bit_count (bm (kernel_pool t)), base (kernel_pool t)])]"
proof -
  have "pg_no KERNEL_MEM_POOL_PHY_START = 256" by (simp add: word_unat_eq_iff unat_pg_no)
  then show ?thesis
    using assms
    by (auto simp: mm_init_def Let_def printk_mm_def bitmap_get_bits_count_def split: prod.splits if_splits)
qed

lemma mm_init_ok:
  assumes n: "256 < unat n" "unat n < 262144"
  obtains t where "mm_init buf n s = Inr t" "pool_inv t" "taken t = {}"
    "pool_base_page t = 786688 + bitmap_pages (unat n - 256)"
    "pool_pages t = unat n - 256 - bitmap_pages (unat n - 256)"
proof -
  define m where "m = n - 256"
  define k where "k = DIV_ROUND_UP (bitmap_required_buf_size m + sizeof_bitmap) PAGE_SIZE"
  have um: "unat m = unat n - 256"
    unfolding m_def using n by (subst unat_sub) (simp_all add: word_le_nat_alt)
  have m: "0 < unat m" "unat m < 261888" using um n by simp_all
  note K = bitmap_pages_word [OF m, folded k_def]
  define pool where "pool = (kernel_pool s)\<lparr>slock := 1,
    bm := bitmap_config_all (buf\<lparr>bit_count := m - k\<rparr>) False,
    base := ptov KERNEL_MEM_POOL_PHY_START + k * PAGE_SIZE\<rparr>"
  have init: "mem_pool_init (kernel_pool s) buf (ptov KERNEL_MEM_POOL_PHY_START) m = (True, pool)"
    by (simp add: mem_pool_init_def k_def [symmetric] Let_def pool_bitmap_created [OF m, folded k_def] pool_def)
  obtain t where t: "mm_init buf n s = Inr t" "kernel_pool t = pool"
  proof (rule that)
    have pg: "pg_no KERNEL_MEM_POOL_PHY_START = 256"
      by (simp add: word_unat_eq_iff unat_pg_no)
    show "mm_init buf n s = Inr (printk_mm ''Current free kernel pages %d, kernel memory pool base %08p\<newline>''
        [bitmap_get_bits_count (bm pool), base pool]
        (printk_mm ''Initial free memory pages %d.\<newline>'' [m] s\<lparr>kernel_pool := pool\<rparr>))"
      unfolding mm_init_def Let_def pg m_def [symmetric] by (simp add: init)
  qed (simp add: printk_mm_def)
  have ub: "unat (base pool) = 3222274048 + unat k * 4096"
    using K(2) m by (simp add: pool_def ptov_def unat_plus_no_wrap K(3))
  have bc: "unat (bit_count (bm pool)) = unat m - unat k"
    by (simp add: pool_def config_all_spec K(4))
  have free: "\<not> bit_at (bm pool) j" if "j < unat (bit_count (bm pool))" for j
    using that config_all_spec(2) [of j "buf\<lparr>bit_count := m - k\<rparr>" False]
    by (simp add: pool_def config_all_spec)
  have "unat (base pool) mod 4096 = 0"
    unfolding ub using mod_mult_self2 [of 3222274048 "unat k" 4096] by (simp add: mult.commute)
  moreover have "unat (base pool) + unat (bit_count (bm pool)) * 4096 < 4294967296"
    unfolding ub bc using K(2) m by linarith
  ultimately have "pool_inv t" unfolding pool_inv_def t(2) using ub by (simp add: pool_def)
  moreover have "taken t = {}" using free by (auto simp: taken_def pool_pages_def t(2))
  moreover have "3222274048 + unat k * 4096 = (786688 + unat k) * 4096" by simp
  then have "pool_base_page t = 786688 + bitmap_pages (unat n - 256)"
    unfolding pool_base_page_def t(2) ub by (simp add: K(1) um)
  moreover have "pool_pages t = unat n - 256 - bitmap_pages (unat n - 256)"
    unfolding pool_pages_def t(2) bc K(1) um by (rule refl)
  ultimately show ?thesis using that t(1) by blast
qed

section \<open>The contract of a page allocator\<close>

text \<open>
  A client of the allocator: it asks for blocks, keeps what it got, and releases one of
  the blocks it holds. \<open>Get\<close> records nothing when the allocator returns null.
\<close>

datatype client_op = Get u32 u32 | Free nat

fun client_run :: "(u32 \<Rightarrow> u32 \<Rightarrow> 's \<Rightarrow> (u32 \<times> 's) result) \<Rightarrow> (u32 \<Rightarrow> u32 \<Rightarrow> 's \<Rightarrow> 's result) \<Rightarrow>
    client_op list \<Rightarrow> 's \<times> (u32 \<times> u32) list \<Rightarrow> ('s \<times> (u32 \<times> u32) list) result" where
  "client_run get free [] st = Inr st"
| "client_run get free (Get pf c # ops) (s, live) =
     bindE (get pf c s) (\<lambda>(p, s'). client_run get free ops (s', if p = NULL then live else (p, c) # live))"
| "client_run get free (Free i # ops) (s, live) =
     (if i < length live
      then bindE (free (fst (live ! i)) (snd (live ! i)) s)
        (\<lambda>s'. client_run get free ops (s', take i live @ drop (Suc i) live))
      else client_run get free ops (s, live))"

text \<open>The blocks a client holds: aligned, pairwise disjoint, and all their pages taken.\<close>

fun disjoint_blocks :: "(u32 \<times> u32) list \<Rightarrow> bool" where
  "disjoint_blocks [] = True"
| "disjoint_blocks ((p, c) # bs) \<longleftrightarrow>
     (\<forall>(q, d) \<in> set bs. pages_at p c \<inter> pages_at q d = {}) \<and> disjoint_blocks bs"

definition block_pages :: "(u32 \<times> u32) list \<Rightarrow> nat set" where
  "block_pages bs = (\<Union>(p, c) \<in> set bs. pages_at p c)"

lemma block_pages_simps [simp]:
  "block_pages [] = {}"
  "block_pages ((p, c) # bs) = pages_at p c \<union> block_pages bs"
  "block_pages (bs @ cs) = block_pages bs \<union> block_pages cs"
  by (simp_all add: block_pages_def)

lemma disjoint_blocks_Cons: "disjoint_blocks ((p, c) # bs) \<longleftrightarrow>
    pages_at p c \<inter> block_pages bs = {} \<and> disjoint_blocks bs"
  by (auto simp: block_pages_def)

lemma disjoint_blocks_append: "disjoint_blocks (bs @ cs) \<longleftrightarrow>
    disjoint_blocks bs \<and> disjoint_blocks cs \<and> block_pages bs \<inter> block_pages cs = {}"
proof (induction bs)
  case (Cons b bs)
  obtain p c where b: "b = (p, c)" by (cases b)
  show ?case
    unfolding b append_Cons disjoint_blocks_Cons block_pages_simps Cons.IH by auto
qed simp

locale page_allocator =
  fixes inv :: "'s \<Rightarrow> bool"
    and owned :: "'s \<Rightarrow> nat set"
    and get :: "u32 \<Rightarrow> u32 \<Rightarrow> 's \<Rightarrow> (u32 \<times> 's) result"
    and free :: "u32 \<Rightarrow> u32 \<Rightarrow> 's \<Rightarrow> 's result"
  assumes get_returns: "inv s \<Longrightarrow> \<exists>p t. get pf c s = Inr (p, t)"
    and get_null: "inv s \<Longrightarrow> get pf c s = Inr (NULL, t) \<Longrightarrow> inv t \<and> owned t = owned s"
    and get_fresh: "inv s \<Longrightarrow> get pf c s = Inr (p, t) \<Longrightarrow> p \<noteq> NULL \<Longrightarrow>
      inv t \<and> unat p mod 4096 = 0 \<and> pages_at p c \<inter> owned s = {} \<and> owned t = owned s \<union> pages_at p c"
    and free_owned: "inv s \<Longrightarrow> pages_at p c \<subseteq> owned s \<Longrightarrow>
      \<exists>t. free p c s = Inr t \<and> inv t \<and> owned t = owned s - pages_at p c"
begin

text \<open>What the client holds stays disjoint, and so does what others hold (\<open>extra\<close>).\<close>

lemma client_blocks:
  assumes "inv s" "disjoint_blocks live" "owned s = extra \<union> block_pages live"
    and "extra \<inter> block_pages live = {}"
  shows "\<exists>t live'. client_run get free ops (s, live) = Inr (t, live') \<and> inv t \<and>
    disjoint_blocks live' \<and> owned t = extra \<union> block_pages live' \<and> extra \<inter> block_pages live' = {}"
  using assms
proof (induction ops arbitrary: s live)
  case Nil
  then show ?case by auto
next
  case (Cons op ops)
  show ?case
  proof (cases op)
    case (Get pf c)
    obtain p t where g: "get pf c s = Inr (p, t)" using get_returns [OF Cons.prems(1)] by blast
    show ?thesis
    proof (cases "p = NULL")
      case True
      with g get_null [OF Cons.prems(1)] have "inv t" "owned t = owned s" by auto
      with Cons.IH [of t live] Cons.prems show ?thesis by (simp add: Get g True)
    next
      case False
      from get_fresh [OF Cons.prems(1) g False] Cons.prems
      have "inv t" "disjoint_blocks ((p, c) # live)" "owned t = extra \<union> block_pages ((p, c) # live)"
        "extra \<inter> block_pages ((p, c) # live) = {}"
        unfolding disjoint_blocks_Cons block_pages_simps by auto
      with Cons.IH [of t "(p, c) # live"] show ?thesis by (simp add: Get g False)
    qed
  next
    case (Free i)
    show ?thesis
    proof (cases "i < length live")
      case True
      obtain p c where pc: "live ! i = (p, c)" by (cases "live ! i")
      define as bs where "as = take i live" and "bs = drop (Suc i) live"
      have live: "live = as @ (p, c) # bs"
        using id_take_nth_drop [OF True] by (simp add: as_def bs_def pc)
      have d: "disjoint_blocks (as @ bs)" "pages_at p c \<inter> block_pages (as @ bs) = {}"
        using Cons.prems(2) unfolding live disjoint_blocks_append disjoint_blocks_Cons block_pages_simps
        by auto
      have "pages_at p c \<subseteq> owned s" using Cons.prems(3) by (auto simp: live)
      then obtain t where t: "free p c s = Inr t" "inv t" "owned t = owned s - pages_at p c"
        using free_owned [OF Cons.prems(1)] by blast
      have "owned t = extra \<union> block_pages (as @ bs)" "extra \<inter> block_pages (as @ bs) = {}"
        using t(3) d(2) Cons.prems(3,4) by (auto simp: live)
      with Cons.IH [of t "as @ bs"] t d(1) True show ?thesis
        by (simp add: Free pc as_def [symmetric] bs_def [symmetric])
    next
      case False
      with Cons.IH [of s live] Cons.prems show ?thesis by (simp add: Free)
    qed
  qed
qed

end

lemma kfree_taken:
  assumes inv: "pool_inv s" and sub: "pages_at p c \<subseteq> taken s"
  shows "\<exists>t. mm_kfree_pages p c s = Inr t \<and> pool_inv t \<and> taken t = taken s - pages_at p c"
proof -
  let ?q = "unat p div 4096"
  obtain t where t: "mm_kfree_pages p c s = Inr t" "pool_inv t"
    "taken t = (if pool_base_page s \<le> ?q \<and> ?q < pool_base_page s + pool_pages s \<and>
        ?q + unat c \<le> pool_base_page s + pool_pages s
      then taken s - pages_at p c else taken s)"
    by (rule kfree_block [OF inv, of p c])
  have "taken t = taken s - pages_at p c"
  proof (cases "unat c = 0")
    case True
    then show ?thesis using t(3) by (simp add: pages_at_def)
  next
    case False
    then have "?q \<in> taken s" "?q + unat c - 1 \<in> taken s" using sub by (auto simp: pages_at_def)
    then have "pool_base_page s \<le> ?q" "?q < pool_base_page s + pool_pages s"
      "?q + unat c \<le> pool_base_page s + pool_pages s"
      using False by (auto simp: taken_def)
    then show ?thesis using t(3) by simp
  qed
  with t(1,2) show ?thesis by blast
qed

interpretation kpages: page_allocator pool_inv taken mm_kget_pages mm_kfree_pages
  by unfold_locales
    (blast elim: kget_returns, blast dest: kget_null, blast dest: kget_fresh, rule kfree_taken)

end
