(* ===== verification/Linked_List.thy ===== *)
theory Linked_List
  imports Prelude
begin

text \<open>
  The intrusive circular doubly linked list of \<open>lib/list.h\<close>. A list head and a list
  node are the same C type; the heap is one function per field (\<open>prev\<close>, \<open>next\<close>) on
  node addresses, so every pointer write of the code is one function update and the
  order of the writes and their aliasing are those of the source.

  \<open>ring m h xs\<close> says that the ring through the head \<open>h\<close> holds exactly the nodes
  \<open>xs\<close>, in order from \<open>h->next\<close>. The locale \<open>intrusive_list\<close> is the contract the
  scheduler, the semaphores and the block layer rely on; the interpretation at the end
  proves it of the code.
\<close>

section \<open>The operations\<close>

record 'a links =
  lprev :: "'a \<Rightarrow> 'a"
  lnext :: "'a \<Rightarrow> 'a"

definition list_head_init :: "'a \<Rightarrow> 'a links \<Rightarrow> 'a links" where
  "list_head_init head m =
     (let m1 = m\<lparr>lprev := (lprev m)(head := head)\<rparr>
      in m1\<lparr>lnext := (lnext m1)(head := head)\<rparr>)"

definition list_empty :: "'a \<Rightarrow> 'a links \<Rightarrow> bool" where
  "list_empty head m \<longleftrightarrow> lnext m head = head \<or> lprev m head = head"

definition list_del :: "'a \<Rightarrow> 'a links \<Rightarrow> 'a links" where
  "list_del node m =
     (let m1 = m\<lparr>lprev := (lprev m)(lnext m node := lprev m node)\<rparr>
      in m1\<lparr>lnext := (lnext m1)(lprev m1 node := lnext m1 node)\<rparr>)"

definition list_pop :: "'a \<Rightarrow> 'a links \<Rightarrow> 'a \<times> 'a links" where
  "list_pop head m = (let ret_node = lnext m head in (ret_node, list_del ret_node m))"

definition list_add_between :: "'a \<Rightarrow> 'a \<Rightarrow> 'a \<Rightarrow> 'a links \<Rightarrow> 'a links" where
  "list_add_between node prev next m =
     (let m1 = m\<lparr>lnext := (lnext m)(node := next)\<rparr>;
          m2 = m1\<lparr>lprev := (lprev m1)(node := prev)\<rparr>;
          m3 = m2\<lparr>lnext := (lnext m2)(prev := node)\<rparr>
      in m3\<lparr>lprev := (lprev m3)(next := node)\<rparr>)"

definition list_add :: "'a \<Rightarrow> 'a \<Rightarrow> 'a links \<Rightarrow> 'a links" where
  "list_add node head m = list_add_between node head (lnext m head) m"

definition list_add_tail :: "'a \<Rightarrow> 'a \<Rightarrow> 'a links \<Rightarrow> 'a links" where
  "list_add_tail node head m = list_add_between node (lprev m head) head m"

text \<open>
  \<open>list_for_each_entry\<close> visits nodes from \<open>head->next\<close> until it is back at the head.
  Nothing in the macro bounds the walk, so it is a partial function: \<open>None\<close> is a walk
  that never meets the head again.
\<close>

partial_function (option) list_walk :: "'a links \<Rightarrow> 'a \<Rightarrow> 'a \<Rightarrow> 'a list option" where
  "list_walk m head cursor =
     (if cursor = head then Some []
      else Option.bind (list_walk m head (lnext m cursor)) (\<lambda>ns. Some (cursor # ns)))"

definition list_for_each :: "'a links \<Rightarrow> 'a \<Rightarrow> 'a list option" where
  "list_for_each m head = list_walk m head (lnext m head)"

section \<open>Rings\<close>

fun seg :: "'a links \<Rightarrow> 'a \<Rightarrow> 'a list \<Rightarrow> 'a \<Rightarrow> bool" where
  "seg m a [] b \<longleftrightarrow> lnext m a = b \<and> lprev m b = a"
| "seg m a (x # xs) b \<longleftrightarrow> lnext m a = x \<and> lprev m x = a \<and> seg m x xs b"

definition ring :: "'a links \<Rightarrow> 'a \<Rightarrow> 'a list \<Rightarrow> bool" where
  "ring m h xs \<longleftrightarrow> distinct (h # xs) \<and> seg m h xs h"

lemma seg_append [simp]: "seg m a (xs @ y # ys) b \<longleftrightarrow> seg m a xs y \<and> seg m y ys b"
  by (induction xs arbitrary: a) auto

text \<open>The segment from \<open>a\<close> to \<open>b\<close> reads \<open>next\<close> of \<open>a\<close> and of the nodes, \<open>prev\<close> of the
  nodes and of \<open>b\<close>, and nothing else.\<close>

lemma seg_cong:
  assumes "\<And>n. n \<in> set (a # xs) \<Longrightarrow> lnext m' n = lnext m n"
    and "\<And>n. n \<in> set (xs @ [b]) \<Longrightarrow> lprev m' n = lprev m n"
  shows "seg m' a xs b = seg m a xs b"
  using assms by (induction xs arbitrary: a) auto

lemma seg_upd_next [simp]:
  "n \<notin> set (a # xs) \<Longrightarrow> seg (m\<lparr>lnext := (lnext m)(n := v)\<rparr>) a xs b = seg m a xs b"
  by (rule seg_cong) auto

lemma seg_upd_prev [simp]:
  "n \<notin> set (xs @ [b]) \<Longrightarrow> seg (m\<lparr>lprev := (lprev m)(n := v)\<rparr>) a xs b = seg m a xs b"
  by (rule seg_cong) auto

lemma seg_last:
  "seg m a xs b \<Longrightarrow> lprev m b = last (a # xs) \<and> lnext m (last (a # xs)) = b"
  by (induction xs arbitrary: a) auto

lemma ring_next: "ring m h xs \<Longrightarrow> lnext m h = hd (xs @ [h])"
  by (cases xs) (auto simp: ring_def)

lemma ring_prev: "ring m h xs \<Longrightarrow> lprev m h = last (h # xs)"
  by (auto simp: ring_def dest: seg_last)

lemma ring_distinct: "ring m h xs \<Longrightarrow> distinct xs \<and> h \<notin> set xs"
  by (simp add: ring_def)

lemma ring_unique: "ring m h xs \<Longrightarrow> ring m h ys \<Longrightarrow> xs = ys"
proof -
  have "seg m a xs h \<Longrightarrow> seg m a ys h \<Longrightarrow> h \<notin> set xs \<Longrightarrow> h \<notin> set ys \<Longrightarrow> xs = ys" for a
  proof (induction xs arbitrary: a ys)
    case Nil
    then show ?case by (cases ys) auto
  next
    case (Cons x xs)
    then show ?case by (cases ys) auto
  qed
  then show "ring m h xs \<Longrightarrow> ring m h ys \<Longrightarrow> xs = ys" by (auto simp: ring_def)
qed

section \<open>What each operation does to a ring\<close>

lemma ring_init: "ring (list_head_init h m) h []"
  by (simp add: ring_def list_head_init_def Let_def)

lemma list_head_init_empty: "ring m h [] \<Longrightarrow> list_head_init h m = m"
  by (simp add: ring_def list_head_init_def Let_def fun_upd_idem)

lemma ring_empty_iff:
  assumes "ring m h xs"
  shows "list_empty h m \<longleftrightarrow> xs = []"
proof -
  have "h \<notin> set xs" using ring_distinct [OF assms] by simp
  then show ?thesis
    using ring_next [OF assms] ring_prev [OF assms]
    by (cases xs) (auto simp: list_empty_def split: if_splits)
qed

text \<open>Inserting between two neighbours of a ring, at any place in it.\<close>

lemma add_between_fields [simp]:
  "lnext (list_add_between n p q m) = (lnext m)(n := q, p := n)"
  "lprev (list_add_between n p q m) = (lprev m)(n := p, q := n)"
  by (simp_all add: list_add_between_def Let_def)

lemma seg_add_left:
  assumes s: "seg m a xs b" and d: "distinct (a # xs)" "n \<notin> set (a # xs)" "q \<notin> set (n # xs)"
    and p: "p = last (a # xs)"
  shows "seg (list_add_between n p q m) a xs n"
proof (cases xs rule: rev_cases)
  case Nil
  with d p show ?thesis by auto
next
  case (snoc zs z)
  with s have "seg m a zs z" by simp
  moreover from snoc d p have "p = z" "z \<noteq> n" "q \<noteq> z" "z \<notin> set (a # zs)" "n \<notin> set (a # zs)" "q \<notin> set zs"
    by auto
  ultimately have "seg (list_add_between n p q m) a zs z"
    by (subst seg_cong) auto
  with snoc \<open>p = z\<close> \<open>z \<noteq> n\<close> d(3) show ?thesis by auto
qed

lemma seg_add_right:
  assumes s: "seg m a ys b" and d: "distinct (ys @ [b])" "n \<notin> set (ys @ [b])" "p \<notin> set (n # ys)"
    and q: "q = hd (ys @ [b])"
  shows "seg (list_add_between n p q m) n ys b"
proof (cases ys)
  case Nil
  with d q show ?thesis by auto
next
  case (Cons z zs)
  with s have "seg m z zs b" by simp
  moreover from Cons d q have "q = z" "z \<noteq> n" "p \<noteq> z" "z \<notin> set (zs @ [b])" "n \<notin> set (zs @ [b])" "p \<notin> set zs"
    by auto
  ultimately have "seg (list_add_between n p q m) z zs b"
    using d(3) by (subst seg_cong) auto
  with Cons \<open>q = z\<close> \<open>z \<noteq> n\<close> d(3) show ?thesis by auto
qed

lemma ring_add_between:
  assumes r: "ring m h (xs @ ys)" and n: "n \<notin> set (h # xs @ ys)"
    and p: "p = last (h # xs)" and q: "q = hd (ys @ [h])"
  shows "ring (list_add_between n p q m) h (xs @ n # ys)"
proof -
  have d: "distinct (h # xs @ ys)" using r by (simp add: ring_def)
  obtain b c where s: "seg m h xs b" "seg m c ys h"
  proof (cases ys)
    case Nil
    then show ?thesis using that [of h "last (h # xs)"] r seg_last [of m h xs h] by (auto simp: ring_def)
  next
    case (Cons y zs)
    then show ?thesis using that [of y "lprev m y"] r seg_last [of m h xs y]
      by (auto simp: ring_def)
  qed
  have "p \<in> set (h # xs)" unfolding p by (rule last_in_set) simp
  moreover have "q \<in> set (h # ys)" unfolding q by (cases ys) auto
  ultimately have "p \<notin> set (n # ys)" "q \<notin> set (n # xs)"
    using d n by auto
  then have "seg (list_add_between n p q m) h xs n" "seg (list_add_between n p q m) n ys h"
    using d n s p q by (auto intro!: seg_add_left seg_add_right)
  then show ?thesis using d n by (auto simp: ring_def)
qed

lemma ring_add:
  "ring m h xs \<Longrightarrow> n \<notin> set (h # xs) \<Longrightarrow> ring (list_add n h m) h (n # xs)"
  using ring_add_between [of m h "[]" xs n h "lnext m h"] ring_next [of m h xs]
  by (simp add: list_add_def)

lemma ring_add_tail:
  "ring m h xs \<Longrightarrow> n \<notin> set (h # xs) \<Longrightarrow> ring (list_add_tail n h m) h (xs @ [n])"
  using ring_add_between [of m h xs "[]" n "lprev m h" h] ring_prev [of m h xs]
  by (simp add: list_add_tail_def)

text \<open>Deleting a node joins its two neighbours.\<close>

lemma list_del_fields:
  assumes "lnext m n \<noteq> n"
  shows "lnext (list_del n m) = (lnext m)(lprev m n := lnext m n)"
    and "lprev (list_del n m) = (lprev m)(lnext m n := lprev m n)"
  using assms by (simp_all add: list_del_def Let_def)

lemma ring_neighbours:
  assumes "ring m h (xs @ n # ys)"
  shows "lprev m n = last (h # xs)" "lnext m n = hd (ys @ [h])"
proof -
  have s: "seg m h xs n" "seg m n ys h" using assms by (simp_all add: ring_def)
  from seg_last [OF s(1)] show "lprev m n = last (h # xs)" by simp
  from s(2) show "lnext m n = hd (ys @ [h])" by (cases ys) auto
qed

lemma ring_del:
  assumes r: "ring m h (xs @ n # ys)"
  shows "ring (list_del n m) h (xs @ ys)"
proof -
  define p q where "p = last (h # xs)" and "q = hd (ys @ [h])"
  have d: "distinct (h # xs @ n # ys)" and s: "seg m h xs n" "seg m n ys h"
    using r by (auto simp: ring_def)
  have "p \<in> set (h # xs)" unfolding p_def by (rule last_in_set) simp
  then have p: "p \<notin> set (n # ys)" using d by auto
  have "q \<in> set (h # ys)" unfolding q_def by (cases ys) auto
  then have q: "q \<notin> set (n # xs)" using d by auto
  have fn: "lnext (list_del n m) = (lnext m)(p := q)"
    and fp: "lprev (list_del n m) = (lprev m)(q := p)"
    using list_del_fields [of m n] ring_neighbours [OF r] q by (simp_all add: p_def q_def)
  have left: "seg (list_del n m) h zs z" if "xs = zs @ [z]" for zs z
  proof -
    from that have "p = z" by (simp add: p_def)
    moreover from that s have "seg m h zs z" by simp
    ultimately show ?thesis
      by (subst seg_cong [of h zs _ m]) (use that d q in \<open>auto simp: fn fp\<close>)
  qed
  have right: "seg (list_del n m) y ws h" if "ys = y # ws" for y ws
  proof -
    from that have "q = y" by (simp add: q_def)
    moreover from that s have "seg m y ws h" by simp
    ultimately show ?thesis
      by (subst seg_cong [of y ws _ m]) (use that d p in \<open>auto simp: fn fp\<close>)
  qed
  have "seg (list_del n m) h (xs @ ys) h"
  proof (cases ys)
    case Nil
    then show ?thesis using left
      by (cases xs rule: rev_cases) (auto simp: fn fp p_def q_def)
  next
    case (Cons y ws)
    then show ?thesis using left right d
      by (cases xs rule: rev_cases) (auto simp: fn fp p_def q_def)
  qed
  with d show ?thesis by (auto simp: ring_def)
qed

text \<open>An operation on one ring leaves every ring it shares no node with alone.\<close>

lemma ring_cong:
  assumes "\<And>n. n \<in> set (h # xs) \<Longrightarrow> lnext m' n = lnext m n \<and> lprev m' n = lprev m n"
  shows "ring m' h xs = ring m h xs"
  unfolding ring_def using assms by (subst seg_cong [of h xs m' m]) auto

lemma ring_neighbours_in:
  assumes "ring m h xs" "n \<in> set xs"
  shows "lnext m n \<in> set (h # xs)" "lprev m n \<in> set (h # xs)"
proof -
  obtain as bs where xs: "xs = as @ n # bs" using assms(2) by (meson split_list)
  have "lprev m n = last (h # as)" "lnext m n = hd (bs @ [h])"
    using assms(1) unfolding xs by (rule ring_neighbours)+
  then show "lnext m n \<in> set (h # xs)" "lprev m n \<in> set (h # xs)"
    unfolding xs by (cases bs; auto)+
qed

lemma ring_ends_in:
  assumes "ring m h xs"
  shows "lnext m h \<in> set (h # xs)" "lprev m h \<in> set (h # xs)"
  using ring_next [OF assms] ring_prev [OF assms] by (cases xs; auto)+

lemma ring_init_frame [frame]:
  "ring m k ys \<Longrightarrow> h \<notin> set (k # ys) \<Longrightarrow> ring (list_head_init h m) k ys"
  by (rule ring_cong [THEN iffD2]) (auto simp: list_head_init_def Let_def)

lemma ring_add_between_frame:
  assumes "ring m k ys" "n \<notin> set (k # ys)" "p \<notin> set (k # ys)" "q \<notin> set (k # ys)"
  shows "ring (list_add_between n p q m) k ys"
proof (rule ring_cong [THEN iffD2, OF _ assms(1)])
  fix x assume "x \<in> set (k # ys)"
  then have "x \<noteq> n" "x \<noteq> p" "x \<noteq> q" using assms(2-4) by blast+
  then show "lnext (list_add_between n p q m) x = lnext m x \<and>
      lprev (list_add_between n p q m) x = lprev m x" by simp
qed

lemma ring_add_frame [frame]:
  assumes "ring m h xs" "ring m k ys" "set (h # xs) \<inter> set (k # ys) = {}" "n \<notin> set (k # ys)"
  shows "ring (list_add n h m) k ys" "ring (list_add_tail n h m) k ys"
proof -
  have "h \<notin> set (k # ys)" "lnext m h \<notin> set (k # ys)" "lprev m h \<notin> set (k # ys)"
    by (rule disj_notin [OF assms(3)], simp) (rule disj_notin [OF assms(3) ring_ends_in(1) [OF assms(1)]],
      rule disj_notin [OF assms(3) ring_ends_in(2) [OF assms(1)]])
  then show "ring (list_add n h m) k ys" "ring (list_add_tail n h m) k ys"
    unfolding list_add_def list_add_tail_def using assms
    by (simp_all add: ring_add_between_frame)
qed

lemma ring_del_frame [frame]:
  assumes "ring m h xs" "n \<in> set xs" "ring m k ys" "set (h # xs) \<inter> set (k # ys) = {}"
  shows "ring (list_del n m) k ys"
proof -
  have "lnext m n \<noteq> n"
  proof -
    obtain as bs where xs: "xs = as @ n # bs" using assms(2) by (meson split_list)
    then show ?thesis using ring_neighbours(2) [of m h as n bs] assms(1)
      by (cases bs) (auto simp: ring_def)
  qed
  moreover have "lnext m n \<notin> set (k # ys)" "lprev m n \<notin> set (k # ys)"
    by (rule disj_notin [OF assms(4)], rule ring_neighbours_in [OF assms(1,2)])+
  ultimately show ?thesis
    by (intro ring_cong [THEN iffD2, OF _ assms(3)]) (auto simp: list_del_fields)
qed

section \<open>The walk\<close>

lemma list_walk_seg:
  "seg m a xs h \<Longrightarrow> h \<notin> set xs \<Longrightarrow> list_walk m h (lnext m a) = Some xs"
proof (induction xs arbitrary: a)
  case Nil
  then show ?case by (simp add: list_walk.simps)
next
  case (Cons x xs)
  then have "list_walk m h (lnext m x) = Some xs" by simp
  moreover have "lnext m a = x" "x \<noteq> h" using Cons.prems by auto
  ultimately show ?case by (simp add: list_walk.simps [of m h x])
qed

lemma list_for_each_ring: "ring m h xs \<Longrightarrow> list_for_each m h = Some xs"
  by (simp add: list_for_each_def ring_def list_walk_seg)

section \<open>The contract of an intrusive list\<close>

text \<open>
  \<open>rep m h xs\<close>: in the heap \<open>m\<close> the list with head \<open>h\<close> holds the nodes \<open>xs\<close>. The laws
  say what each operation does to the list it works on and that it leaves every list
  with no node in common alone.
\<close>

locale intrusive_list =
  fixes rep :: "'m \<Rightarrow> 'a \<Rightarrow> 'a list \<Rightarrow> bool"
    and init :: "'a \<Rightarrow> 'm \<Rightarrow> 'm"
    and add :: "'a \<Rightarrow> 'a \<Rightarrow> 'm \<Rightarrow> 'm"
    and add_tail :: "'a \<Rightarrow> 'a \<Rightarrow> 'm \<Rightarrow> 'm"
    and del :: "'a \<Rightarrow> 'm \<Rightarrow> 'm"
    and first :: "'m \<Rightarrow> 'a \<Rightarrow> 'a"
    and is_empty :: "'a \<Rightarrow> 'm \<Rightarrow> bool"
  assumes rep_distinct: "rep m h xs \<Longrightarrow> distinct (h # xs)"
    and rep_init: "rep (init h m) h []"
    and rep_add: "rep m h xs \<Longrightarrow> n \<notin> set (h # xs) \<Longrightarrow> rep (add n h m) h (n # xs)"
    and rep_add_tail: "rep m h xs \<Longrightarrow> n \<notin> set (h # xs) \<Longrightarrow> rep (add_tail n h m) h (xs @ [n])"
    and rep_del: "rep m h (xs @ n # ys) \<Longrightarrow> rep (del n m) h (xs @ ys)"
    and rep_first: "rep m h xs \<Longrightarrow> first m h = hd (xs @ [h])"
    and rep_is_empty: "rep m h xs \<Longrightarrow> is_empty h m \<longleftrightarrow> xs = []"
    and rep_init_frame: "rep m k ys \<Longrightarrow> h \<notin> set (k # ys) \<Longrightarrow> rep (init h m) k ys"
    and rep_add_frame: "rep m h xs \<Longrightarrow> rep m k ys \<Longrightarrow> set (h # xs) \<inter> set (k # ys) = {} \<Longrightarrow>
      n \<notin> set (k # ys) \<Longrightarrow> rep (add n h m) k ys"
    and rep_add_tail_frame: "rep m h xs \<Longrightarrow> rep m k ys \<Longrightarrow> set (h # xs) \<inter> set (k # ys) = {} \<Longrightarrow>
      n \<notin> set (k # ys) \<Longrightarrow> rep (add_tail n h m) k ys"
    and rep_del_frame: "rep m h xs \<Longrightarrow> n \<in> set xs \<Longrightarrow> rep m k ys \<Longrightarrow>
      set (h # xs) \<inter> set (k # ys) = {} \<Longrightarrow> rep (del n m) k ys"
begin

text \<open>Removing the first node: what \<open>list_pop\<close> does.\<close>

lemma pop_first: "rep m h (n # xs) \<Longrightarrow> first m h = n \<and> rep (del n m) h xs"
  using rep_first [of m h "n # xs"] rep_del [of m h "[]" n xs] by simp

text \<open>Moving a node to the tail of its own list.\<close>

lemma requeue:
  assumes "rep m h (xs @ n # ys)"
  shows "rep (add_tail n h (del n m)) h (xs @ ys @ [n])"
  using rep_add_tail [OF rep_del [OF assms], of n] rep_distinct [OF assms] by auto

text \<open>Moving a node from one list to the front or the tail of another one.\<close>

lemma move:
  assumes "rep m h (xs @ n # ys)" "rep m k zs" "set (h # xs @ n # ys) \<inter> set (k # zs) = {}"
  shows "rep (add n k (del n m)) h (xs @ ys)" "rep (add n k (del n m)) k (n # zs)"
    and "rep (add_tail n k (del n m)) h (xs @ ys)" "rep (add_tail n k (del n m)) k (zs @ [n])"
proof -
  have h: "rep (del n m) h (xs @ ys)" by (rule rep_del [OF assms(1)])
  have k: "rep (del n m) k zs" by (rule rep_del_frame [OF assms(1) _ assms(2,3)]) simp
  have "n \<notin> set (h # xs @ ys)" using rep_distinct [OF assms(1)] by auto
  moreover have "n \<notin> set (k # zs)" "set (k # zs) \<inter> set (h # xs @ ys) = {}"
    using assms(3) by auto
  ultimately show "rep (add n k (del n m)) h (xs @ ys)" "rep (add n k (del n m)) k (n # zs)"
    "rep (add_tail n k (del n m)) h (xs @ ys)" "rep (add_tail n k (del n m)) k (zs @ [n])"
    by (simp_all add: h k rep_add rep_add_tail rep_add_frame [OF k h] rep_add_tail_frame [OF k h])
qed

text \<open>A list that shares no node with either list is not touched by a move.\<close>

lemma move_frame:
  assumes "rep m h (xs @ n # ys)" "rep m k zs" "set (h # xs @ n # ys) \<inter> set (k # zs) = {}"
    and "rep m j ws" "set (h # xs @ n # ys) \<inter> set (j # ws) = {}" "set (k # zs) \<inter> set (j # ws) = {}"
  shows "rep (add n k (del n m)) j ws" "rep (add_tail n k (del n m)) j ws"
proof -
  have k: "rep (del n m) k zs" by (rule rep_del_frame [OF assms(1) _ assms(2,3)]) simp
  have j: "rep (del n m) j ws" by (rule rep_del_frame [OF assms(1) _ assms(4,5)]) simp
  have "n \<notin> set (j # ws)" using assms(5) by auto
  then show "rep (add n k (del n m)) j ws" "rep (add_tail n k (del n m)) j ws"
    by (rule rep_add_frame [OF k j assms(6)], rule rep_add_tail_frame [OF k j assms(6)])
qed

text \<open>A requeue does not touch the other lists either.\<close>

lemma requeue_frame:
  assumes "rep m h (xs @ n # ys)" "rep m j ws" "set (h # xs @ n # ys) \<inter> set (j # ws) = {}"
  shows "rep (add_tail n h (del n m)) j ws"
proof (rule rep_add_tail_frame [OF rep_del [OF assms(1)]])
  show "rep (del n m) j ws" by (rule rep_del_frame [OF assms(1) _ assms(2,3)]) simp
qed (use assms(3) in auto)

end

text \<open>A list whose nodes can also be visited in order.\<close>

locale walkable_list = intrusive_list +
  fixes each :: "'m \<Rightarrow> 'a \<Rightarrow> 'a list option"
  assumes rep_each: "rep m h xs \<Longrightarrow> each m h = Some xs"
begin

lemma each_add_tail: "rep m h xs \<Longrightarrow> n \<notin> set (h # xs) \<Longrightarrow> each (add_tail n h m) h = Some (xs @ [n])"
  by (rule rep_each) (rule rep_add_tail)

lemma each_del: "rep m h (xs @ n # ys) \<Longrightarrow> each (del n m) h = Some (xs @ ys)"
  by (rule rep_each) (rule rep_del)

end

interpretation dl: walkable_list ring list_head_init list_add list_add_tail list_del lnext list_empty
  list_for_each
  by unfold_locales
    (auto simp only: ring_init ring_next ring_empty_iff list_for_each_ring frame
      intro: ring_add ring_add_tail ring_del ring_init_frame ring_add_frame ring_del_frame,
     simp add: ring_def)

end
