(* ===== verification/Library_Props.thy ===== *)
theory Library_Props
  imports Mm Linked_List
begin

text \<open>
  The properties of the library routines and the page allocator, with concrete instances.
\<close>

section \<open>Bitmaps\<close>

text \<open>
  C28: The search of the bitmap is exact for every non-zero length and any start, wrap-around
  of \<open>idx_start + bit_count\<close> included: a result other than the error value is the first index
  at or after the start from which all the bits have the wanted value, inside the bitmap;
  the error value means that no such index exists.
\<close>

theorem bitmap_search_exact:
  assumes "c \<noteq> 0"
  shows "first_run b (unat s) (unat c) v (bitmap_find_first_bits_group b s c v)"
  by (rule find_group_spec [OF assms])

theorem bitmap_search_exact_witness:
  "first_run \<lparr>bit_count = 40, bits = (\<lambda>_. 5)\<rparr> 0 2 False
    (bitmap_find_first_bits_group \<lparr>bit_count = 40, bits = (\<lambda>_. 5)\<rparr> 0 2 False)"
  using bitmap_search_exact [of 2 "\<lparr>bit_count = 40, bits = (\<lambda>_. 5)\<rparr>" 0 False] by simp

text \<open>
  Setting and resetting a range change exactly the bits of the range when it lies inside
  the bitmap, and nothing otherwise, also where \<open>idx_start + bit_count\<close> wraps around.
\<close>

theorem bitmap_ranges_exact:
  assumes "k < 4294967296"
  shows "bit_at (bitmap_set_multi_bits b s c) k = (in_range b s c k \<or> bit_at b k) \<and>
    bit_at (bitmap_reset_multi_bits b s c) k = (\<not> in_range b s c k \<and> bit_at b k)"
  using set_multi_bits_spec(2) [OF assms] reset_multi_bits_spec(2) [OF assms] by blast

theorem bitmap_ranges_exact_witness:
  "bit_at (bitmap_set_multi_bits \<lparr>bit_count = 40, bits = (\<lambda>_. 0)\<rparr> 30 5) 33"
  using bitmap_ranges_exact [of 33 "\<lparr>bit_count = 40, bits = (\<lambda>_. 0)\<rparr>" 30 5] by (simp add: in_range_def)

text \<open>
  \<open>bitmap_config_all\<close> gives every bit of the bitmap the value, in whole words and in the
  bits of the last, partial one.
\<close>

theorem bitmap_fill_all:
  assumes "k < unat (bit_count b)"
  shows "bit_at (bitmap_config_all b v) k = v"
  by (rule config_all_spec(2) [OF assms])

theorem bitmap_fill_all_witness: "bit_at (bitmap_config_all \<lparr>bit_count = 40, bits = (\<lambda>_. 0)\<rparr> True) 39"
  using bitmap_fill_all [of 39 "\<lparr>bit_count = 40, bits = (\<lambda>_. 0)\<rparr>" True] by simp

section \<open>Lists\<close>



section \<open>Memory and strings\<close>

text \<open>
  \<open>strlcpy\<close> copies the longest prefix that leaves room for the terminator, terminates the
  copy, returns its length and writes no other byte, for any string whose bytes do not
  overlap the destination.
\<close>

theorem strlcpy_copies_prefix:
  assumes "cstr m src s" "src \<noteq> NULL" "dest \<noteq> NULL" "length s < 4294967295" "0 < n"
    and "unat dest + min (length s) (unat n - 1) < 4294967295" "unat src + length s < 4294967296"
    and "unat src + length s < unat dest \<or> unat dest + min (length s) (unat n - 1) < unat src"
  shows "\<exists>m'. strlcpy dest src n m = Some (of_nat (min (length s) (unat n - 1)), m') \<and>
    cstr m' dest (take (min (length s) (unat n - 1)) s) \<and>
    (\<forall>a. unat a < unat dest \<or> unat dest + min (length s) (unat n - 1) < unat a \<longrightarrow> m' a = m a)"
  by (rule strlcpy_prefix [OF assms(1-5) refl assms(6-8)]) blast

theorem strlcpy_copies_prefix_witness:
  "\<exists>m'. strlcpy 0x2000 0x1000 2 ((\<lambda>_. 0)(0x1000 := 104, 0x1001 := 105)) = Some (1, m') \<and> cstr m' 0x2000 [104]"
  using strlcpy_copies_prefix [of "(\<lambda>_. 0)(0x1000 := 104, 0x1001 := 105)" "0x1000" "[104, 105]" "0x2000" 2]
  by (auto simp: cstr.simps)

text \<open>
  C37: \<open>memmove\<close>, which copies upwards like \<open>memcpy\<close>, is equivalent to a move that reads the whole
  source before it writes exactly when the destination does not start inside the source
  behind its first byte; otherwise some contents are not moved but repeated.
\<close>

theorem memmove_moves_iff:
  assumes "d \<noteq> NULL" "s \<noteq> NULL" "n \<noteq> 0" "unat d + unat n \<le> 4294967296" "unat s + unat n \<le> 4294967296"
  shows "(\<forall>m. memmove d s n m = (d, moved d s (unat n) m)) \<longleftrightarrow> d \<le> s \<or> unat s + unat n \<le> unat d"
  using moves_iff [of "unat n" d s] assms by (simp add: memmove_def memcpy_def unat_gt_0)

theorem memmove_moves_iff_witness:
  "(\<forall>m. memmove 0x1000 0x1001 9 m = (0x1000, moved 0x1000 0x1001 9 m)) \<and>
   \<not> (\<forall>m. memmove 0x1001 0x1000 9 m = (0x1001, moved 0x1001 0x1000 9 m))"
  using memmove_moves_iff [of "0x1000" "0x1001" 9] memmove_moves_iff [of "0x1001" "0x1000" 9] by simp

text \<open>
  \<open>memcmp\<close> looks at the first byte only: its loop moves neither pointer, so blocks that
  agree there compare equal whatever follows.
\<close>

theorem memcmp_first_byte:
  assumes "p \<noteq> NULL" "q \<noteq> NULL" "n \<noteq> 0"
  shows "memcmp p q n m = (if m p = m q then 0 else if sint (m q) < sint (m p) then 1 else - 1)"
  using assms by (simp add: memcmp_def memcmp_loop_first unat_gt_0)

theorem memcmp_first_byte_witness:
  "memcmp 0x1000 0x2000 2 ((\<lambda>_. 7)(0x1001 := 1, 0x2001 := 2)) = 0"
  using memcmp_first_byte [of "0x1000" "0x2000" 2 "(\<lambda>_. 7)(0x1001 := 1, 0x2001 := 2)"] by simp

text \<open>
  \<open>strcmp\<close> does not see a difference in the last character: both pointers have moved
  past it when the loop ends, to the two terminators.
\<close>

theorem strcmp_ignores_last_char:
  assumes "cstr m p (xs @ [a])" "cstr m q (xs @ [b])"
  shows "strcmp p q m = Some 0"
  by (rule strcmp_last_char [OF assms])

theorem strcmp_ignores_last_char_witness:
  "strcmp 0x1000 0x2000 ((\<lambda>_. 0)(0x1000 := 104, 0x1001 := 97, 0x2000 := 104, 0x2001 := 98)) = Some 0"
  using strcmp_ignores_last_char [of "(\<lambda>_. 0)(0x1000 := 104, 0x1001 := 97, 0x2000 := 104, 0x2001 := 98)"
      "0x1000" "[104]" 97 "0x2000" 98] by simp

section \<open>The page allocator\<close>

definition small_pool :: mm where
  "small_pool = \<lparr>kernel_pool = \<lparr>slock = 1, bm = \<lparr>bit_count = 8, bits = \<lambda>_. 0\<rparr>, base = 0xC0101000\<rparr>,
     mem = \<lambda>_. 7, klog = []\<rparr>"

lemma small_pool: "pool_inv small_pool" "taken small_pool = {}"
  by (simp_all add: small_pool_def pool_inv_def taken_def bit_at_def)

text \<open>
  C6: Whatever sequence of allocations and releases of blocks it was given a client makes, the
  calls return, the blocks it holds are pairwise disjoint, and the allocated pages are
  exactly those of its blocks and those others held at the start.
\<close>

theorem allocator_blocks_disjoint:
  assumes "pool_inv s"
  shows "\<exists>t live. client_run mm_kget_pages mm_kfree_pages ops (s, []) = Inr (t, live) \<and> pool_inv t \<and>
    disjoint_blocks live \<and> taken t = taken s \<union> block_pages live \<and> taken s \<inter> block_pages live = {}"
  using kpages.client_blocks [OF assms, of "[]" "taken s" ops] by simp

theorem allocator_blocks_disjoint_witness:
  "\<exists>t live. client_run mm_kget_pages mm_kfree_pages [Get 2 1, Get 0 2, Free 0] (small_pool, []) =
    Inr (t, live) \<and> disjoint_blocks live"
  using allocator_blocks_disjoint [OF small_pool(1), of "[Get 2 1, Get 0 2, Free 0]"] by blast

text \<open>
  A non-null result of \<open>mm_kget_pages\<close> is a page-aligned block of pages that were free and
  are allocated now, and with \<open>PF_ZERO\<close> exactly its bytes are cleared; without it no byte
  changes.
\<close>

theorem kget_gives_fresh_pages:
  assumes "pool_inv s" "mm_kget_pages pf c s = Inr (p, t)" "p \<noteq> NULL"
  shows "pool_inv t \<and> unat p mod 4096 = 0 \<and> pages_at p c \<inter> taken s = {} \<and>
    taken t = taken s \<union> pages_at p c \<and>
    (\<forall>a. mem t a = (if pf AND PF_ZERO \<noteq> 0 \<and> unat p \<le> unat a \<and> unat a < unat p + unat c * 4096
                    then 0 else mem s a))"
  using kget_fresh [OF assms] kget_mem [OF assms] by blast

theorem kget_gives_fresh_pages_witness:
  "\<exists>p t. mm_kget_pages PF_ZERO 3 small_pool = Inr (p, t) \<and>
    (p = NULL \<or> (unat p mod 4096 = 0 \<and> taken t = pages_at p 3 \<and> mem t p = 0))"
proof -
  obtain p t where g: "mm_kget_pages PF_ZERO 3 small_pool = Inr (p, t)"
    by (rule kget_returns [OF small_pool(1)])
  show ?thesis
  proof (cases "p = NULL")
    case False
    show ?thesis
      using kget_gives_fresh_pages [OF small_pool(1) g False] g small_pool(2) by auto
  qed (use g in blast)
qed

text \<open>
  \<open>mm_kfree_pages\<close> releases exactly the pages of a range that lies inside the pool,
  allocated or not, and ignores any other range, also where its end wraps around.
\<close>

theorem kfree_exact:
  assumes "pool_inv s"
  shows "\<exists>t. mm_kfree_pages p c s = Inr t \<and> pool_inv t \<and> mem t = mem s \<and>
    taken t = (if pool_base_page s \<le> unat p div 4096 \<and> unat p div 4096 < pool_base_page s + pool_pages s \<and>
        unat p div 4096 + unat c \<le> pool_base_page s + pool_pages s
      then taken s - pages_at p c else taken s)"
  by (rule kfree_block [OF assms, of p c]) blast

theorem kfree_exact_witness:
  "\<exists>t. mm_kfree_pages 0xC0102000 0xFFFFFFFF small_pool = Inr t \<and> taken t = {}"
  using kfree_exact [OF small_pool(1), of "0xC0102000" "0xFFFFFFFF"] small_pool(2) by (auto split: if_splits)

text \<open>
  On a machine with more than 1 MB and less than 1 GB of memory \<open>mm_init\<close> succeeds: the
  pool gets all pages above the first megabyte but those of its own bitmap, all free.
\<close>

theorem mm_init_makes_pool:
  assumes "256 < unat n" "unat n < 262144"
  shows "\<exists>t. mm_init buf n s = Inr t \<and> pool_inv t \<and> taken t = {} \<and>
    pool_base_page t = 786688 + bitmap_pages (unat n - 256) \<and>
    pool_pages t = unat n - 256 - bitmap_pages (unat n - 256)"
  by (rule mm_init_ok [OF assms, of buf s]) blast

theorem mm_init_makes_pool_witness:
  "\<exists>t. mm_init \<lparr>bit_count = 1, bits = (\<lambda>_. 9)\<rparr> 16384 small_pool = Inr t \<and> taken t = {} \<and> pool_pages t = 16127"
  using mm_init_makes_pool [of 16384 "\<lparr>bit_count = 1, bits = (\<lambda>_. 9)\<rparr>" small_pool]
  by (auto simp: bitmap_pages_def)

end
