(* ===== verification/Sched.thy ===== *)
theory Sched
  imports Linked_List Mm
begin

text \<open>
  Tasks and the scheduler: \<open>kernel/sched.h\<close> and \<open>kernel/sched.c\<close>, with the semaphore
  state of \<open>kernel/sync.h\<close> and the flags of \<open>kernel/interrupt.c\<close> they share a kernel
  with.

  A task is named by the address of its \<open>task_struct\<close>, the first bytes of its page. The
  fields of the task structures are one function on addresses, the list nodes inside
  them are nodes of the component \<open>Linked_List\<close>, and the raw bytes of the pages (the
  initial stacks) are those of the allocator's memory.

  The global lists and the two nodes of a task are the type \<open>node\<close>; \<open>list_entry\<close> on a
  node that lies in no task is a \<open>Fault\<close>. The addresses of \<open>task_exit\<close> and
  \<open>switch_initial\<close> are fixed by the linker and are fields of the state.
\<close>

section \<open>State\<close>

datatype node = ReadyHead nat | AllHead | WaitHead u32 | AllNode u32 | QNode u32 | NullNode

datatype task_status = TASK_RUNNING | TASK_READY | TASK_BLOCKED | TASK_DYING

record task_struct =
  pid :: i32
  status :: task_status
  tname :: "u8 list"
  sp :: u32
  priority :: i32
  time_slice_init :: i32
  time_slice_res :: i32
  pg_dir :: u32
  magic :: u32

record semaphore =
  sema_slock :: i8
  count :: i32

record kernel =
  tasks :: "u32 \<Rightarrow> task_struct"
  links :: "node links"
  pid_slock :: i8
  list_slock :: i8
  init_task :: u32
  next_pid :: i32
  current :: u32
  pages :: mm
  semas :: "u32 \<Rightarrow> semaphore"
  intr_on :: bool
  in_interrupt_flag :: bool
  sched_on_return :: bool
  addr_task_exit :: u32
  addr_switch_initial :: u32

abbreviation (input) TASK_MAGIC :: u32 where "TASK_MAGIC \<equiv> 0xae5f83d2"
abbreviation (input) PRIO_HIGH :: nat where "PRIO_HIGH \<equiv> 0"
abbreviation (input) PRIO_DEFAULT :: nat where "PRIO_DEFAULT \<equiv> 31"
abbreviation (input) PRIO_LOW :: nat where "PRIO_LOW \<equiv> 63"
abbreviation (input) PRIO_NUM :: nat where "PRIO_NUM \<equiv> 64"

abbreviation (input) sizeof_kernel_proc_stack :: u32 where "sizeof_kernel_proc_stack \<equiv> 12"
abbreviation (input) sizeof_switch_frame :: u32 where "sizeof_switch_frame \<equiv> 28"

definition valid_priority :: "i32 \<Rightarrow> bool" where
  "valid_priority p \<longleftrightarrow> int PRIO_HIGH \<le> sint p \<and> sint p \<le> int PRIO_LOW"

definition valid_task :: "u32 \<Rightarrow> kernel \<Rightarrow> bool" where
  "valid_task tsk s \<longleftrightarrow> magic (tasks s tsk) = TASK_MAGIC"

definition list_entry :: "node \<Rightarrow> u32 result" where
  "list_entry n = (case n of QNode t \<Rightarrow> Inr t | _ \<Rightarrow> Inl Fault)"

definition upd_task :: "u32 \<Rightarrow> (task_struct \<Rightarrow> task_struct) \<Rightarrow> kernel \<Rightarrow> kernel" where
  "upd_task t f s = s\<lparr>tasks := (tasks s)(t := f (tasks s t))\<rparr>"

definition upd_links :: "(node links \<Rightarrow> node links) \<Rightarrow> kernel \<Rightarrow> kernel" where
  "upd_links f s = s\<lparr>links := f (links s)\<rparr>"

definition lock_list :: "kernel \<Rightarrow> kernel result" where
  "lock_list s = bindE (spin_lock (list_slock s)) (\<lambda>l. Inr (s\<lparr>list_slock := l\<rparr>))"

definition unlock_list :: "kernel \<Rightarrow> kernel" where
  "unlock_list s = s\<lparr>list_slock := spin_unlock (list_slock s)\<rparr>"

section \<open>Creating tasks\<close>

text \<open>A zeroed task structure: what \<open>memset\<close> leaves, field by field.\<close>

definition zero_task :: task_struct where
  "zero_task = \<lparr>pid = 0, status = TASK_RUNNING, tname = replicate 16 0, sp = 0, priority = 0,
     time_slice_init = 0, time_slice_res = 0, pg_dir = 0, magic = 0\<rparr>"

definition clear_task :: "u32 \<Rightarrow> kernel \<Rightarrow> kernel" where
  "clear_task tsk s =
     upd_links (\<lambda>m. \<lparr>lprev = (lprev m)(AllNode tsk := NullNode, QNode tsk := NullNode),
                     lnext = (lnext m)(AllNode tsk := NullNode, QNode tsk := NullNode)\<rparr>)
       (upd_task tsk (\<lambda>_. zero_task) s)"

text \<open>\<open>strlcpy\<close> into the zeroed 16 bytes of \<open>name\<close>.\<close>

definition task_name :: "u8 list \<Rightarrow> u8 list" where
  "task_name nm = take 15 nm @ replicate (16 - length (take 15 nm)) 0"

definition allocate_pid :: "kernel \<Rightarrow> (i32 \<times> kernel) result" where
  "allocate_pid s = bindE (spin_lock (pid_slock s)) (\<lambda>l.
     let s = s\<lparr>pid_slock := l\<rparr>;
         s = s\<lparr>next_pid := next_pid s + 1\<rparr>;
         s = s\<lparr>pid_slock := spin_unlock (pid_slock s)\<rparr>
     in Inr (next_pid s, s))"

definition task_struct_init :: "u32 \<Rightarrow> u8 list option \<Rightarrow> i32 \<Rightarrow> kernel \<Rightarrow> kernel result" where
  "task_struct_init tsk name prio s =
     (case name of
        None \<Rightarrow> Inr s
      | Some nm \<Rightarrow>
          if tsk = NULL \<or> \<not> valid_priority prio then Inr s
          else
            (let s = clear_task tsk s;
                 s = upd_task tsk (\<lambda>t. t\<lparr>status := TASK_BLOCKED, sp := tsk + PAGE_SIZE,
                       priority := prio, magic := TASK_MAGIC, tname := task_name nm\<rparr>) s
             in bindE (lock_list s) (\<lambda>s.
                let s = upd_links (list_add (AllNode tsk) AllHead) s;
                    s = unlock_list s
                in bindE (allocate_pid s) (\<lambda>(p, s).
                let slice = DIV_ROUND_UP prio (of_nat PRIO_DEFAULT)
                in Inr (upd_task tsk (\<lambda>t. t\<lparr>pid := p, time_slice_res := slice,
                          time_slice_init := slice\<rparr>) s)))))"

definition poke :: "u32 \<Rightarrow> u32 \<Rightarrow> kernel \<Rightarrow> kernel" where
  "poke a w s = s\<lparr>pages := (pages s)\<lparr>mem := store32 a w (mem (pages s))\<rparr>\<rparr>"

definition task_create :: "u32 \<Rightarrow> u32 \<Rightarrow> u8 list option \<Rightarrow> i32 \<Rightarrow> task_status \<Rightarrow> kernel \<Rightarrow>
    (i32 \<times> kernel) result" where
  "task_create proc params name prio st s =
     (if proc = NULL then Inr (- 1, s)
      else bindE (mm_kget_page PF_ZERO (pages s)) (\<lambda>(tsk, m).
        let s = s\<lparr>pages := m\<rparr>
        in if tsk = NULL then Inr (- 1, s)
           else bindE (task_struct_init tsk name prio (clear_task tsk s)) (\<lambda>s.
             let s = upd_task tsk (\<lambda>t. t\<lparr>sp := sp t - sizeof_kernel_proc_stack\<rparr>) s;
                 proc_stack = sp (tasks s tsk);
                 s = poke (proc_stack + 8) params s;
                 s = poke (proc_stack + 4) (addr_task_exit s) s;
                 s = poke proc_stack proc s;
                 s = upd_task tsk (\<lambda>t. t\<lparr>sp := sp t - sizeof_switch_frame\<rparr>) s;
                 switch_stack = sp (tasks s tsk);
                 s = poke (switch_stack + 16) (addr_switch_initial s) s
             in bindE (lock_list s) (\<lambda>s.
                let s = upd_links (list_add_tail (QNode tsk)
                          (ReadyHead (unat (priority (tasks s tsk))))) s;
                    s = unlock_list s;
                    s = upd_task tsk (\<lambda>t. t\<lparr>status := st\<rparr>) s
                in Inr (pid (tasks s tsk), s)))))"

section \<open>Switching\<close>

text \<open>
  \<open>switch_to\<close> on this level: the CPU runs on the stack of \<open>nxt\<close> afterwards, so \<open>current\<close>
  is \<open>nxt\<close>, and the value it returns there is the task it left. Its effect on registers
  and stacks is the theory \<open>Switch\<close>.
\<close>

definition switch_to :: "u32 \<Rightarrow> u32 \<Rightarrow> kernel \<Rightarrow> u32 \<times> kernel" where
  "switch_to cur nxt s = (cur, s\<lparr>current := nxt\<rparr>)"

text \<open>Nothing is mapped at address 0: reading the status there is a fault.\<close>

definition read_status :: "u32 \<Rightarrow> kernel \<Rightarrow> task_status result" where
  "read_status tsk s = (if tsk = NULL then Inl Fault else Inr (status (tasks s tsk)))"

definition task_sched_post_proc :: "u32 \<Rightarrow> kernel \<Rightarrow> kernel result" where
  "task_sched_post_proc prev s =
     (if prev \<noteq> NULL then Inr s
      else bindE (read_status prev s) (\<lambda>st.
        if st = TASK_DYING \<and> prev \<noteq> init_task s
        then bindE (lock_list s) (\<lambda>s.
          let s = upd_links (list_del (AllNode prev)) s;
              s = unlock_list s
          in bindE (mm_kfree_page prev (pages s)) (\<lambda>m. Inr (s\<lparr>pages := m\<rparr>)))
        else Inr s))"

definition next_task_to_run :: "kernel \<Rightarrow> (u32 \<times> kernel) result" where
  "next_task_to_run s =
     bindE (list_entry (lnext (links s) (ReadyHead PRIO_DEFAULT))) (\<lambda>nxt.
     let curr = current s
     in if status (tasks s curr) = TASK_RUNNING
        then bindE (lock_list s) (\<lambda>s.
          let s = upd_links (list_del (QNode curr)) s;
              s = upd_links (list_add_tail (QNode curr) (ReadyHead PRIO_DEFAULT)) s;
              s = unlock_list s
          in Inr (nxt, s))
        else Inr (nxt, s))"

text \<open>
  What \<open>schedule\<close> does up to and after the switch: the code after \<open>switch_to\<close> runs in
  the task switched to, in its own call of \<open>schedule\<close> or in \<open>switch_initial\<close>, and is
  the same there.
\<close>

definition schedule :: "kernel \<Rightarrow> kernel result" where
  "schedule s =
     (let curr = current s
      in bindE (next_task_to_run s) (\<lambda>(nxt, s).
        let s = s\<lparr>intr_on := False\<rparr>;
            s = upd_task nxt (\<lambda>t. t\<lparr>status := TASK_RUNNING\<rparr>) s
        in if curr \<noteq> nxt
           then (let (prev, s) = switch_to curr nxt s
                 in bindE (task_sched_post_proc prev s) (\<lambda>s. Inr (s\<lparr>intr_on := True\<rparr>)))
           else Inr (s\<lparr>intr_on := True\<rparr>)))"

definition task_exit :: "kernel \<Rightarrow> kernel result" where
  "task_exit s =
     (let curr = current s
      in bindE (lock_list s) (\<lambda>s.
        let s = upd_task curr (\<lambda>t. t\<lparr>status := TASK_DYING\<rparr>) s;
            s = upd_links (list_del (QNode curr)) s
        in schedule (unlock_list s)))"

definition task_suspend :: "u32 \<Rightarrow> node \<Rightarrow> kernel \<Rightarrow> kernel result" where
  "task_suspend tsk wait s =
     bindE (lock_list s) (\<lambda>s.
       let s = upd_task tsk (\<lambda>t. t\<lparr>status := TASK_BLOCKED\<rparr>) s;
           s = upd_links (list_del (QNode tsk)) s;
           s = upd_links (list_add (QNode tsk) wait) s
       in Inr (unlock_list s))"

definition task_resume :: "u32 \<Rightarrow> kernel \<Rightarrow> kernel result" where
  "task_resume tsk s =
     (if \<not> valid_task tsk s then Inr s
      else bindE (lock_list s) (\<lambda>s.
        let s = (if status (tasks s tsk) = TASK_BLOCKED
                 then upd_links (list_add_tail (QNode tsk) (ReadyHead (unat (priority (tasks s tsk)))))
                        (upd_task tsk (\<lambda>t. t\<lparr>status := TASK_RUNNING\<rparr>) s)
                 else s)
        in Inr (unlock_list s)))"

definition set_flag_schedule_on_return :: "kernel \<Rightarrow> kernel" where
  "set_flag_schedule_on_return s = s\<lparr>sched_on_return := True\<rparr>"

definition task_tick :: "kernel \<Rightarrow> kernel" where
  "task_tick s =
     (let curr = current s;
          s = upd_task curr (\<lambda>t. t\<lparr>time_slice_res := time_slice_res t - 1\<rparr>) s
      in if sint (time_slice_res (tasks s curr)) \<le> 0
         then upd_task curr (\<lambda>t. t\<lparr>time_slice_res := time_slice_init t\<rparr>)
                (set_flag_schedule_on_return s)
         else s)"

end
