(* ===== verification/Queues.thy ===== *)
theory Queues
  imports Sched
begin

text \<open>
  The abstract view of the kernel's lists and the invariant of the scheduler.

  \<open>Q h\<close> is the queue of tasks at the list head \<open>h\<close> (a priority level or the wait list of
  a semaphore), for the heads in \<open>H\<close>; \<open>A\<close> is the list of all tasks. \<open>lists H Q A m\<close> says
  that the pointers in \<open>m\<close> represent exactly these lists and that no task is in two
  queues. The lemmas below are the refinement of the pointer operations to operations on
  \<open>Q\<close> and \<open>A\<close>; they rest on the contract of \<open>Linked_List\<close> through its interpretation.
\<close>

section \<open>The lists behind the pointers\<close>

definition queue_heads :: "node set" where
  "queue_heads = range ReadyHead \<union> range WaitHead"

definition lists :: "node set \<Rightarrow> (node \<Rightarrow> u32 list) \<Rightarrow> u32 list \<Rightarrow> node links \<Rightarrow> bool" where
  "lists H Q A m \<longleftrightarrow> H \<subseteq> queue_heads \<and> (\<forall>h\<in>H. ring m h (map QNode (Q h))) \<and>
     (\<forall>h\<in>H. \<forall>k\<in>H. h \<noteq> k \<longrightarrow> set (Q h) \<inter> set (Q k) = {}) \<and>
     ring m AllHead (map AllNode A)"

definition unqueued :: "node set \<Rightarrow> (node \<Rightarrow> u32 list) \<Rightarrow> u32 \<Rightarrow> bool" where
  "unqueued H Q t \<longleftrightarrow> (\<forall>h\<in>H. t \<notin> set (Q h))"

lemma lists_ring: "lists H Q A m \<Longrightarrow> h \<in> H \<Longrightarrow> ring m h (map QNode (Q h))"
  by (simp add: lists_def)

lemma lists_all: "lists H Q A m \<Longrightarrow> ring m AllHead (map AllNode A)"
  by (simp add: lists_def)

lemma lists_distinct:
  assumes "lists H Q A m" shows "h \<in> H \<Longrightarrow> distinct (Q h)" "distinct A"
  using ring_distinct [OF lists_ring [OF assms]] ring_distinct [OF lists_all [OF assms]]
  by (simp_all add: distinct_map)

lemma head_not_node [simp]:
  "QNode t \<notin> queue_heads" "AllNode t \<notin> queue_heads" "AllHead \<notin> queue_heads"
  "ReadyHead p \<in> queue_heads" "WaitHead a \<in> queue_heads"
  by (auto simp: queue_heads_def)

lemma heads_not_node:
  "H \<subseteq> queue_heads \<Longrightarrow> QNode t \<notin> H" "H \<subseteq> queue_heads \<Longrightarrow> AllNode t \<notin> H"
  "H \<subseteq> queue_heads \<Longrightarrow> AllHead \<notin> H"
  using head_not_node by blast+

lemma lists_disjoint:
  assumes "lists H Q A m" "h \<in> H" "k \<in> H" "h \<noteq> k"
  shows "set (h # map QNode (Q h)) \<inter> set (k # map QNode (Q k)) = {}"
proof -
  have "set (Q h) \<inter> set (Q k) = {}" "h \<in> queue_heads" "k \<in> queue_heads"
    using assms by (auto simp: lists_def)
  with assms(4) show ?thesis by auto
qed

lemma lists_disjoint_all:
  assumes "lists H Q A m" "h \<in> H"
  shows "set (h # map QNode (Q h)) \<inter> set (AllHead # map AllNode A) = {}"
proof -
  have "h \<in> queue_heads" using assms by (auto simp: lists_def)
  then show ?thesis by auto
qed

text \<open>Changing one queue: its ring, and the frame of all the others.\<close>

lemma lists_change:
  assumes l: "lists H Q A m" and h: "h \<in> H"
    and here: "ring m' h (map QNode q)"
    and frame: "\<And>k ys. ring m k ys \<Longrightarrow> set (h # map QNode (Q h)) \<inter> set (k # ys) = {} \<Longrightarrow>
      \<forall>t \<in> set q - set (Q h). QNode t \<notin> set (k # ys) \<Longrightarrow> ring m' k ys"
    and new: "\<forall>t \<in> set q - set (Q h). unqueued H Q t"
  shows "lists H (Q(h := q)) A m'"
proof -
  have heads: "H \<subseteq> queue_heads" using l by (simp add: lists_def)
  have nq: "\<forall>t \<in> set q - set (Q h). QNode t \<notin> set (k # map QNode (Q k))" if "k \<in> H" for k
    using that heads_not_node(1) [OF heads] new by (auto simp: unqueued_def)
  have "ring m' k (map QNode ((Q(h := q)) k))" if "k \<in> H" for k
  proof (cases "k = h")
    case False
    then show ?thesis
      using frame [OF lists_ring [OF l that] lists_disjoint [OF l h that] nq [OF that]] by simp
  qed (simp add: here)
  moreover have "ring m' AllHead (map AllNode A)"
    using h heads by (intro frame [OF lists_all [OF l] lists_disjoint_all [OF l h]]) auto
  moreover have "set q \<inter> set (Q k) = {}" if "k \<in> H" "k \<noteq> h" for k
  proof -
    have "set (Q h) \<inter> set (Q k) = {}" using l h that by (auto simp: lists_def)
    then show ?thesis using new that(1) by (auto simp: unqueued_def)
  qed
  ultimately show ?thesis using l heads by (auto simp: lists_def)
qed

lemma lists_enqueue:
  assumes "lists H Q A m" "h \<in> H" "unqueued H Q t"
  shows "lists H (Q(h := Q h @ [t])) A (list_add_tail (QNode t) h m)"
    and "lists H (Q(h := t # Q h)) A (list_add (QNode t) h m)"
proof -
  have "h \<in> queue_heads" using assms(1,2) by (auto simp: lists_def)
  then have n: "QNode t \<notin> set (h # map QNode (Q h))"
    using assms(2,3) by (auto simp: unqueued_def)
  have t: "t \<notin> set (Q h)" using assms(2,3) by (simp add: unqueued_def)
  note r = lists_ring [OF assms(1,2)]
  show "lists H (Q(h := Q h @ [t])) A (list_add_tail (QNode t) h m)"
    using assms(3) t dl.rep_add_tail [OF r n] dl.rep_add_tail_frame [OF r]
    by (intro lists_change [OF assms(1,2)]) auto
  show "lists H (Q(h := t # Q h)) A (list_add (QNode t) h m)"
    using assms(3) t dl.rep_add [OF r n] dl.rep_add_frame [OF r]
    by (intro lists_change [OF assms(1,2)]) auto
qed

lemma lists_dequeue:
  assumes "lists H Q A m" "h \<in> H" "t \<in> set (Q h)"
  shows "lists H (Q(h := remove1 t (Q h))) A (list_del (QNode t) m)"
proof -
  obtain xs ys where q: "Q h = xs @ t # ys" using assms(3) by (meson split_list)
  have "distinct (Q h)" using lists_distinct [OF assms(1)] assms(2) by simp
  then have rm: "remove1 t (Q h) = xs @ ys" by (simp add: q remove1_append)
  have r: "ring m h (map QNode xs @ QNode t # map QNode ys)"
    using lists_ring [OF assms(1,2)] by (simp add: q)
  show ?thesis
    unfolding rm
  proof (rule lists_change [OF assms(1,2)])
    show "ring (list_del (QNode t) m) h (map QNode (xs @ ys))"
      using dl.rep_del [OF r] by simp
    show "ring (list_del (QNode t) m) k zs"
      if "ring m k zs" "set (h # map QNode (Q h)) \<inter> set (k # zs) = {}" for k zs
      using that(2) by (intro dl.rep_del_frame [OF r _ that(1)]) (auto simp: q)
  qed (auto simp: q)
qed

lemma unqueued_dequeue:
  assumes "lists H Q A m" "h \<in> H" "t \<in> set (Q h)"
  shows "unqueued H (Q(h := remove1 t (Q h))) t"
proof -
  have "distinct (Q h)" using lists_distinct [OF assms(1)] assms(2) by simp
  moreover have "k \<in> H \<Longrightarrow> k \<noteq> h \<Longrightarrow> t \<notin> set (Q k)" for k
  proof -
    assume "k \<in> H" "k \<noteq> h"
    then have "set (Q k) \<inter> set (Q h) = {}" using assms(1,2) unfolding lists_def by blast
    then show "t \<notin> set (Q k)" using assms(3) by blast
  qed
  ultimately show ?thesis by (auto simp: unqueued_def)
qed

text \<open>A task that is moved: deleted where it is, then appended to or pushed on a queue.\<close>

lemma lists_requeue:
  assumes "lists H Q A m" "h \<in> H" "t \<in> set (Q h)" "k \<in> H"
  shows "lists H ((Q(h := remove1 t (Q h)))(k := (Q(h := remove1 t (Q h))) k @ [t])) A
      (list_add_tail (QNode t) k (list_del (QNode t) m))"
    and "lists H ((Q(h := remove1 t (Q h)))(k := t # (Q(h := remove1 t (Q h))) k)) A
      (list_add (QNode t) k (list_del (QNode t) m))"
  by (intro lists_enqueue lists_dequeue unqueued_dequeue assms; fact)+

lemma lists_new_task:
  assumes "lists H Q A m" "t \<notin> set A"
  shows "lists H Q (t # A) (list_add (AllNode t) AllHead m)"
proof -
  have heads: "H \<subseteq> queue_heads" using assms(1) by (simp add: lists_def)
  have "ring (list_add (AllNode t) AllHead m) h (map QNode (Q h))" if "h \<in> H" for h
    using that heads_not_node(2) [OF heads] lists_disjoint_all [OF assms(1) that]
    by (intro dl.rep_add_frame [OF lists_all [OF assms(1)] lists_ring [OF assms(1) that]]) auto
  moreover have "ring (list_add (AllNode t) AllHead m) AllHead (map AllNode (t # A))"
    using dl.rep_add [OF lists_all [OF assms(1)], of "AllNode t"] assms(2) by auto
  ultimately show ?thesis using assms(1) by (auto simp: lists_def)
qed

text \<open>Clearing the nodes of a page no list runs through.\<close>

lemma lists_cong:
  assumes "lists H Q A m"
    and "\<And>n. n \<notin> X \<Longrightarrow> lnext m' n = lnext m n \<and> lprev m' n = lprev m n"
    and "X \<subseteq> {AllNode t, QNode t}" "t \<notin> set A" "unqueued H Q t"
  shows "lists H Q A m'"
proof -
  have heads: "H \<subseteq> queue_heads" using assms(1) by (simp add: lists_def)
  have "ring m' h (map QNode (Q h))" if "h \<in> H" for h
    using that heads_not_node [OF heads] assms(3,5)
    by (intro ring_cong [THEN iffD2, OF assms(2) lists_ring [OF assms(1) that]])
      (auto simp: unqueued_def)
  moreover have "ring m' AllHead (map AllNode A)"
    using assms(3,4) by (intro ring_cong [THEN iffD2, OF assms(2) lists_all [OF assms(1)]]) auto
  ultimately show ?thesis using assms(1) by (simp add: lists_def)
qed

lemma lists_head_init:
  assumes "lists H Q A m" "h \<notin> H" "h \<in> queue_heads"
  shows "lists (insert h H) (Q(h := [])) A (list_head_init h m)"
proof -
  have heads: "H \<subseteq> queue_heads" using assms(1) by (simp add: lists_def)
  have "ring (list_head_init h m) k (map QNode (Q k))" if "k \<in> H" for k
    using that assms(2,3) by (intro dl.rep_init_frame lists_ring [OF assms(1)]) auto
  moreover have "ring (list_head_init h m) AllHead (map AllNode A)"
    using assms(3) by (intro dl.rep_init_frame lists_all [OF assms(1)]) auto
  ultimately show ?thesis
    using assms heads dl.rep_init [of h m] by (auto simp: lists_def)
qed

end
