(* ===== verification/Sched_Inv.thy ===== *)
theory Sched_Inv
  imports Queues
begin

text \<open>
  The invariant of the scheduler and what each operation of \<open>Sched\<close> does to the abstract
  queues: the operations return, keep the invariant, and change exactly the queues and
  fields their code names. Together with \<open>Queues\<close> this is a refinement of the pointer
  code to operations on lists of tasks.
\<close>

section \<open>The invariant\<close>

text \<open>
  A task on the list of all tasks is a page-aligned address whose structure carries the
  magic and a valid priority; its page is allocated, except for the first task, which
  lies on the boot stack below the pool.
\<close>

definition task_ok :: "kernel \<Rightarrow> u32 \<Rightarrow> bool" where
  "task_ok s t \<longleftrightarrow> t \<noteq> NULL \<and> unat t mod 4096 = 0 \<and> valid_task t s \<and>
     valid_priority (priority (tasks s t)) \<and>
     (if t = init_task s then unat t div 4096 < pool_base_page (pages s)
      else unat t div 4096 \<in> taken (pages s))"

definition kernel_inv :: "node set \<Rightarrow> (node \<Rightarrow> u32 list) \<Rightarrow> u32 list \<Rightarrow> kernel \<Rightarrow> bool" where
  "kernel_inv H Q A s \<longleftrightarrow> lists H Q A (links s) \<and> list_slock s = 1 \<and> pid_slock s = 1 \<and>
     (\<forall>p<PRIO_NUM. ReadyHead p \<in> H) \<and> (\<forall>h\<in>H. set (Q h) \<subseteq> set A) \<and>
     pool_inv (pages s) \<and> (\<forall>t\<in>set A. task_ok s t)"

lemma kernel_invD:
  assumes "kernel_inv H Q A s"
  shows "lists H Q A (links s)" "list_slock s = 1" "pid_slock s = 1"
    "p < 64 \<Longrightarrow> ReadyHead p \<in> H" "h \<in> H \<Longrightarrow> t \<in> set (Q h) \<Longrightarrow> t \<in> set A"
    "pool_inv (pages s)" "t \<in> set A \<Longrightarrow> task_ok s t" "t \<in> set A \<Longrightarrow> t \<noteq> NULL"
    "t \<in> set A \<Longrightarrow> valid_task t s"
  using assms by (auto simp: kernel_inv_def task_ok_def)

lemma kernel_inv_change:
  assumes "kernel_inv H Q A s" "lists H Q' A (links s')"
    and "list_slock s' = 1" "pid_slock s' = 1" "pages s' = pages s" "init_task s' = init_task s"
    and "\<And>h. h \<in> H \<Longrightarrow> set (Q' h) \<subseteq> set A"
    and "\<And>t. t \<in> set A \<Longrightarrow> magic (tasks s' t) = magic (tasks s t) \<and>
      priority (tasks s' t) = priority (tasks s t)"
  shows "kernel_inv H Q' A s'"
  using assms by (simp add: kernel_inv_def task_ok_def valid_task_def)

lemma kernel_inv_same:
  assumes "kernel_inv H Q A s" "links s' = links s"
    and "list_slock s' = 1" "pid_slock s' = 1" "pages s' = pages s" "init_task s' = init_task s"
    and "\<And>t. t \<in> set A \<Longrightarrow> magic (tasks s' t) = magic (tasks s t) \<and>
      priority (tasks s' t) = priority (tasks s t)"
  shows "kernel_inv H Q A s'"
  using assms by (intro kernel_inv_change [OF assms(1)]) (auto dest: kernel_invD)

lemma upd_simps [simp]:
  "links (upd_task t f s) = links s" "links (upd_links g s) = g (links s)"
  "tasks (upd_links g s) = tasks s" "tasks (upd_task t f s) = (tasks s)(t := f (tasks s t))"
  "list_slock (upd_task t f s) = list_slock s" "list_slock (upd_links g s) = list_slock s"
  "pid_slock (upd_task t f s) = pid_slock s" "pid_slock (upd_links g s) = pid_slock s"
  "pages (upd_task t f s) = pages s" "pages (upd_links g s) = pages s"
  "init_task (upd_task t f s) = init_task s" "init_task (upd_links g s) = init_task s"
  "current (upd_task t f s) = current s" "current (upd_links g s) = current s"
  "semas (upd_task t f s) = semas s" "semas (upd_links g s) = semas s"
  "next_pid (upd_task t f s) = next_pid s" "next_pid (upd_links g s) = next_pid s"
  "intr_on (upd_task t f s) = intr_on s" "intr_on (upd_links g s) = intr_on s"
  "sched_on_return (upd_task t f s) = sched_on_return s"
  "sched_on_return (upd_links g s) = sched_on_return s"
  "addr_task_exit (upd_task t f s) = addr_task_exit s"
  "addr_task_exit (upd_links g s) = addr_task_exit s"
  "addr_switch_initial (upd_task t f s) = addr_switch_initial s"
  "addr_switch_initial (upd_links g s) = addr_switch_initial s"
  by (simp_all add: upd_task_def upd_links_def)

text \<open>Where the list lock is free, a section under it is its body.\<close>

lemma lock_list_free [simp]: "list_slock s = 1 \<Longrightarrow> lock_list s = Inr (s\<lparr>list_slock := 0\<rparr>)"
  by (simp add: lock_list_def)

lemma lock_list_held: "list_slock s = 0 \<Longrightarrow> lock_list s = Inl Spin"
  by (simp add: lock_list_def)

lemma unlock_list_simps [simp]:
  "list_slock (unlock_list s) = 1" "links (unlock_list s) = links s"
  "tasks (unlock_list s) = tasks s" "pages (unlock_list s) = pages s"
  "pid_slock (unlock_list s) = pid_slock s" "init_task (unlock_list s) = init_task s"
  "current (unlock_list s) = current s" "semas (unlock_list s) = semas s"
  "next_pid (unlock_list s) = next_pid s" "intr_on (unlock_list s) = intr_on s"
  "sched_on_return (unlock_list s) = sched_on_return s"
  "addr_task_exit (unlock_list s) = addr_task_exit s"
  "addr_switch_initial (unlock_list s) = addr_switch_initial s"
  by (simp_all add: unlock_list_def)

section \<open>Choosing the next task\<close>

abbreviation (input) RUNQ :: node where "RUNQ \<equiv> ReadyHead PRIO_DEFAULT"

text \<open>A task leaves the queue \<open>h\<close> for the tail of the queue \<open>k\<close>.\<close>

definition to_tail :: "node \<Rightarrow> node \<Rightarrow> u32 \<Rightarrow> (node \<Rightarrow> u32 list) \<Rightarrow> node \<Rightarrow> u32 list" where
  "to_tail h k t Q = (let Q1 = Q(h := remove1 t (Q h)) in Q1(k := Q1 k @ [t]))"

lemma to_tail_same [simp]: "to_tail h h t Q = Q(h := remove1 t (Q h) @ [t])"
  by (simp add: to_tail_def Let_def)

lemma to_tail_sets:
  assumes "t \<in> set (Q h)" "distinct (Q h)"
  shows "set (to_tail h k t Q x) = (if x = k then insert t (set (Q k)) else
           if x = h then set (Q h) - {t} else set (Q x))"
  using assms by (auto simp: to_tail_def Let_def)

lemma first_in_queue:
  assumes "lists H Q A m" "h \<in> H" "Q h \<noteq> []"
  shows "lnext m h = QNode (hd (Q h))"
  using ring_next [OF lists_ring [OF assms(1,2)]] assms(3) by (simp add: hd_map)

lemma next_task_spec:
  assumes inv: "kernel_inv H Q A s" and ne: "Q RUNQ \<noteq> []"
    and run: "status (tasks s (current s)) = TASK_RUNNING \<Longrightarrow> h \<in> H \<and> current s \<in> set (Q h)"
  obtains s' where "next_task_to_run s = Inr (hd (Q RUNQ), s')"
    "kernel_inv H (if status (tasks s (current s)) = TASK_RUNNING
       then to_tail h RUNQ (current s) Q else Q) A s'"
    "\<exists>g. s' = upd_links g s"
proof -
  note D = kernel_invD [OF inv]
  have R: "RUNQ \<in> H" by (simp add: D(4))
  have first: "list_entry (lnext (links s) RUNQ) = Inr (hd (Q RUNQ))"
    using first_in_queue [OF D(1) R ne] by (simp add: list_entry_def)
  show ?thesis
  proof (cases "status (tasks s (current s)) = TASK_RUNNING")
    case True
    with run have h: "h \<in> H" "current s \<in> set (Q h)" by auto
    define g where "g m = list_add_tail (QNode (current s)) RUNQ (list_del (QNode (current s)) m)" for m
    have "next_task_to_run s = Inr (hd (Q RUNQ), upd_links g s)"
      using first True D(2)
      by (simp add: next_task_to_run_def Let_def g_def upd_links_def unlock_list_def)
    moreover have "lists H (to_tail h RUNQ (current s) Q) A (links (upd_links g s))"
      using lists_requeue(1) [OF D(1) h R] by (simp add: to_tail_def Let_def g_def)
    then have "kernel_inv H (to_tail h RUNQ (current s) Q) A (upd_links g s)"
    proof (rule kernel_inv_change [OF inv])
      have "current s \<in> set A" using D(5) [OF h] .
      moreover have "distinct (Q h)" using lists_distinct [OF D(1)] h(1) by simp
      ultimately show "set (to_tail h RUNQ (current s) Q x) \<subseteq> set A" if "x \<in> H" for x
        using that h D(5) R by (auto simp: to_tail_sets split: if_splits)
    qed (simp_all add: D)
    ultimately show ?thesis using that True by auto
  next
    case False
    have id: "upd_links (\<lambda>m. m) s = s" by (simp add: upd_links_def)
    show ?thesis
    proof (rule that)
      show "next_task_to_run s = Inr (hd (Q RUNQ), s)"
        using first False by (simp add: next_task_to_run_def Let_def)
    qed (use inv False id in \<open>auto intro: exI [of _ "\<lambda>m. m"]\<close>)
  qed
qed


section \<open>Switching\<close>

lemma post_proc_ignores [simp]: "prev \<noteq> NULL \<Longrightarrow> task_sched_post_proc prev s = Inr s"
  by (simp add: task_sched_post_proc_def)

definition running :: "kernel \<Rightarrow> bool" where
  "running s \<longleftrightarrow> status (tasks s (current s)) = TASK_RUNNING"

text \<open>The state after a switch, in closed form; \<open>g\<close> is the change of the queues.\<close>

definition switched :: "u32 \<Rightarrow> (node links \<Rightarrow> node links) \<Rightarrow> kernel \<Rightarrow> kernel" where
  "switched nxt g s =
     (upd_task nxt (\<lambda>t. t\<lparr>status := TASK_RUNNING\<rparr>) (upd_links g s))\<lparr>current := nxt, intr_on := True\<rparr>"

lemma switched_simps [simp]:
  "current (switched n g s) = n" "intr_on (switched n g s)" "links (switched n g s) = g (links s)"
  "tasks (switched n g s) = (tasks s)(n := (tasks s n)\<lparr>status := TASK_RUNNING\<rparr>)"
  "pages (switched n g s) = pages s" "list_slock (switched n g s) = list_slock s"
  "pid_slock (switched n g s) = pid_slock s" "init_task (switched n g s) = init_task s"
  "semas (switched n g s) = semas s" "next_pid (switched n g s) = next_pid s"
  "addr_task_exit (switched n g s) = addr_task_exit s"
  "addr_switch_initial (switched n g s) = addr_switch_initial s"
  by (simp_all add: switched_def)

lemma switched_running [simp]: "running (switched n g s)"
  by (simp add: running_def)

lemma schedule_spec:
  assumes inv: "kernel_inv H Q A s" and ne: "Q RUNQ \<noteq> []" and cur: "current s \<noteq> NULL"
    and run: "running s \<Longrightarrow> h \<in> H \<and> current s \<in> set (Q h)"
  obtains g where "schedule s = Inr (switched (hd (Q RUNQ)) g s)"
    "kernel_inv H (if running s then to_tail h RUNQ (current s) Q else Q) A
       (switched (hd (Q RUNQ)) g s)"
proof -
  let ?n = "hd (Q RUNQ)"
  let ?Q = "if running s then to_tail h RUNQ (current s) Q else Q"
  obtain s' g where n: "next_task_to_run s = Inr (?n, s')" and inv': "kernel_inv H ?Q A s'"
    and g: "s' = upd_links g s"
    using next_task_spec [OF inv ne] run unfolding running_def by metis
  have "schedule s = Inr (switched ?n g s)"
    using cur by (simp add: schedule_def n g switch_to_def Let_def switched_def upd_task_def upd_links_def)
  moreover have "kernel_inv H ?Q A (switched ?n g s)"
    using kernel_invD(2,3) [OF inv']
    by (intro kernel_inv_same [OF inv']) (auto simp: g)
  ultimately show ?thesis by (rule that)
qed

lemma schedule_not_running:
  assumes "kernel_inv H Q A s" "Q RUNQ \<noteq> []" "current s \<noteq> NULL" "\<not> running s"
  obtains g where "schedule s = Inr (switched (hd (Q RUNQ)) g s)"
    "kernel_inv H Q A (switched (hd (Q RUNQ)) g s)"
proof -
  obtain g where "schedule s = Inr (switched (hd (Q RUNQ)) g s)"
    "kernel_inv H (if running s then to_tail RUNQ RUNQ (current s) Q else Q) A
       (switched (hd (Q RUNQ)) g s)"
    using schedule_spec [OF assms(1-3), of RUNQ] assms(4) by blast
  then show ?thesis using assms(4) by (intro that) simp_all
qed

text \<open>
  The locks do not disable interrupts: a timer interrupt that schedules while the
  interrupted task holds the list lock spins for ever.
\<close>

lemma schedule_locked:
  assumes "list_slock s = 0" "running s" "lnext (links s) RUNQ = QNode t"
  shows "schedule s = Inl Spin"
  using assms
  by (simp add: schedule_def next_task_to_run_def running_def list_entry_def lock_list_held)

section \<open>Ending, suspending and resuming\<close>

lemma task_exit_spec:
  assumes inv: "kernel_inv H Q A s" and h: "h \<in> H" "current s \<in> set (Q h)"
    and ne: "(Q(h := remove1 (current s) (Q h))) RUNQ \<noteq> []"
  obtains g s1 where "task_exit s = Inr (switched (hd ((Q(h := remove1 (current s) (Q h))) RUNQ)) g s1)"
    "s1 = upd_task (current s) (\<lambda>t. t\<lparr>status := TASK_DYING\<rparr>) s"
    "kernel_inv H (Q(h := remove1 (current s) (Q h))) A
       (switched (hd ((Q(h := remove1 (current s) (Q h))) RUNQ)) g s1)"
proof -
  note D = kernel_invD [OF inv]
  let ?Q = "Q(h := remove1 (current s) (Q h))"
  define s1 where "s1 = upd_task (current s) (\<lambda>t. t\<lparr>status := TASK_DYING\<rparr>) s"
  define s2 where "s2 = upd_links (list_del (QNode (current s))) s1"
  have A: "current s \<in> set A" using D(5) [OF h] .
  have eq: "task_exit s = schedule s2"
    unfolding task_exit_def Let_def s2_def s1_def upd_links_def upd_task_def unlock_list_def
    using D(2) by simp (rule arg_cong [where f = schedule], simp)
  have "lists H ?Q A (links s2)"
    using lists_dequeue [OF D(1) h] by (simp add: s2_def s1_def)
  then have inv2: "kernel_inv H ?Q A s2"
  proof (rule kernel_inv_change [OF inv])
    show "set (?Q x) \<subseteq> set A" if "x \<in> H" for x
      using that D(5) h(1) by (auto dest: set_remove1_subset [THEN subsetD] split: if_splits)
  qed (simp_all add: D s1_def s2_def)
  have dying: "\<not> running s2" by (simp add: running_def s1_def s2_def)
  have nn: "current s2 \<noteq> NULL" using D(8) [OF A] by (simp add: s1_def s2_def)
  obtain g where sch: "schedule s2 = Inr (switched (hd (?Q RUNQ)) g s2)"
    and inv3: "kernel_inv H ?Q A (switched (hd (?Q RUNQ)) g s2)"
    by (rule schedule_not_running [OF inv2 ne nn dying])
  have sw: "switched (hd (?Q RUNQ)) g s2 = switched (hd (?Q RUNQ)) (g \<circ> list_del (QNode (current s))) s1"
    by (simp add: switched_def s2_def upd_links_def upd_task_def)
  show ?thesis
  proof (rule that)
    show "task_exit s = Inr (switched (hd (?Q RUNQ)) (g \<circ> list_del (QNode (current s))) s1)"
      using eq sch by (simp only: sw)
    show "kernel_inv H ?Q A (switched (hd (?Q RUNQ)) (g \<circ> list_del (QNode (current s))) s1)"
      using inv3 by (simp only: sw)
  qed (rule s1_def)
qed

lemma task_suspend_spec:
  assumes inv: "kernel_inv H Q A s" and h: "h \<in> H" "t \<in> set (Q h)" and w: "w \<in> H"
  obtains s' g where "task_suspend t w s = Inr s'"
    "kernel_inv H ((Q(h := remove1 t (Q h)))(w := t # (Q(h := remove1 t (Q h))) w)) A s'"
    "s' = upd_links g (upd_task t (\<lambda>t. t\<lparr>status := TASK_BLOCKED\<rparr>) s)"
proof -
  note D = kernel_invD [OF inv]
  let ?Q = "(Q(h := remove1 t (Q h)))(w := t # (Q(h := remove1 t (Q h))) w)"
  define g where "g m = list_add (QNode t) w (list_del (QNode t) m)" for m
  define s' where "s' = upd_links g (upd_task t (\<lambda>t. t\<lparr>status := TASK_BLOCKED\<rparr>) s)"
  have "task_suspend t w s = Inr s'"
    using D(2) by (simp add: task_suspend_def Let_def s'_def g_def upd_links_def upd_task_def unlock_list_def)
  moreover have "lists H ?Q A (links s')"
    using lists_requeue(2) [OF D(1) h w] by (simp add: s'_def g_def)
  then have "kernel_inv H ?Q A s'"
  proof (rule kernel_inv_change [OF inv])
    show "set (?Q x) \<subseteq> set A" if "x \<in> H" for x
      using that D(5) h w by (auto dest: set_remove1_subset [THEN subsetD] split: if_splits)
  qed (simp_all add: D s'_def)
  ultimately show ?thesis using that s'_def by blast
qed

lemma unat_priority: "valid_priority p \<Longrightarrow> unat p < 64"
proof -
  assume "valid_priority p"
  then have "0 \<le> sint p" "sint p \<le> 63" by (simp_all add: valid_priority_def)
  then have "uint p = sint p" by (subst uint_sint) (simp add: take_bit_int_eq_self)
  then show "unat p < 64" using \<open>sint p \<le> 63\<close> by (simp add: unat_eq_nat_uint)
qed

text \<open>A blocked task in no queue goes to the tail of its level; any other is left alone.\<close>

lemma task_resume_spec:
  assumes inv: "kernel_inv H Q A s" and A: "t \<in> set A"
    and blocked: "status (tasks s t) = TASK_BLOCKED" and un: "unqueued H Q t"
  obtains s' g where "task_resume t s = Inr s'"
    "kernel_inv H (Q(ReadyHead (unat (priority (tasks s t))) :=
       Q (ReadyHead (unat (priority (tasks s t)))) @ [t])) A s'"
    "s' = upd_links g (upd_task t (\<lambda>t. t\<lparr>status := TASK_RUNNING\<rparr>) s)"
proof -
  note D = kernel_invD [OF inv]
  let ?k = "ReadyHead (unat (priority (tasks s t)))"
  define g where "g = list_add_tail (QNode t) ?k"
  define s' where "s' = upd_links g (upd_task t (\<lambda>t. t\<lparr>status := TASK_RUNNING\<rparr>) s)"
  have k: "?k \<in> H"
    using D(7) [OF A] by (intro D(4) unat_priority) (simp add: task_ok_def)
  have "task_resume t s = Inr s'"
    using D(2) D(9) [OF A] blocked
    by (simp add: task_resume_def Let_def s'_def g_def upd_links_def upd_task_def unlock_list_def)
  moreover have "lists H (Q(?k := Q ?k @ [t])) A (links s')"
    using lists_enqueue(1) [OF D(1) k un] by (simp add: s'_def g_def)
  then have "kernel_inv H (Q(?k := Q ?k @ [t])) A s'"
    by (rule kernel_inv_change [OF inv]) (use D A k in \<open>auto simp: s'_def split: if_splits\<close>)
  ultimately show ?thesis using that s'_def by blast
qed

lemma task_resume_not_blocked:
  assumes "list_slock s = 1" "status (tasks s t) \<noteq> TASK_BLOCKED"
  shows "task_resume t s = Inr s"
proof -
  have "s\<lparr>list_slock := 1\<rparr> = s" using assms(1) by simp
  then show ?thesis using assms by (simp add: task_resume_def Let_def unlock_list_def)
qed

end
