(* ===== verification/Task_Create.thy ===== *)
theory Task_Create
  imports Sched_Inv
begin

text \<open>
  Creating tasks: \<open>task_struct_init\<close> and \<open>task_create\<close> of \<open>kernel/sched.c\<close>. With a valid
  priority and a name the new task is a fresh page with a fresh pid and the stack its
  first switch expects; without them the code goes on with a zeroed task structure.
\<close>

section \<open>The task structure\<close>

definition clear_nodes :: "u32 \<Rightarrow> node links \<Rightarrow> node links" where
  "clear_nodes tsk m = \<lparr>lprev = (lprev m)(AllNode tsk := NullNode, QNode tsk := NullNode),
                        lnext = (lnext m)(AllNode tsk := NullNode, QNode tsk := NullNode)\<rparr>"

lemma clear_task_eq: "clear_task tsk s = upd_links (clear_nodes tsk) (upd_task tsk (\<lambda>_. zero_task) s)"
  by (simp add: clear_task_def clear_nodes_def [abs_def])

lemma clear_nodes_idem [simp]: "clear_nodes tsk (clear_nodes tsk m) = clear_nodes tsk m"
  by (simp add: clear_nodes_def)

lemma lists_clear:
  assumes "lists H Q A m" "t \<notin> set A" "unqueued H Q t"
  shows "lists H Q A (clear_nodes t m)"
  by (rule lists_cong [OF assms(1) _ order_refl assms(2,3)]) (simp add: clear_nodes_def)

definition slice :: "i32 \<Rightarrow> i32" where
  "slice prio = DIV_ROUND_UP prio (of_nat PRIO_DEFAULT)"

definition fresh_task :: "u32 \<Rightarrow> u8 list \<Rightarrow> i32 \<Rightarrow> i32 \<Rightarrow> task_struct" where
  "fresh_task tsk nm prio p = \<lparr>pid = p, status = TASK_BLOCKED, tname = task_name nm,
     sp = tsk + PAGE_SIZE, priority = prio, time_slice_init = slice prio,
     time_slice_res = slice prio, pg_dir = 0, magic = TASK_MAGIC\<rparr>"

definition entered :: "u32 \<Rightarrow> u8 list \<Rightarrow> i32 \<Rightarrow> kernel \<Rightarrow> kernel" where
  "entered tsk nm prio s =
     (upd_task tsk (\<lambda>_. fresh_task tsk nm prio (next_pid s + 1))
       (upd_links (\<lambda>m. list_add (AllNode tsk) AllHead (clear_nodes tsk m)) s))\<lparr>next_pid := next_pid s + 1\<rparr>"

lemma entered_simps [simp]:
  "links (entered t nm p s) = list_add (AllNode t) AllHead (clear_nodes t (links s))"
  "tasks (entered t nm p s) = (tasks s)(t := fresh_task t nm p (next_pid s + 1))"
  "next_pid (entered t nm p s) = next_pid s + 1" "pages (entered t nm p s) = pages s"
  "list_slock (entered t nm p s) = list_slock s" "pid_slock (entered t nm p s) = pid_slock s"
  "init_task (entered t nm p s) = init_task s" "current (entered t nm p s) = current s"
  "semas (entered t nm p s) = semas s" "addr_task_exit (entered t nm p s) = addr_task_exit s"
  "addr_switch_initial (entered t nm p s) = addr_switch_initial s"
  by (simp_all add: entered_def)

lemma allocate_pid_eq:
  "pid_slock s = 1 \<Longrightarrow> allocate_pid s = Inr (next_pid s + 1, s\<lparr>next_pid := next_pid s + 1\<rparr>)"
  by (simp add: allocate_pid_def Let_def)

lemma task_struct_init_eq:
  assumes "list_slock s = 1" "pid_slock s = 1" "tsk \<noteq> NULL" "valid_priority prio"
  shows "task_struct_init tsk (Some nm) prio s = Inr (entered tsk nm prio s)"
  using assms
  by (simp add: task_struct_init_def Let_def allocate_pid_eq clear_task_eq unlock_list_def
      upd_task_def upd_links_def entered_def fresh_task_def slice_def zero_task_def)

lemma task_struct_init_rejected:
  assumes "name = None \<or> tsk = NULL \<or> \<not> valid_priority prio"
  shows "task_struct_init tsk name prio s = Inr s"
  using assms by (auto simp: task_struct_init_def split: option.splits)


section \<open>The new task\<close>

text \<open>The words \<open>task_create\<close> leaves at the top of the page, below \<open>tsk + PAGE_SIZE\<close>.\<close>

definition init_stack :: "u32 \<Rightarrow> u32 \<Rightarrow> u32 \<Rightarrow> u32 \<Rightarrow> u32 \<Rightarrow> memory \<Rightarrow> memory" where
  "init_stack tsk proc params ret initial m =
     store32 (tsk + 4072) initial (store32 (tsk + 4084) proc
       (store32 (tsk + 4088) ret (store32 (tsk + 4092) params m)))"

definition created :: "u32 \<Rightarrow> u32 \<Rightarrow> u32 \<Rightarrow> u8 list \<Rightarrow> i32 \<Rightarrow> task_status \<Rightarrow> mm \<Rightarrow> kernel \<Rightarrow> kernel" where
  "created tsk proc params nm prio st m s =
     (upd_task tsk (\<lambda>t. t\<lparr>sp := tsk + 4056, status := st\<rparr>)
       (upd_links (list_add_tail (QNode tsk) (ReadyHead (unat prio))) (entered tsk nm prio s)))
     \<lparr>pages := m\<lparr>mem := init_stack tsk proc params (addr_task_exit s) (addr_switch_initial s) (mem m)\<rparr>\<rparr>"

lemma created_simps [simp]:
  "links (created tsk proc params nm prio st m s) =
     list_add_tail (QNode tsk) (ReadyHead (unat prio))
       (list_add (AllNode tsk) AllHead (clear_nodes tsk (links s)))"
  "tasks (created tsk proc params nm prio st m s) =
     (tasks s)(tsk := (fresh_task tsk nm prio (next_pid s + 1))\<lparr>sp := tsk + 4056, status := st\<rparr>)"
  "pages (created tsk proc params nm prio st m s) =
     m\<lparr>mem := init_stack tsk proc params (addr_task_exit s) (addr_switch_initial s) (mem m)\<rparr>"
  "next_pid (created tsk proc params nm prio st m s) = next_pid s + 1"
  "list_slock (created tsk proc params nm prio st m s) = list_slock s"
  "pid_slock (created tsk proc params nm prio st m s) = pid_slock s"
  "init_task (created tsk proc params nm prio st m s) = init_task s"
  "current (created tsk proc params nm prio st m s) = current s"
  "semas (created tsk proc params nm prio st m s) = semas s"
  "addr_task_exit (created tsk proc params nm prio st m s) = addr_task_exit s"
  "addr_switch_initial (created tsk proc params nm prio st m s) = addr_switch_initial s"
  by (simp_all add: created_def)

lemma upd_task_twice: "upd_task t f (upd_task t g s) = upd_task t (f \<circ> g) s"
  by (simp add: upd_task_def)

lemma clear_then_enter: "entered tsk nm prio (clear_task tsk s) = entered tsk nm prio s"
  by (simp add: entered_def clear_task_eq upd_task_def upd_links_def)

lemma entered_pages: "entered tsk nm prio (s\<lparr>pages := m\<rparr>) = (entered tsk nm prio s)\<lparr>pages := m\<rparr>"
  by (simp add: entered_def upd_task_def upd_links_def)

lemma clear_task_simps [simp]:
  "list_slock (clear_task tsk s) = list_slock s" "pid_slock (clear_task tsk s) = pid_slock s"
  by (simp_all add: clear_task_eq)

lemma task_create_eq:
  assumes "list_slock s = 1" "pid_slock s = 1" "proc \<noteq> NULL" "valid_priority prio"
    and "mm_kget_page PF_ZERO (pages s) = Inr (tsk, m)" "tsk \<noteq> NULL"
  shows "task_create proc params (Some nm) prio st s =
    Inr (next_pid s + 1, created tsk proc params nm prio st m s)"
proof -
  have init: "task_struct_init tsk (Some nm) prio (clear_task tsk (s\<lparr>pages := m\<rparr>)) =
      Inr ((entered tsk nm prio s)\<lparr>pages := m\<rparr>)"
    using assms by (simp add: task_struct_init_eq clear_then_enter entered_pages)
  show ?thesis
    unfolding task_create_def using assms(1,3,5,6)
    by (simp add: init Let_def poke_def fresh_task_def unlock_list_def upd_task_def upd_links_def
        created_def init_stack_def entered_def add.commute [of tsk])
qed

lemma init_stack_words:
  "load32 (init_stack tsk proc params ret initial m) (tsk + 4072) = initial"
  "load32 (init_stack tsk proc params ret initial m) (tsk + 4084) = proc"
  "load32 (init_stack tsk proc params ret initial m) (tsk + 4088) = ret"
  "load32 (init_stack tsk proc params ret initial m) (tsk + 4092) = params"
proof -
  show "load32 (init_stack tsk proc params ret initial m) (tsk + 4072) = initial"
    by (simp add: init_stack_def)
  show "load32 (init_stack tsk proc params ret initial m) (tsk + 4084) = proc"
    by (rule trans [OF load32_cong load32_store32_same [of _ proc m]]) (simp_all add: init_stack_def store32_def)
  show "load32 (init_stack tsk proc params ret initial m) (tsk + 4088) = ret"
    by (rule trans [OF load32_cong load32_store32_same [of _ ret m]]) (simp_all add: init_stack_def store32_def)
  show "load32 (init_stack tsk proc params ret initial m) (tsk + 4092) = params"
    by (rule trans [OF load32_cong load32_store32_same [of _ params m]]) (simp_all add: init_stack_def store32_def)
qed


section \<open>The invariant\<close>

lemma page_free:
  assumes inv: "pool_inv m" and k: "k < pool_pages m" "pool_base_page m + k \<notin> taken m"
  obtains p t where "mm_kget_page pf m = Inr (p, t)" "p \<noteq> NULL"
proof -
  obtain p t where get: "mm_kget_pages pf 1 m = Inr (p, t)" using kget_returns [OF inv] .
  have "p \<noteq> NULL"
  proof
    assume "p = NULL"
    with kget_null(5) [OF inv] get
    have "bitmap_find_first_bits_group (bm (kernel_pool m)) 0 1 False = BITMAP_ERR" by simp
    moreover have "bitmap_find_first_bits_group (bm (kernel_pool m)) 0 1 False \<noteq> BITMAP_ERR"
    proof (rule bmap.find_succeeds [of _ k])
      show "\<not> bit_at (bm (kernel_pool m)) j" if "k \<le> j" "j < k + unat (1 :: u32)" for j
        using that k by (simp add: taken_iff le_less_Suc_eq)
    qed (use k(1) in \<open>simp_all add: pool_pages_def\<close>)
    ultimately show False by simp
  qed
  then show ?thesis using that get by (simp add: mm_kget_page_def)
qed

lemma new_page:
  assumes inv: "kernel_inv H Q A s" and get: "mm_kget_page pf (pages s) = Inr (tsk, m)" and p: "tsk \<noteq> NULL"
  shows "tsk \<notin> set A" "pool_inv m" "unat tsk mod 4096 = 0" "unat tsk div 4096 \<notin> taken (pages s)"
    "taken m = insert (unat tsk div 4096) (taken (pages s))"
    "pool_base_page (pages s) \<le> unat tsk div 4096" "pool_base_page m = pool_base_page (pages s)"
    "unat tsk + 4096 < 4294967296"
proof -
  note pool = kernel_invD(6) [OF inv]
  have get': "mm_kget_pages pf 1 (pages s) = Inr (tsk, m)" using get by (simp add: mm_kget_page_def)
  have at: "pages_at tsk 1 = {unat tsk div 4096}" by (auto simp: pages_at_def)
  note fresh = kget_fresh [OF pool get' p]
  obtain r where r: "m = claim pf r 1 (pages s)"
    "unat tsk div 4096 = pool_base_page (pages s) + unat r"
    "unat tsk + unat (1 :: u32) * 4096 < 4294967296"
    by (rule kget_block [OF pool get' p])
  show "pool_inv m" "unat tsk mod 4096 = 0" by (rule fresh)+
  show nt: "unat tsk div 4096 \<notin> taken (pages s)" using fresh(3) unfolding at by simp
  show "taken m = insert (unat tsk div 4096) (taken (pages s))" using fresh(4) unfolding at by simp
  show low: "pool_base_page (pages s) \<le> unat tsk div 4096" using r(2) by simp
  show "pool_base_page m = pool_base_page (pages s)" by (simp add: r(1))
  show "unat tsk + 4096 < 4294967296" using r(3) by simp
  show "tsk \<notin> set A"
    using kernel_invD(7) [OF inv, of tsk] low nt by (auto simp: task_ok_def split: if_splits)
qed

lemma pool_mem_simps [simp]:
  "pool_base_page (m\<lparr>mem := x\<rparr>) = pool_base_page m" "taken (m\<lparr>mem := x\<rparr>) = taken m"
  "pool_pages (m\<lparr>mem := x\<rparr>) = pool_pages m" "pool_inv (m\<lparr>mem := x\<rparr>) = pool_inv m"
  by (simp_all add: pool_base_page_def taken_def pool_pages_def pool_inv_def)

lemma task_create_spec:
  assumes inv: "kernel_inv H Q A s" and proc: "proc \<noteq> NULL" and prio: "valid_priority prio"
    and get: "mm_kget_page PF_ZERO (pages s) = Inr (tsk, m)" and p: "tsk \<noteq> NULL"
    and nn: "init_task s \<in> set A"
  shows "task_create proc params (Some nm) prio st s =
      Inr (next_pid s + 1, created tsk proc params nm prio st m s)"
    and "kernel_inv H (Q(ReadyHead (unat prio) := Q (ReadyHead (unat prio)) @ [tsk])) (tsk # A)
      (created tsk proc params nm prio st m s)"
proof -
  note D = kernel_invD [OF inv] and N = new_page [OF inv get p]
  let ?k = "ReadyHead (unat prio)"
  show "task_create proc params (Some nm) prio st s =
      Inr (next_pid s + 1, created tsk proc params nm prio st m s)"
    using D(2,3) proc prio get p by (rule task_create_eq)
  have un: "unqueued H Q tsk" using D(5) N(1) by (auto simp: unqueued_def)
  have k: "?k \<in> H" using D(4) unat_priority [OF prio] by blast
  have l: "lists H (Q(?k := Q ?k @ [tsk])) (tsk # A) (links (created tsk proc params nm prio st m s))"
    using lists_enqueue(1) [OF lists_new_task [OF lists_clear [OF D(1) N(1) un] N(1)] k un] by simp
  have ni: "tsk \<noteq> init_task s" using N(1) nn by blast
  have new: "task_ok (created tsk proc params nm prio st m s) tsk"
    using N p prio ni by (simp add: task_ok_def valid_task_def fresh_task_def)
  have old: "task_ok (created tsk proc params nm prio st m s) t" if "t \<in> set A" for t
    using D(7) [OF that] that N by (auto simp: task_ok_def valid_task_def split: if_splits)
  show "kernel_inv H (Q(?k := Q ?k @ [tsk])) (tsk # A) (created tsk proc params nm prio st m s)"
    unfolding kernel_inv_def
    using l new old D(2-5) N(2) by (auto split: if_splits)
qed

section \<open>The rejected arguments\<close>

lemma task_create_no_proc: "task_create NULL params name prio st s = Inr (- 1, s)"
  by (simp add: task_create_def)

lemma task_create_no_page:
  assumes "mm_kget_page PF_ZERO (pages s) = Inr (NULL, m)"
  shows "task_create proc params name prio st s = Inr (- 1, if proc = NULL then s else s\<lparr>pages := m\<rparr>)"
  using assms by (simp add: task_create_def Let_def)

text \<open>
  A bad priority or a null name is not reported: the stack words go to the top of the
  address space, the zeroed structure is queued at level 0 and the pid returned is 0.
\<close>

lemma task_create_unchecked:
  assumes "list_slock s = 1" "proc \<noteq> NULL" "name = None \<or> \<not> valid_priority prio"
    and "mm_kget_page PF_ZERO (pages s) = Inr (tsk, m)" "tsk \<noteq> NULL"
  obtains s' where "task_create proc params name prio st s = Inr (0, s')"
    "tasks s' tsk = zero_task\<lparr>sp := - 40, status := st\<rparr>"
    "links s' = list_add_tail (QNode tsk) (ReadyHead 0) (clear_nodes tsk (links s))"
    "next_pid s' = next_pid s" "\<not> valid_task tsk s'"
    "load32 (mem (pages s')) (- 12) = proc"
proof -
  have init: "task_struct_init tsk name prio (clear_task tsk (s\<lparr>pages := m\<rparr>)) =
      Inr (clear_task tsk (s\<lparr>pages := m\<rparr>))"
    using assms(3) by (intro task_struct_init_rejected) auto
  define s' where "s' = upd_task tsk (\<lambda>t. t\<lparr>sp := - 40, status := st\<rparr>)
    (upd_links (list_add_tail (QNode tsk) (ReadyHead 0)) (clear_task tsk s))
    \<lparr>pages := m\<lparr>mem := store32 (- 24) (addr_switch_initial s) (store32 (- 12) proc
      (store32 (- 8) (addr_task_exit s) (store32 (- 4) params (mem m))))\<rparr>\<rparr>"
  have "task_create proc params name prio st s = Inr (0, s')"
    unfolding task_create_def s'_def using assms(1,2,4,5)
    by (simp add: init Let_def)
      (simp add: poke_def unlock_list_def upd_task_def upd_links_def clear_task_eq zero_task_def)
  moreover have "load32 (mem (pages s')) (- 12) = proc"
    by (rule trans [OF load32_cong load32_store32_same [of _ proc "mem m"]])
      (simp_all add: s'_def upd_task_def store32_def)
  ultimately show ?thesis
    by (intro that [of s'])
      (simp_all add: s'_def upd_task_def upd_links_def clear_task_eq valid_task_def zero_task_def)
qed

end
