(* ===== verification/Sema.thy ===== *)
theory Sema
  imports Task_Create
begin

text \<open>
  The semaphores of \<open>kernel/sync.c\<close> on top of the scheduler. A semaphore is named by its
  address; its wait list is the queue at \<open>WaitHead\<close> of that address, so a blocked task is
  in the wait list instead of a ready list.

  \<open>sema_down\<close> on an exhausted semaphore suspends the caller and switches; the state it
  returns is that of the task switched to. The caller goes on when it is resumed and
  scheduled again, at the end of \<open>sema_down\<close>: it does not look at the count any more.
\<close>

section \<open>The operations\<close>

definition upd_sema :: "u32 \<Rightarrow> (semaphore \<Rightarrow> semaphore) \<Rightarrow> kernel \<Rightarrow> kernel" where
  "upd_sema a f s = s\<lparr>semas := (semas s)(a := f (semas s a))\<rparr>"

definition sema_init :: "u32 \<Rightarrow> i32 \<Rightarrow> kernel \<Rightarrow> kernel" where
  "sema_init a cnt s =
     (let s = upd_sema a (\<lambda>x. x\<lparr>count := cnt\<rparr>) s;
          s = upd_sema a (\<lambda>x. x\<lparr>sema_slock := spin_lock_init (sema_slock x)\<rparr>) s
      in upd_links (list_head_init (WaitHead a)) s)"

definition lock_sema :: "u32 \<Rightarrow> kernel \<Rightarrow> kernel result" where
  "lock_sema a s = bindE (spin_lock (sema_slock (semas s a)))
     (\<lambda>l. Inr (upd_sema a (\<lambda>x. x\<lparr>sema_slock := l\<rparr>) s))"

definition unlock_sema :: "u32 \<Rightarrow> kernel \<Rightarrow> kernel" where
  "unlock_sema a s = upd_sema a (\<lambda>x. x\<lparr>sema_slock := spin_unlock (sema_slock x)\<rparr>) s"

definition sema_down :: "u32 \<Rightarrow> kernel \<Rightarrow> kernel result" where
  "sema_down a s =
     (let curr = current s
      in bindE (lock_sema a s) (\<lambda>s.
        if sint (count (semas s a)) \<le> 0
        then bindE (task_suspend curr (WaitHead a) s) (\<lambda>s. schedule (unlock_sema a s))
        else Inr (unlock_sema a (upd_sema a (\<lambda>x. x\<lparr>count := count x - 1\<rparr>) s))))"

definition sema_up :: "u32 \<Rightarrow> kernel \<Rightarrow> kernel result" where
  "sema_up a s =
     bindE (lock_sema a s) (\<lambda>s.
       let s = upd_sema a (\<lambda>x. x\<lparr>count := count x + 1\<rparr>) s
       in bindE
         (if 0 < sint (count (semas s a))
          then if \<not> list_empty (WaitHead a) (links s)
               then (let (node, m) = list_pop (WaitHead a) (links s)
                     in bindE (list_entry node) (\<lambda>tsk_wait. task_resume tsk_wait (s\<lparr>links := m\<rparr>)))
               else Inr s
          else Inr s)
         (\<lambda>s. Inr (unlock_sema a s)))"

section \<open>What they change\<close>

lemma upd_sema_simps [simp]:
  "links (upd_sema a f s) = links s" "tasks (upd_sema a f s) = tasks s"
  "list_slock (upd_sema a f s) = list_slock s" "pid_slock (upd_sema a f s) = pid_slock s"
  "pages (upd_sema a f s) = pages s" "init_task (upd_sema a f s) = init_task s"
  "current (upd_sema a f s) = current s" "next_pid (upd_sema a f s) = next_pid s"
  "semas (upd_sema a f s) = (semas s)(a := f (semas s a))"
  "addr_task_exit (upd_sema a f s) = addr_task_exit s"
  "addr_switch_initial (upd_sema a f s) = addr_switch_initial s"
  by (simp_all add: upd_sema_def)

lemma running_upd [simp]: "running (upd_sema a f s) = running s" "running (upd_links g s) = running s"
  by (simp_all add: running_def)

lemma kernel_inv_upd_sema [simp]: "kernel_inv H Q A (upd_sema a f s) = kernel_inv H Q A s"
  by (simp add: kernel_inv_def task_ok_def valid_task_def)

definition sema_free :: "u32 \<Rightarrow> kernel \<Rightarrow> bool" where
  "sema_free a s \<longleftrightarrow> sema_slock (semas s a) = 1"

lemma lock_sema_free: "sema_free a s \<Longrightarrow> lock_sema a s = Inr (upd_sema a (\<lambda>x. x\<lparr>sema_slock := 0\<rparr>) s)"
  by (simp add: lock_sema_def sema_free_def)

lemma lock_sema_held: "sema_slock (semas s a) = 0 \<Longrightarrow> sema_down a s = Inl Spin \<and> sema_up a s = Inl Spin"
  by (simp add: sema_down_def sema_up_def lock_sema_def)

lemma upd_sema_twice: "upd_sema a f (upd_sema a g s) = upd_sema a (f \<circ> g) s"
  by (simp add: upd_sema_def)

lemma upd_sema_same: "f (semas s a) = semas s a \<Longrightarrow> upd_sema a f s = s"
  by (simp add: upd_sema_def fun_upd_idem)

lemma sema_init_inv:
  assumes "kernel_inv H Q A s" "WaitHead a \<notin> H"
  shows "kernel_inv (insert (WaitHead a) H) (Q(WaitHead a := [])) A (sema_init a c s)"
    and "sema_free a (sema_init a c s)" "count (semas (sema_init a c s) a) = c"
proof -
  have "lists (insert (WaitHead a) H) (Q(WaitHead a := [])) A (links (sema_init a c s))"
    using lists_head_init [OF kernel_invD(1) [OF assms(1)] assms(2)]
    by (simp add: sema_init_def Let_def)
  then show "kernel_inv (insert (WaitHead a) H) (Q(WaitHead a := [])) A (sema_init a c s)"
    using assms(1) by (auto simp: kernel_inv_def sema_init_def Let_def task_ok_def valid_task_def)
  show "sema_free a (sema_init a c s)" "count (semas (sema_init a c s) a) = c"
    by (simp_all add: sema_free_def sema_init_def Let_def)
qed

text \<open>A positive count is taken without blocking.\<close>

lemma sema_down_free:
  assumes "sema_free a s" "0 < sint (count (semas s a))"
  shows "sema_down a s = Inr (upd_sema a (\<lambda>x. x\<lparr>count := count x - 1\<rparr>) s)"
proof -
  have "(semas s a)\<lparr>count := c, sema_slock := 1\<rparr> = (semas s a)\<lparr>count := c\<rparr>" for c
    using assms(1) unfolding sema_free_def by simp
  then show ?thesis
    using assms by (simp add: sema_down_def lock_sema_free unlock_sema_def upd_sema_def)
qed

text \<open>
  Otherwise the caller becomes the first waiter, and the head of the ready queue runs; the
  count is left alone.
\<close>

lemma sema_down_blocks:
  assumes inv: "kernel_inv H Q A s" and free: "sema_free a s" and c: "sint (count (semas s a)) \<le> 0"
    and w: "WaitHead a \<in> H" and h: "h \<in> H" "current s \<in> set (Q h)" "h \<noteq> WaitHead a"
    and ne: "(Q(h := remove1 (current s) (Q h))) RUNQ \<noteq> []"
  obtains g where
    "sema_down a s = Inr (switched (hd ((Q(h := remove1 (current s) (Q h))) RUNQ)) g
       (upd_task (current s) (\<lambda>t. t\<lparr>status := TASK_BLOCKED\<rparr>) s))"
    "kernel_inv H (Q(h := remove1 (current s) (Q h), WaitHead a := current s # Q (WaitHead a))) A
       (switched (hd ((Q(h := remove1 (current s) (Q h))) RUNQ)) g
         (upd_task (current s) (\<lambda>t. t\<lparr>status := TASK_BLOCKED\<rparr>) s))"
proof -
  note D = kernel_invD [OF inv]
  let ?s1 = "upd_sema a (\<lambda>x. x\<lparr>sema_slock := 0\<rparr>) s"
  let ?Q = "Q(h := remove1 (current s) (Q h), WaitHead a := current s # Q (WaitHead a))"
  let ?sb = "upd_task (current s) (\<lambda>t. t\<lparr>status := TASK_BLOCKED\<rparr>) s"
  have inv1: "kernel_inv H Q A ?s1" using inv by simp
  obtain s2 g where sus: "task_suspend (current s) (WaitHead a) ?s1 = Inr s2"
    and inv2: "kernel_inv H ?Q A s2"
    and s2: "s2 = upd_links g (upd_task (current s) (\<lambda>t. t\<lparr>status := TASK_BLOCKED\<rparr>) ?s1)"
    using task_suspend_spec [OF inv1 h(1,2) w] h(3) by (auto simp: fun_upd_twist)
  have inv3: "kernel_inv H ?Q A (unlock_sema a s2)" using inv2 by (simp add: unlock_sema_def)
  have u: "unlock_sema a s2 = upd_links g ?sb"
    using free
    by (simp add: s2 unlock_sema_def upd_sema_def upd_links_def upd_task_def sema_free_def fun_upd_idem)
  have nr: "\<not> running (upd_links g ?sb)" by (simp add: running_def)
  have nn: "current (upd_links g ?sb) \<noteq> NULL" using D(8) [OF D(5) [OF h(1,2)]] by simp
  have Q: "?Q RUNQ = (Q(h := remove1 (current s) (Q h))) RUNQ" by simp
  obtain g' where sch: "schedule (upd_links g ?sb) = Inr (switched (hd (?Q RUNQ)) g' (upd_links g ?sb))"
    and inv4: "kernel_inv H ?Q A (switched (hd (?Q RUNQ)) g' (upd_links g ?sb))"
    by (rule schedule_not_running [OF inv3 [unfolded u] ne [folded Q] nn nr])
  have sw: "switched n g' (upd_links g ?sb) = switched n (g' \<circ> g) ?sb" for n
    by (simp add: switched_def upd_links_def upd_task_def)
  have "sema_down a s = schedule (unlock_sema a s2)"
    using c by (simp add: sema_down_def lock_sema_free [OF free] sus)
  then have "sema_down a s = Inr (switched (hd (?Q RUNQ)) (g' \<circ> g) ?sb)"
    using sch unfolding u sw by (rule trans)
  then show ?thesis using inv4 unfolding sw Q by (rule that)
qed

lemma sema_up_no_waiter:
  assumes inv: "kernel_inv H Q A s" and free: "sema_free a s" and w: "WaitHead a \<in> H"
    and none: "Q (WaitHead a) = [] \<or> sint (count (semas s a) + 1) \<le> 0"
  shows "sema_up a s = Inr (upd_sema a (\<lambda>x. x\<lparr>count := count x + 1\<rparr>) s)"
proof -
  have "list_empty (WaitHead a) (links s) \<longleftrightarrow> Q (WaitHead a) = []"
    using dl.rep_is_empty [OF lists_ring [OF kernel_invD(1) [OF inv] w]] by simp
  moreover have "(semas s a)\<lparr>count := c, sema_slock := 1\<rparr> = (semas s a)\<lparr>count := c\<rparr>" for c
    using free unfolding sema_free_def by simp
  ultimately show ?thesis
    using none by (auto simp: sema_up_def lock_sema_free [OF free] Let_def unlock_sema_def upd_sema_def)
qed

text \<open>
  With a waiter and a positive new count, the waiter at the front goes to the tail of its
  ready queue. The count stays incremented.
\<close>

lemma sema_up_wakes:
  assumes inv: "kernel_inv H Q A s" and free: "sema_free a s" and w: "WaitHead a \<in> H"
    and q: "Q (WaitHead a) = t # ws" and c: "0 < sint (count (semas s a) + 1)"
    and blocked: "status (tasks s t) = TASK_BLOCKED"
  obtains s' g where "sema_up a s = Inr s'"
    "kernel_inv H (Q(WaitHead a := ws,
        ReadyHead (unat (priority (tasks s t))) := Q (ReadyHead (unat (priority (tasks s t)))) @ [t])) A s'"
    "s' = upd_links g (upd_task t (\<lambda>t. t\<lparr>status := TASK_RUNNING\<rparr>) (upd_sema a (\<lambda>x. x\<lparr>count := count x + 1\<rparr>) s))"
proof -
  note D = kernel_invD [OF inv]
  let ?k = "ReadyHead (unat (priority (tasks s t)))"
  let ?Q = "Q(WaitHead a := ws, ?k := Q ?k @ [t])"
  define s1 where "s1 = upd_sema a (\<lambda>x. x\<lparr>sema_slock := 0, count := count x + 1\<rparr>) s"
  define s2 where "s2 = upd_links (list_del (QNode t)) s1"
  have t: "t \<in> set (Q (WaitHead a))" and A: "t \<in> set A" using D(5) [OF w] q by auto
  have r: "ring (links s) (WaitHead a) (QNode t # map QNode ws)"
    using lists_ring [OF D(1) w] q by simp
  have pop: "list_pop (WaitHead a) (links s) = (QNode t, list_del (QNode t) (links s))"
    using dl.pop_first [OF r] by (simp add: list_pop_def Let_def)
  have ne: "\<not> list_empty (WaitHead a) (links s)" using dl.rep_is_empty [OF r] by simp
  have rm: "remove1 t (Q (WaitHead a)) = ws" by (simp add: q)
  have "lists H (Q(WaitHead a := ws)) A (links s2)"
    using lists_dequeue [OF D(1) w t] by (simp add: s2_def s1_def rm)
  then have inv2: "kernel_inv H (Q(WaitHead a := ws)) A s2"
    by (rule kernel_inv_change [OF inv]) (use D q w in \<open>auto simp: s2_def s1_def split: if_splits\<close>)
  have un: "unqueued H (Q(WaitHead a := ws)) t" using unqueued_dequeue [OF D(1) w t] by (simp add: rm)
  have b2: "status (tasks s2 t) = TASK_BLOCKED" using blocked by (simp add: s2_def s1_def)
  have p2: "priority (tasks s2 t) = priority (tasks s t)" by (simp add: s2_def s1_def)
  obtain s3 g where res: "task_resume t s2 = Inr s3" and inv3: "kernel_inv H ?Q A s3"
    and s3: "s3 = upd_links g (upd_task t (\<lambda>t. t\<lparr>status := TASK_RUNNING\<rparr>) s2)"
    using task_resume_spec [OF inv2 A b2 un] by (auto simp: p2)
  have "s1\<lparr>links := list_del (QNode t) (links s1)\<rparr> = s2" by (simp add: s2_def upd_links_def)
  then have up: "sema_up a s = Inr (unlock_sema a s3)"
    using c ne res
    by (simp add: sema_up_def lock_sema_free [OF free] Let_def pop list_entry_def upd_sema_twice
        s1_def [symmetric] comp_def) (simp add: s1_def pop list_entry_def)
  have eq: "(semas s a)\<lparr>count := x, sema_slock := 1\<rparr> = (semas s a)\<lparr>count := x\<rparr>" for x
    using free unfolding sema_free_def by simp
  have u: "unlock_sema a s3 = upd_links (g \<circ> list_del (QNode t))
      (upd_task t (\<lambda>t. t\<lparr>status := TASK_RUNNING\<rparr>) (upd_sema a (\<lambda>x. x\<lparr>count := count x + 1\<rparr>) s))"
    using eq by (simp add: s3 s2_def s1_def unlock_sema_def upd_sema_def upd_links_def upd_task_def)
  have "kernel_inv H ?Q A (unlock_sema a s3)" using inv3 by (simp add: unlock_sema_def)
  with up u show ?thesis using that by blast
qed

end
