(* ===== verification/Boot.thy ===== *)
theory Boot
  imports Sema
begin

text \<open>
  The scheduler at work: \<open>sched_init\<close> and \<open>idle_proc\<close> of \<open>kernel/sched.c\<close>, the boot
  sequence they make, and the round robin that repeated calls of \<open>schedule\<close> perform.
\<close>

section \<open>Starting the scheduler\<close>

text \<open>
  \<open>sem\<close> is the address of the semaphore on the stack of \<open>sched_init\<close>, \<open>idle\<close> that of
  \<open>idle_proc\<close>. The last call switches away: the state is that of the task switched to.
\<close>

definition sched_init :: "u32 \<Rightarrow> u32 \<Rightarrow> kernel \<Rightarrow> kernel result" where
  "sched_init sem idle s =
     (let s = sema_init sem 0 s;
          s = s\<lparr>pid_slock := spin_lock_init (pid_slock s)\<rparr>;
          s = s\<lparr>list_slock := spin_lock_init (list_slock s)\<rparr>;
          s = upd_links (for_loop 0 64 (\<lambda>i. list_head_init (ReadyHead (unat i)))) s;
          s = upd_links (list_head_init AllHead) s;
          s = s\<lparr>init_task := current s\<rparr>
      in bindE (task_struct_init (init_task s) (Some (map of_char ''init'')) 31 s) (\<lambda>s.
        let s = upd_task (init_task s) (\<lambda>t. t\<lparr>status := TASK_RUNNING\<rparr>) s;
            s = upd_links (list_add (QNode (init_task s))
                  (ReadyHead (unat (priority (tasks s (init_task s)))))) s
        in bindE (task_create idle sem (Some (map of_char ''idle'')) 31 TASK_READY s) (\<lambda>(p, s).
           bindE (task_create idle NULL (Some (map of_char ''idle'')) 31 TASK_READY s) (\<lambda>(p, s).
             sema_down sem s))))"

text \<open>What \<open>idle_proc\<close> does before its \<open>while(1)\<close>.\<close>

definition idle_proc :: "u32 \<Rightarrow> kernel \<Rightarrow> kernel result" where
  "idle_proc params s =
     (let s = s\<lparr>pages := printk_mm (''--idle task--\<newline>  esp : %p'' @ [CHR 0x09]) [current s] (pages s)\<rparr>;
          s = s\<lparr>pages := printk_mm ''param : %p\<newline>'' [params] (pages s)\<rparr>
      in if params \<noteq> NULL then sema_up params s else Inr s)"

fun schedules :: "nat \<Rightarrow> kernel \<Rightarrow> kernel result" where
  "schedules 0 s = Inr s"
| "schedules (Suc n) s = bindE (schedule s) (schedules n)"

lemma schedules_add: "schedules (m + n) s = bindE (schedules m s) (schedules n)"
proof (induction m arbitrary: s)
  case (Suc m)
  then show ?case by (cases "schedule s") simp_all
qed simp

section \<open>Round robin\<close>

text \<open>
  The running task is at the head of the ready queue: a first call of \<open>schedule\<close> only moves
  it to the tail and it goes on, a second one switches to the next task.
\<close>

lemma two_schedules:
  assumes inv: "kernel_inv H Q A s" and q: "Q RUNQ = c # cs" and cur: "current s = c"
    and run: "running s"
  obtains s' where "schedules 2 s = Inr s'" "kernel_inv H (Q(RUNQ := rotate1 (c # cs))) A s'"
    "current s' = hd (rotate1 (c # cs))" "running s'" "pages s' = pages s" "semas s' = semas s"
proof -
  note D = kernel_invD [OF inv]
  have R: "RUNQ \<in> H" by (simp add: D(4))
  have c: "c \<in> set (Q RUNQ)" "c \<noteq> NULL" using q D(8) [OF D(5) [OF R]] by auto
  have d: "c \<notin> set cs" using lists_distinct(1) [OF D(1) R] q by simp
  have Q1: "to_tail RUNQ RUNQ c Q = Q(RUNQ := cs @ [c])" by (simp add: q)
  obtain g where s1: "schedule s = Inr (switched c g s)"
    and inv1: "kernel_inv H (Q(RUNQ := cs @ [c])) A (switched c g s)"
    using schedule_spec [OF inv, of RUNQ] run cur c R by (auto simp: q)
  let ?Q1 = "Q(RUNQ := cs @ [c])" and ?s1 = "switched c g s"
  have Q2: "to_tail RUNQ RUNQ c ?Q1 = ?Q1"
    using d by (simp add: remove1_append)
  obtain g' where s2: "schedule ?s1 = Inr (switched (hd (cs @ [c])) g' ?s1)"
    and inv2: "kernel_inv H ?Q1 A (switched (hd (cs @ [c])) g' ?s1)"
  proof (rule schedule_spec [OF inv1, of RUNQ])
    show "running ?s1 \<Longrightarrow> RUNQ \<in> H \<and> current ?s1 \<in> set (?Q1 RUNQ)" using R by simp
  qed (use c Q2 in \<open>simp_all del: to_tail_same\<close>)
  have "schedules 2 s = Inr (switched (hd (cs @ [c])) g' ?s1)"
    using s1 s2 by (simp add: numeral_2_eq_2)
  then show ?thesis
    by (rule that) (use q inv2 in simp_all)
qed

lemma round_robin_steps:
  assumes "kernel_inv H Q A s" "Q RUNQ = ts" "ts \<noteq> []" "current s = hd ts" "running s"
  shows "\<exists>s'. schedules (2 * k) s = Inr s' \<and> kernel_inv H (Q(RUNQ := rotate k ts)) A s' \<and>
    current s' = hd (rotate k ts) \<and> running s' \<and> pages s' = pages s \<and> semas s' = semas s"
proof (induction k)
  case 0
  then show ?case using assms by (auto simp: fun_upd_idem)
next
  case (Suc k)
  then obtain s' where s': "schedules (2 * k) s = Inr s'" "kernel_inv H (Q(RUNQ := rotate k ts)) A s'"
    "current s' = hd (rotate k ts)" "running s'" "pages s' = pages s" "semas s' = semas s"
    by blast
  obtain c cs where r: "rotate k ts = c # cs"
    using assms(3) by (cases "rotate k ts") auto
  have q: "(Q(RUNQ := rotate k ts)) RUNQ = c # cs" by (simp add: r)
  have cur: "current s' = c" by (simp add: s'(3) r)
  have next_turn: "rotate1 (c # cs) = rotate (Suc k) ts" by (simp add: r)
  obtain s2 where s2: "schedules 2 s' = Inr s2" "kernel_inv H ((Q(RUNQ := rotate k ts))(RUNQ := rotate (Suc k) ts)) A s2"
    "current s2 = hd (rotate (Suc k) ts)" "running s2" "pages s2 = pages s'" "semas s2 = semas s'"
    by (rule two_schedules [OF s'(2) q cur s'(4), unfolded next_turn])
  have "schedules (2 * Suc k) s = bindE (schedules (2 * k) s) (schedules 2)"
    by (simp add: schedules_add [symmetric])
  then have "schedules (2 * Suc k) s = Inr s2" using s'(1) s2(1) by simp
  moreover have "pages s2 = pages s" "semas s2 = semas s" using s2(5,6) s'(5,6) by simp_all
  ultimately show ?case using s2(2-4) unfolding fun_upd_upd by (intro exI conjI)
qed


section \<open>The boot sequence\<close>

definition boot_heads :: "u32 \<Rightarrow> node set" where
  "boot_heads sem = insert (WaitHead sem) {ReadyHead p | p. p < 64}"

lemma boot_headsI [simp]: "p < 64 \<Longrightarrow> ReadyHead p \<in> boot_heads sem" "WaitHead sem \<in> boot_heads sem"
  by (simp_all add: boot_heads_def)

text \<open>The lists after the initialisation loop, whatever the memory held before.\<close>

lemma boot_lists:
  "lists (boot_heads sem) (\<lambda>_. []) []
     (list_head_init AllHead (for_loop 0 64 (\<lambda>i. list_head_init (ReadyHead (unat i)))
       (list_head_init (WaitHead sem) m)))"
proof -
  define P where "P k m \<longleftrightarrow> ring m (WaitHead sem) [] \<and> (\<forall>p<k. ring m (ReadyHead p) [])" for k :: nat and m
  have "P (unat (64 :: u32)) (for_loop 0 64 (\<lambda>i. list_head_init (ReadyHead (unat i)))
      (list_head_init (WaitHead sem) m))"
  proof (rule for_loop_inv)
    show "P (unat (0 :: u32)) (list_head_init (WaitHead sem) m)"
      using dl.rep_init by (simp add: P_def)
    show "P (Suc k) (list_head_init (ReadyHead (unat (of_nat k :: u32))) m')"
      if "k < unat (64 :: u32)" "P k m'" for k m'
    proof -
      have "unat (of_nat k :: u32) = k" using that(1) by (intro unat_of_nat32) simp
      then show ?thesis
        using that(2) dl.rep_init [of "ReadyHead k" m']
        by (auto simp: P_def less_Suc_eq intro: dl.rep_init_frame)
    qed
  qed simp
  then have "P 64 (list_head_init AllHead (for_loop 0 64 (\<lambda>i. list_head_init (ReadyHead (unat i)))
      (list_head_init (WaitHead sem) m)))"
    by (auto simp: P_def intro: dl.rep_init_frame)
  then show ?thesis
    unfolding lists_def P_def boot_heads_def using dl.rep_init by (auto simp: queue_heads_def)
qed

definition free_pages :: "mm \<Rightarrow> nat" where
  "free_pages m = card ({pool_base_page m ..< pool_base_page m + pool_pages m} - taken m)"

text \<open>Where the kernel may start the scheduler: the pool is up and holds two free pages.\<close>

definition boot_ready :: "kernel \<Rightarrow> bool" where
  "boot_ready s \<longleftrightarrow> pool_inv (pages s) \<and> current s \<noteq> NULL \<and> unat (current s) mod 4096 = 0 \<and>
     unat (current s) div 4096 < pool_base_page (pages s) \<and>
     2 \<le> free_pages (pages s)"

lemma free_page_left:
  assumes "pool_inv m" "1 \<le> free_pages m"
  obtains p t where "mm_kget_page pf m = Inr (p, t)" "p \<noteq> NULL"
proof -
  have "{pool_base_page m ..< pool_base_page m + pool_pages m} - taken m \<noteq> {}"
    using assms(2) unfolding free_pages_def by (intro notI) simp
  then obtain x where "x \<in> {pool_base_page m ..< pool_base_page m + pool_pages m} - taken m"
    by blast
  then have "pool_base_page m \<le> x" "x < pool_base_page m + pool_pages m" "x \<notin> taken m" by auto
  then have k: "x - pool_base_page m < pool_pages m"
    "pool_base_page m + (x - pool_base_page m) \<notin> taken m" by simp_all
  show ?thesis by (rule page_free [OF assms(1) k]) (rule that)
qed

lemma free_pages_after:
  assumes inv: "pool_inv m" and get: "mm_kget_page pf m = Inr (p, t)" and p: "p \<noteq> NULL"
  shows "free_pages m \<le> free_pages t + 1"
proof -
  have get': "mm_kget_pages pf 1 m = Inr (p, t)" using get by (simp add: mm_kget_page_def)
  obtain r where "t = claim pf r 1 m" by (rule kget_block [OF inv get' p])
  then have dims: "pool_base_page t = pool_base_page m" "pool_pages t = pool_pages m" by simp_all
  have "pages_at p 1 = {unat p div 4096}" by (auto simp: pages_at_def)
  then have tk: "taken t = insert (unat p div 4096) (taken m)" using kget_fresh(4) [OF inv get' p] by simp
  let ?F = "{pool_base_page m ..< pool_base_page m + pool_pages m} - taken m"
  have "?F - {unat p div 4096} = {pool_base_page m ..< pool_base_page m + pool_pages m} - taken t"
    unfolding tk by auto
  moreover have "card ?F - 1 \<le> card (?F - {unat p div 4096})"
    by (metis card_Diff1_le card_Diff_singleton_if diff_le_self finite_Diff finite_atLeastLessThan le_refl)
  ultimately have "card ?F - 1 \<le> card ({pool_base_page m ..< pool_base_page m + pool_pages m} - taken t)"
    by simp
  then show ?thesis unfolding free_pages_def dims by linarith
qed


definition boot_base :: "u32 \<Rightarrow> kernel \<Rightarrow> kernel" where
  "boot_base sem s =
     (let s = sema_init sem 0 s;
          s = s\<lparr>pid_slock := spin_lock_init (pid_slock s)\<rparr>;
          s = s\<lparr>list_slock := spin_lock_init (list_slock s)\<rparr>;
          s = upd_links (for_loop 0 64 (\<lambda>i. list_head_init (ReadyHead (unat i)))) s;
          s = upd_links (list_head_init AllHead) s
      in s\<lparr>init_task := current s\<rparr>)"

lemma boot_base_simps:
  "current (boot_base sem s) = current s" "init_task (boot_base sem s) = current s"
  "pages (boot_base sem s) = pages s" "next_pid (boot_base sem s) = next_pid s"
  "list_slock (boot_base sem s) = 1" "pid_slock (boot_base sem s) = 1"
  "sema_free sem (boot_base sem s)" "count (semas (boot_base sem s) sem) = 0"
  by (simp_all add: boot_base_def sema_init_def Let_def sema_free_def)

lemma boot_base_links:
  "links (boot_base sem s) = list_head_init AllHead (for_loop 0 64 (\<lambda>i. list_head_init (ReadyHead (unat i)))
     (list_head_init (WaitHead sem) (links s)))"
  by (simp add: boot_base_def sema_init_def Let_def)

lemma boot_base_inv: "pool_inv (pages s) \<Longrightarrow> kernel_inv (boot_heads sem) (\<lambda>_. []) [] (boot_base sem s)"
  by (simp add: kernel_inv_def boot_base_simps boot_base_links boot_lists)

text \<open>The task made of the boot stack.\<close>

definition first_task :: "u32 \<Rightarrow> kernel \<Rightarrow> kernel" where
  "first_task i s = upd_links (list_add (QNode i) RUNQ)
     (upd_task i (\<lambda>t. t\<lparr>status := TASK_RUNNING\<rparr>) (entered i (map of_char ''init'') 31 s))"

lemma valid_31: "valid_priority 31" "unat (31 :: i32) = 31"
  by (simp_all add: valid_priority_def)

lemma first_task_inv:
  fixes sem :: u32
  assumes ready: "boot_ready s"
  defines "b \<equiv> boot_base sem s"
  shows "kernel_inv (boot_heads sem) ((\<lambda>_. [])(RUNQ := [current s])) [current s] (first_task (current s) b)"
proof -
  let ?i = "current s"
  have pool: "pool_inv (pages s)" and i: "?i \<noteq> NULL" "unat ?i mod 4096 = 0"
    "unat ?i div 4096 < pool_base_page (pages s)"
    using ready by (auto simp: boot_ready_def)
  have l: "lists (boot_heads sem) (\<lambda>_. []) [] (links b)"
    unfolding b_def by (rule kernel_invD(1) [OF boot_base_inv [OF pool]])
  have un: "unqueued (boot_heads sem) (\<lambda>_. []) ?i" by (simp add: unqueued_def)
  have "lists (boot_heads sem) ((\<lambda>_. [])(RUNQ := [?i])) [?i] (links (first_task ?i b))"
    using lists_enqueue(2) [OF lists_new_task [OF lists_clear [OF l _ un]] boot_headsI(1) un]
    by (simp add: first_task_def)
  moreover have "task_ok (first_task ?i b) ?i"
    using i by (simp add: task_ok_def valid_task_def first_task_def fresh_task_def b_def
        boot_base_simps valid_31)
  ultimately show ?thesis
    using pool by (auto simp: kernel_inv_def first_task_def b_def boot_base_simps)
qed

lemma sched_init_unfold:
  assumes "boot_ready s"
  shows "sched_init sem idle s =
     bindE (task_create idle sem (Some (map of_char ''idle'')) 31 TASK_READY
       (first_task (current s) (boot_base sem s))) (\<lambda>(p, s).
     bindE (task_create idle NULL (Some (map of_char ''idle'')) 31 TASK_READY s) (\<lambda>(p, s).
       sema_down sem s))"
proof -
  have "current s \<noteq> NULL" using assms by (simp add: boot_ready_def)
  then have init: "task_struct_init (current s) (Some (map of_char ''init'')) 31 (boot_base sem s) =
      Inr (entered (current s) (map of_char ''init'') 31 (boot_base sem s))"
    by (simp add: task_struct_init_eq boot_base_simps valid_31 del: list.map)
  have "sched_init sem idle s =
      bindE (task_struct_init (init_task (boot_base sem s)) (Some (map of_char ''init'')) 31 (boot_base sem s)) (\<lambda>s.
        let s = upd_task (init_task s) (\<lambda>t. t\<lparr>status := TASK_RUNNING\<rparr>) s;
            s = upd_links (list_add (QNode (init_task s))
                  (ReadyHead (unat (priority (tasks s (init_task s)))))) s
        in bindE (task_create idle sem (Some (map of_char ''idle'')) 31 TASK_READY s) (\<lambda>(p, s).
           bindE (task_create idle NULL (Some (map of_char ''idle'')) 31 TASK_READY s) (\<lambda>(p, s).
             sema_down sem s)))"
    unfolding sched_init_def boot_base_def Let_def by (rule refl)
  then show ?thesis
    by (simp add: init Let_def first_task_def boot_base_simps fresh_task_def del: list.map)
qed


text \<open>
  What an allocation leaves alone: the pages that were taken stay taken and keep their bytes.
\<close>

definition keeps :: "mm \<Rightarrow> mm \<Rightarrow> bool" where
  "keeps m t \<longleftrightarrow> taken m \<subseteq> taken t \<and> (\<forall>a. unat a div 4096 \<in> taken m \<longrightarrow> mem t a = mem m a)"

lemma keeps_refl [simp]: "keeps m m"
  by (simp add: keeps_def)

lemma keeps_trans: "keeps m t \<Longrightarrow> keeps t u \<Longrightarrow> keeps m u"
  by (auto simp: keeps_def)

lemma same_page:
  assumes "t mod 4096 = 0" "t \<le> a" "a < t + 4096"
  shows "a div 4096 = t div (4096 :: nat)"
proof -
  obtain d where "t = 4096 * d" using assms(1) by (auto simp: mod_eq_0_iff_dvd)
  then show ?thesis using assms(2,3) by (intro div_nat_eqI) simp_all
qed

lemma page_of_offset:
  fixes tsk :: u32
  assumes "unat tsk mod 4096 = 0" "k < 4096"
  shows "unat (tsk + of_nat k) div 4096 = unat tsk div 4096"
proof -
  have k: "unat (of_nat k :: u32) = k" using assms(2) by (intro unat_of_nat32) simp
  obtain d where d: "unat tsk = 4096 * d" using assms(1) by (auto simp: mod_eq_0_iff_dvd)
  then have "d < 1048576" using u32_lt [of tsk] by linarith
  then have "unat (tsk + of_nat k) = 4096 * d + k" using assms(2) d by (subst unat_plus_no_wrap) (simp_all add: k)
  then show ?thesis using d assms(2) by simp
qed

lemma init_stack_other_page:
  assumes "unat tsk mod 4096 = 0" "unat a div 4096 \<noteq> unat tsk div 4096"
  shows "init_stack tsk proc params ret initial m a = m a"
proof -
  have "a \<noteq> tsk + of_nat k" if "k < 4096" for k using page_of_offset [OF assms(1) that] assms(2) by auto
  from this [of 4072] this [of 4073] this [of 4074] this [of 4075] this [of 4084] this [of 4085] this [of 4086]
    this [of 4087] this [of 4088] this [of 4089] this [of 4090] this [of 4091] this [of 4092] this [of 4093]
    this [of 4094] this [of 4095]
  show ?thesis by (simp add: init_stack_def store32_def add.assoc)
qed

lemma keeps_new_page:
  assumes inv: "kernel_inv H Q A s" and get: "mm_kget_page pf (pages s) = Inr (tsk, m)" and p: "tsk \<noteq> NULL"
  shows "keeps (pages s) (m\<lparr>mem := init_stack tsk proc params ret initial (mem m)\<rparr>)"
proof -
  note N = new_page [OF inv get p] and pool = kernel_invD(6) [OF inv]
  have get': "mm_kget_pages pf 1 (pages s) = Inr (tsk, m)" using get by (simp add: mm_kget_page_def)
  have "init_stack tsk proc params ret initial (mem m) a = mem (pages s) a"
    if "unat a div 4096 \<in> taken (pages s)" for a
  proof -
    have ne: "unat a div 4096 \<noteq> unat tsk div 4096" using that N(4) by auto
    then have "\<not> (unat tsk \<le> unat a \<and> unat a < unat tsk + 4096)"
      using same_page [OF N(3)] by blast
    then show ?thesis using init_stack_other_page [OF N(3) ne] kget_mem [OF pool get' p, of a] by auto
  qed
  then show ?thesis using N(5) by (auto simp: keeps_def)
qed

text \<open>One idle task more: the page it lies on was free, and one free page less is left.\<close>

lemma create_idle:
  assumes inv: "kernel_inv (boot_heads sem) Q A s" and proc: "proc \<noteq> NULL"
    and A: "init_task s \<in> set A"
    and free: "1 \<le> free_pages (pages s)"
  obtains t s' where
    "task_create proc params (Some (map of_char ''idle'')) 31 TASK_READY s = Inr (next_pid s + 1, s')"
    "kernel_inv (boot_heads sem) (Q(RUNQ := Q RUNQ @ [t])) (t # A) s'"
    "tasks s' = (tasks s)(t := (fresh_task t (map of_char ''idle'') 31 (next_pid s + 1))\<lparr>sp := t + 4056, status := TASK_READY\<rparr>)"
    "t \<notin> set A" "current s' = current s" "init_task s' = init_task s" "semas s' = semas s"
    "next_pid s' = next_pid s + 1"
    "free_pages (pages s) \<le> free_pages (pages s') + 1" "keeps (pages s) (pages s')"
proof -
  note pool = kernel_invD(6) [OF inv]
  obtain t m where get: "mm_kget_page PF_ZERO (pages s) = Inr (t, m)" and t: "t \<noteq> NULL"
    using free_page_left [OF pool, of PF_ZERO] free by auto
  define s' where "s' = created t proc params (map of_char ''idle'') 31 TASK_READY m s"
  note create = task_create_spec [OF inv proc valid_31(1) get t A, of params "map of_char ''idle''"
      TASK_READY, unfolded valid_31(2), folded s'_def]
  have "free_pages (pages s) \<le> free_pages (pages s') + 1"
    using free_pages_after [OF pool get t] by (simp add: s'_def free_pages_def)
  then show ?thesis
    using create new_page(1) [OF inv get t] keeps_new_page [OF inv get t]
    by (intro that [of s' t]) (simp_all add: s'_def del: list.map)
qed

lemma sched_init_spec:
  assumes ready: "boot_ready s" and idle: "idle \<noteq> NULL"
  obtains i1 i2 s' where "sched_init sem idle s = Inr s'"
    "kernel_inv (boot_heads sem) ((\<lambda>_. [])(RUNQ := [i1, i2], WaitHead sem := [current s])) [i2, i1, current s] s'"
    "current s' = i1" "running s'" "init_task s' = current s"
    "distinct [i2, i1, current s]"
    "pid (tasks s' (current s)) = next_pid s + 1" "pid (tasks s' i1) = next_pid s + 2"
    "pid (tasks s' i2) = next_pid s + 3"
    "status (tasks s' (current s)) = TASK_BLOCKED" "priority (tasks s' (current s)) = 31"
    "priority (tasks s' i1) = 31" "sema_free sem s'" "count (semas s' sem) = 0"
    "free_pages (pages s) \<le> free_pages (pages s') + 2" "keeps (pages s) (pages s')"
proof -
  let ?i = "current s"
  define s2 where "s2 = first_task ?i (boot_base sem s)"
  have s2: "current s2 = ?i" "init_task s2 = ?i" "pages s2 = pages s" "next_pid s2 = next_pid s + 1"
    "semas s2 = semas (boot_base sem s)" "pid (tasks s2 ?i) = next_pid s + 1"
    "priority (tasks s2 ?i) = 31"
    by (simp_all add: s2_def first_task_def boot_base_simps fresh_task_def del: list.map)
  have inv2: "kernel_inv (boot_heads sem) ((\<lambda>_. [])(RUNQ := [?i])) [?i] s2"
    unfolding s2_def by (rule first_task_inv [OF ready])
  have in2: "init_task s2 \<in> set [?i]" by (simp add: s2)
  have free2: "1 \<le> free_pages (pages s2)" "2 \<le> free_pages (pages s2)"
    using ready by (simp_all add: s2 boot_ready_def)
  obtain i1 s3 where c3: "task_create idle sem (Some (map of_char ''idle'')) 31 TASK_READY s2 =
      Inr (next_pid s2 + 1, s3)"
    and inv3: "kernel_inv (boot_heads sem) (((\<lambda>_. [])(RUNQ := [?i]))(RUNQ := ((\<lambda>_. [])(RUNQ := [?i])) RUNQ @ [i1])) [i1, ?i] s3"
    and t3: "tasks s3 = (tasks s2)(i1 := (fresh_task i1 (map of_char ''idle'') 31 (next_pid s2 + 1))\<lparr>sp := i1 + 4056, status := TASK_READY\<rparr>)"
    and n3: "i1 \<notin> set [?i]" and s3: "current s3 = current s2" "init_task s3 = init_task s2"
      "semas s3 = semas s2" "next_pid s3 = next_pid s2 + 1"
    and f3: "free_pages (pages s2) \<le> free_pages (pages s3) + 1" "keeps (pages s2) (pages s3)"
    by (rule create_idle [OF inv2 idle in2 free2(1)])
  have free3: "1 \<le> free_pages (pages s3)" using f3(1) free2(2) by linarith
  have in3: "init_task s3 \<in> set [i1, ?i]" by (simp add: s2 s3)
  obtain i2 s4 where c4: "task_create idle NULL (Some (map of_char ''idle'')) 31 TASK_READY s3 =
      Inr (next_pid s3 + 1, s4)"
    and inv4: "kernel_inv (boot_heads sem) ((((\<lambda>_. [])(RUNQ := [?i]))(RUNQ := ((\<lambda>_. [])(RUNQ := [?i])) RUNQ @ [i1]))
      (RUNQ := ((((\<lambda>_. [])(RUNQ := [?i]))(RUNQ := ((\<lambda>_. [])(RUNQ := [?i])) RUNQ @ [i1]))) RUNQ @ [i2])) [i2, i1, ?i] s4"
    and t4: "tasks s4 = (tasks s3)(i2 := (fresh_task i2 (map of_char ''idle'') 31 (next_pid s3 + 1))\<lparr>sp := i2 + 4056, status := TASK_READY\<rparr>)"
    and n4: "i2 \<notin> set [i1, ?i]" and s4: "current s4 = current s3" "init_task s4 = init_task s3"
      "semas s4 = semas s3" "next_pid s4 = next_pid s3 + 1"
    and f4: "free_pages (pages s3) \<le> free_pages (pages s4) + 1" "keeps (pages s3) (pages s4)"
    by (rule create_idle [OF inv3 idle in3 free3])
  let ?Q = "(\<lambda>_. [])(RUNQ := [?i, i1, i2])"
  have inv4: "kernel_inv (boot_heads sem) ?Q [i2, i1, ?i] s4" using inv4 by simp
  have free: "sema_free sem s4" and cnt: "count (semas s4 sem) = 0"
    using boot_base_simps(7,8) [of sem s] by (simp_all add: s4 s3 s2 sema_free_def)
  have cur: "current s4 = ?i" by (simp add: s4 s3 s2)
  have ne: "(?Q(RUNQ := remove1 (current s4) (?Q RUNQ))) RUNQ \<noteq> []" using n3 by (simp add: cur)
  have cnt0: "sint (count (semas s4 sem)) \<le> 0" by (simp add: cnt)
  have mem: "current s4 \<in> set (?Q RUNQ)" by (simp add: cur)
  let ?sb = "upd_task ?i (\<lambda>t. t\<lparr>status := TASK_BLOCKED\<rparr>) s4"
  obtain g where down: "sema_down sem s4 = Inr (switched i1 g ?sb)"
    and inv5: "kernel_inv (boot_heads sem) ((\<lambda>_. [])(RUNQ := [i1, i2], WaitHead sem := [?i])) [i2, i1, ?i]
      (switched i1 g ?sb)"
    using sema_down_blocks [OF inv4 free cnt0 boot_headsI(2) boot_headsI(1) mem _ ne]
    by (auto simp: cur fun_upd_twist)
  have "sched_init sem idle s = sema_down sem s4"
    by (simp add: sched_init_unfold [OF ready] s2_def [symmetric] c3 c4 del: list.map)
  then show ?thesis
    using inv5 n3 n4 free cnt f3(1) f4(1) keeps_trans [OF f3(2) f4(2)]
    by (intro that [of "switched i1 g ?sb" i1 i2])
      (auto simp: down s4 s3 s2 t4 t3 fresh_task_def sema_free_def simp del: list.map)
qed


lemma kernel_inv_printk [simp]:
  "kernel_inv H Q A (s\<lparr>pages := printk_mm f a (pages s)\<rparr>) = kernel_inv H Q A s"
  by (simp add: kernel_inv_def task_ok_def valid_task_def pool_base_page_def)

text \<open>
  Boot, to the point where the first task runs again: the first idle task wakes it, and two
  turns of the round robin later it has the CPU. The semaphore is left at 1, although one
  \<open>sema_down\<close> and one \<open>sema_up\<close> have been made of it since it was set to 0.
\<close>

lemma boot_to_init:
  assumes ready: "boot_ready s" and idle: "idle \<noteq> NULL" and sem: "sem \<noteq> NULL"
  shows "\<exists>i1 i2 s1 s2 s3. sched_init sem idle s = Inr s1 \<and> current s1 = i1 \<and>
    idle_proc sem s1 = Inr s2 \<and> schedules 4 s2 = Inr s3 \<and> current s3 = current s \<and> running s3 \<and>
    kernel_inv (boot_heads sem) ((\<lambda>_. [])(RUNQ := [current s, i1, i2])) [i2, i1, current s] s3 \<and>
    count (semas s3 sem) = 1"
proof -
  let ?i = "current s" and ?Q = "\<lambda>i1 i2. (\<lambda>_. [])(RUNQ := [i1, i2], WaitHead sem := [current s])"
  obtain i1 i2 s1 where init: "sched_init sem idle s = Inr s1"
    and inv1: "kernel_inv (boot_heads sem) (?Q i1 i2) [i2, i1, ?i] s1"
    and s1: "current s1 = i1" "running s1" "distinct [i2, i1, ?i]"
      "status (tasks s1 ?i) = TASK_BLOCKED" "priority (tasks s1 ?i) = 31"
      "sema_free sem s1" "count (semas s1 sem) = 0"
    by (rule sched_init_spec [OF ready idle])
  let ?p = "s1\<lparr>pages := printk_mm (''--idle task--\<newline>  esp : %p'' @ [CHR 0x09]) [current s1] (pages s1)\<rparr>"
  define p where "p = ?p\<lparr>pages := printk_mm ''param : %p\<newline>'' [sem] (pages ?p)\<rparr>"
  have invp: "kernel_inv (boot_heads sem) (?Q i1 i2) [i2, i1, ?i] p"
    unfolding p_def using inv1 by (simp only: kernel_inv_printk)
  have p: "current p = i1" "tasks p = tasks s1" "semas p = semas s1" by (simp_all add: p_def s1)
  have q: "(?Q i1 i2) (WaitHead sem) = ?i # []" by simp
  have free: "sema_free sem p" using s1(6) by (simp add: sema_free_def p)
  have c: "0 < sint (count (semas p sem) + 1)" and b: "status (tasks p ?i) = TASK_BLOCKED"
    by (simp_all add: p s1)
  obtain s2 g where up: "sema_up sem p = Inr s2"
    and inv2: "kernel_inv (boot_heads sem) ((?Q i1 i2)(WaitHead sem := [],
        ReadyHead (unat (priority (tasks p ?i))) := (?Q i1 i2) (ReadyHead (unat (priority (tasks p ?i)))) @ [?i]))
      [i2, i1, ?i] s2"
    and s2: "s2 = upd_links g (upd_task ?i (\<lambda>t. t\<lparr>status := TASK_RUNNING\<rparr>) (upd_sema sem (\<lambda>x. x\<lparr>count := count x + 1\<rparr>) p))"
    by (rule sema_up_wakes [OF invp free boot_headsI(2) q c b])
  have prio: "unat (priority (tasks p ?i)) = 31" by (simp add: p s1)
  let ?R = "(?Q i1 i2)(WaitHead sem := [], RUNQ := [i1, i2, ?i])"
  have inv3: "kernel_inv (boot_heads sem) ?R [i2, i1, ?i] s2" using inv2 unfolding prio by simp
  have cur: "current s2 = i1" "running s2" and cnt: "count (semas s2 sem) = 1"
    using s1(2) by (auto simp: s2 p running_def s1)
  obtain s3 where s3: "schedules (2 * 2) s2 = Inr s3"
    "kernel_inv (boot_heads sem) (?R(RUNQ := rotate 2 [i1, i2, ?i])) [i2, i1, ?i] s3"
    "current s3 = hd (rotate 2 [i1, i2, ?i])" "running s3" "semas s3 = semas s2"
    using round_robin_steps [OF inv3, of "[i1, i2, ?i]" 2] cur by auto
  have rot: "rotate 2 [i1, i2, ?i] = [?i, i1, i2]" by (simp add: rotate_def numeral_2_eq_2)
  have Q: "?R(RUNQ := [?i, i1, i2]) = (\<lambda>_. [])(RUNQ := [?i, i1, i2])" by auto
  have "idle_proc sem s1 = Inr s2"
    using sem up by (simp add: idle_proc_def Let_def p_def)
  moreover have "kernel_inv (boot_heads sem) ((\<lambda>_. [])(RUNQ := [?i, i1, i2])) [i2, i1, ?i] s3"
    using s3(2) unfolding rot Q .
  ultimately show ?thesis
    using init s1(1) s3 cnt by (intro exI [of _ i1] exI [of _ i2] exI [of _ s1] exI [of _ s2]
        exI [of _ s3]) (simp add: rot)
qed

end
