(* ===== verification/Kernel_Run.thy ===== *)
theory Kernel_Run
  imports Boot
begin

text \<open>
  The kernel as a whole: sequences of timer ticks, schedules, task creations and exits and
  semaphore operations. \<open>kernel_run\<close> makes every call of a sequence; \<open>calls_ok\<close> says that
  each is one its callers may make. From a state with a live idle task no such sequence
  faults or spins, and the invariant of lists, tasks, pages and semaphores holds throughout.
\<close>

section \<open>Sequences of kernel calls\<close>

datatype kernel_call =
    Tick
  | Schedule
  | Create u32 u32 "u8 list" i32 task_status
  | Exit
  | Down u32
  | Up u32
  | Init u32 i32

fun kernel_do :: "kernel_call \<Rightarrow> kernel \<Rightarrow> kernel result" where
  "kernel_do Tick s = Inr (task_tick s)"
| "kernel_do Schedule s = schedule s"
| "kernel_do (Create proc params nm prio st) s =
     bindE (task_create proc params (Some nm) prio st s) (\<lambda>(p, s). Inr s)"
| "kernel_do Exit s = task_exit s"
| "kernel_do (Down a) s = sema_down a s"
| "kernel_do (Up a) s = sema_up a s"
| "kernel_do (Init a c) s = Inr (sema_init a c s)"

fun kernel_run :: "kernel_call list \<Rightarrow> kernel \<Rightarrow> kernel result" where
  "kernel_run [] s = Inr s"
| "kernel_run (c # cs) s = bindE (kernel_do c s) (kernel_run cs)"

text \<open>
  The calls the running task may make: operations on semaphores that have been initialised,
  initialisations of semaphores nobody waits for, valid priorities, and no exit and no wait
  by the idle task, which stays ready for ever. The code checks none of this;
  \<open>task_create_bad_arguments\<close> shows what a bad priority does.
\<close>

fun allowed :: "u32 set \<Rightarrow> u32 \<Rightarrow> kernel \<Rightarrow> kernel_call \<Rightarrow> bool" where
  "allowed sems idle s (Create proc params nm prio st) \<longleftrightarrow> valid_priority prio"
| "allowed sems idle s Exit \<longleftrightarrow> current s \<noteq> idle"
| "allowed sems idle s (Down a) \<longleftrightarrow> a \<in> sems \<and> current s \<noteq> idle"
| "allowed sems idle s (Up a) \<longleftrightarrow> a \<in> sems"
| "allowed sems idle s (Init a c) \<longleftrightarrow> a \<notin> sems \<or> list_empty (WaitHead a) (links s)"
| "allowed sems idle s _ \<longleftrightarrow> True"

text \<open>The initialised semaphores after a call, and a sequence each of whose calls is allowed in the state it is made in.\<close>

fun sems_after :: "u32 set \<Rightarrow> kernel_call \<Rightarrow> u32 set" where
  "sems_after sems (Init a c) = insert a sems"
| "sems_after sems _ = sems"

fun sems_run :: "u32 set \<Rightarrow> kernel_call list \<Rightarrow> u32 set" where
  "sems_run sems [] = sems"
| "sems_run sems (c # cs) = sems_run (sems_after sems c) cs"

fun calls_ok :: "u32 set \<Rightarrow> u32 \<Rightarrow> kernel_call list \<Rightarrow> kernel \<Rightarrow> bool" where
  "calls_ok sems idle [] s \<longleftrightarrow> True"
| "calls_ok sems idle (c # cs) s \<longleftrightarrow> allowed sems idle s c \<and>
     (case kernel_do c s of Inl e \<Rightarrow> True | Inr s' \<Rightarrow> calls_ok (sems_after sems c) idle cs s')"

section \<open>The invariant of the whole\<close>

definition heads :: "u32 set \<Rightarrow> node set" where
  "heads sems = ReadyHead ` {..<64} \<union> WaitHead ` sems"

lemma heads_simps [simp]: "ReadyHead p \<in> heads S \<longleftrightarrow> p < 64" "WaitHead a \<in> heads S \<longleftrightarrow> a \<in> S"
  by (auto simp: heads_def)

lemma heads_boot: "boot_heads sem = heads {sem}"
  by (auto simp: heads_def boot_heads_def)

definition waits_ok :: "u32 set \<Rightarrow> (node \<Rightarrow> u32 list) \<Rightarrow> kernel \<Rightarrow> bool" where
  "waits_ok sems Q s \<longleftrightarrow>
     (\<forall>a\<in>sems. sema_free a s \<and> (\<forall>t\<in>set (Q (WaitHead a)). status (tasks s t) = TASK_BLOCKED))"

definition sys :: "u32 set \<Rightarrow> u32 \<Rightarrow> (node \<Rightarrow> u32 list) \<Rightarrow> u32 list \<Rightarrow> kernel \<Rightarrow> bool" where
  "sys sems idle Q A s \<longleftrightarrow> kernel_inv (heads sems) Q A s \<and> running s \<and>
     current s \<in> set (Q RUNQ) \<and> idle \<in> set (Q RUNQ) \<and> init_task s \<in> set A \<and> waits_ok sems Q s"

definition sys_inv :: "u32 set \<Rightarrow> u32 \<Rightarrow> kernel \<Rightarrow> bool" where
  "sys_inv sems idle s \<longleftrightarrow> (\<exists>Q A. sys sems idle Q A s)"

text \<open>
  Beside the invariant, every call leaves the ready queues of the other levels in place:
  nothing takes a task out of them. \<open>sys_after\<close> says both.
\<close>

definition sys_after :: "u32 set \<Rightarrow> u32 \<Rightarrow> (node \<Rightarrow> u32 list) \<Rightarrow> kernel \<Rightarrow> bool" where
  "sys_after sems idle Q s \<longleftrightarrow> (\<exists>Q' A. sys sems idle Q' A s \<and>
     (\<forall>p. p \<noteq> 31 \<longrightarrow> set (Q (ReadyHead p)) \<subseteq> set (Q' (ReadyHead p))))"

lemma sys_afterI:
  "sys sems idle Q' A s \<Longrightarrow> (\<And>p. p \<noteq> 31 \<Longrightarrow> set (Q (ReadyHead p)) \<subseteq> set (Q' (ReadyHead p))) \<Longrightarrow>
   sys_after sems idle Q s"
  by (auto simp: sys_after_def)

lemma sys_afterD: "sys_after sems idle Q s \<Longrightarrow> sys_inv sems idle s"
  by (auto simp: sys_after_def sys_inv_def)

lemma sysD:
  assumes "sys sems idle Q A s"
  shows "kernel_inv (heads sems) Q A s" "running s" "current s \<in> set (Q RUNQ)" "idle \<in> set (Q RUNQ)"
    "init_task s \<in> set A" "waits_ok sems Q s" "Q RUNQ \<noteq> []" "current s \<noteq> NULL"
    "distinct (Q RUNQ)" "RUNQ \<in> heads sems" "lists (heads sems) Q A (links s)"
proof -
  show inv: "kernel_inv (heads sems) Q A s" "running s" "current s \<in> set (Q RUNQ)"
    "idle \<in> set (Q RUNQ)" "init_task s \<in> set A" "waits_ok sems Q s"
    using assms by (simp_all add: sys_def)
  show "RUNQ \<in> heads sems" by simp
  note D = kernel_invD [OF inv(1)]
  show "current s \<noteq> NULL" using D(8) [OF D(5) [OF \<open>RUNQ \<in> heads sems\<close> inv(3)]] .
  show "distinct (Q RUNQ)" by (rule lists_distinct(1) [OF D(1)]) simp
  show "Q RUNQ \<noteq> []" using inv(3) by auto
  show "lists (heads sems) Q A (links s)" by (rule D(1))
qed

lemma not_waiting:
  assumes "lists (heads sems) Q A m" "a \<in> sems" "t \<in> set (Q RUNQ)"
  shows "t \<notin> set (Q (WaitHead a))"
proof -
  have "WaitHead a \<in> heads sems" "RUNQ \<in> heads sems" using assms(2) by simp_all
  then have "set (Q (WaitHead a)) \<inter> set (Q RUNQ) = {}"
    using assms(1) unfolding lists_def by blast
  then show ?thesis using assms(3) by blast
qed

text \<open>Statuses may change for tasks in the ready queue, and queues other than the wait lists may change.\<close>

lemma waits_ok_change:
  assumes "waits_ok sems Q s" "lists (heads sems) Q A m"
    and "\<And>a. a \<in> sems \<Longrightarrow> Q' (WaitHead a) = Q (WaitHead a) \<and> sema_slock (semas s' a) = sema_slock (semas s a)"
    and "\<And>t. t \<notin> set (Q RUNQ) \<Longrightarrow> status (tasks s' t) = status (tasks s t)"
  shows "waits_ok sems Q' s'"
  unfolding waits_ok_def sema_free_def
  using assms not_waiting [OF assms(2)] unfolding waits_ok_def sema_free_def by metis

section \<open>Every call keeps it\<close>

lemma sys_schedule:
  assumes sys: "sys sems idle Q A s"
  shows "\<exists>s'. schedule s = Inr s' \<and> sys_after sems idle Q s'"
proof -
  note S = sysD [OF sys]
  let ?Q = "Q(RUNQ := remove1 (current s) (Q RUNQ) @ [current s])"
  obtain g where sch: "schedule s = Inr (switched (hd (Q RUNQ)) g s)"
    and inv: "kernel_inv (heads sems) ?Q A (switched (hd (Q RUNQ)) g s)"
    using schedule_spec [OF S(1,7,8), of RUNQ] S(2,3) by auto
  have set: "set (?Q RUNQ) = set (Q RUNQ)" using S(3,9) by auto
  have "waits_ok sems ?Q (switched (hd (Q RUNQ)) g s)"
    by (rule waits_ok_change [OF S(6,11)]) (use S(7) in auto)
  then have "sys sems idle ?Q A (switched (hd (Q RUNQ)) g s)"
    unfolding sys_def using inv set S(4,5,7) by (simp del: fun_upd_apply)
  then show ?thesis using sch by (auto intro!: sys_afterI split: if_splits)
qed

lemma sys_exit:
  assumes sys: "sys sems idle Q A s" and ni: "current s \<noteq> idle"
  shows "\<exists>s'. task_exit s = Inr s' \<and> sys_after sems idle Q s'"
proof -
  note S = sysD [OF sys]
  let ?Q = "Q(RUNQ := remove1 (current s) (Q RUNQ))"
  have idle: "idle \<in> set (?Q RUNQ)" using S(4) ni by (simp add: in_set_remove1)
  then have ne: "?Q RUNQ \<noteq> []" by auto
  obtain g s1 where ex: "task_exit s = Inr (switched (hd (?Q RUNQ)) g s1)"
    and s1: "s1 = upd_task (current s) (\<lambda>t. t\<lparr>status := TASK_DYING\<rparr>) s"
    and inv: "kernel_inv (heads sems) ?Q A (switched (hd (?Q RUNQ)) g s1)"
    by (rule task_exit_spec [OF S(1,10,3) ne])
  have hd: "hd (?Q RUNQ) \<in> set (?Q RUNQ)" using ne by (rule hd_in_set)
  have sub: "hd (?Q RUNQ) \<in> set (Q RUNQ)"
    using hd set_remove1_subset [of "current s" "Q RUNQ"] by auto
  have "waits_ok sems ?Q (switched (hd (?Q RUNQ)) g s1)"
    by (rule waits_ok_change [OF S(6,11)]) (use sub S(3) in \<open>auto simp: s1\<close>)
  then have "sys sems idle ?Q A (switched (hd (?Q RUNQ)) g s1)"
    unfolding sys_def using inv hd idle S(5) s1 by (simp del: fun_upd_apply)
  then show ?thesis using ex by (auto intro!: sys_afterI split: if_splits)
qed

lemma task_tick_eq:
  "task_tick s = (let c = current s; r = time_slice_res (tasks s c) - 1
     in if sint r \<le> 0
        then (upd_task c (\<lambda>t. t\<lparr>time_slice_res := time_slice_init t\<rparr>) s)\<lparr>sched_on_return := True\<rparr>
        else upd_task c (\<lambda>t. t\<lparr>time_slice_res := r\<rparr>) s)"
  by (simp add: task_tick_def Let_def set_flag_schedule_on_return_def upd_task_def)

lemma sys_tick:
  assumes sys: "sys sems idle Q A s"
  shows "sys_after sems idle Q (task_tick s)"
proof -
  note S = sysD [OF sys] and D = kernel_invD [OF sysD(1) [OF sys]]
  have "kernel_inv (heads sems) Q A (task_tick s)"
    by (rule kernel_inv_same [OF S(1)]) (simp_all add: task_tick_eq Let_def D(2,3))
  moreover have "waits_ok sems Q (task_tick s)"
    by (rule waits_ok_change [OF S(6,11)]) (simp_all add: task_tick_eq Let_def)
  moreover have "running (task_tick s)" "current (task_tick s) = current s"
    "init_task (task_tick s) = init_task s"
    using S(2) by (simp_all add: task_tick_eq Let_def running_def)
  ultimately show ?thesis using S(3-5) by (intro sys_afterI [of _ _ Q A]) (auto simp: sys_def)
qed


lemma kernel_inv_pages:
  assumes "kernel_inv H Q A s" "pool_inv m" "taken m = taken (pages s)" "kernel_pool m = kernel_pool (pages s)"
  shows "kernel_inv H Q A (s\<lparr>pages := m\<rparr>)"
proof -
  have "pool_base_page m = pool_base_page (pages s)" using assms(4) by (simp add: pool_base_page_def)
  then show ?thesis using assms by (simp add: kernel_inv_def task_ok_def valid_task_def)
qed

lemma task_create_cases:
  assumes inv: "kernel_inv H Q A s"
  obtains (no_proc) "proc = NULL" "task_create proc params name prio st s = Inr (- 1, s)"
    | (no_page) m where "proc \<noteq> NULL" "mm_kget_page PF_ZERO (pages s) = Inr (NULL, m)"
        "task_create proc params name prio st s = Inr (- 1, s\<lparr>pages := m\<rparr>)"
        "kernel_inv H Q A (s\<lparr>pages := m\<rparr>)"
    | (page) tsk m where "proc \<noteq> NULL" "mm_kget_page PF_ZERO (pages s) = Inr (tsk, m)" "tsk \<noteq> NULL"
proof (cases "proc = NULL")
  case True
  then show ?thesis by (intro no_proc) (simp_all add: task_create_no_proc)
next
  case False
  obtain tsk m where get: "mm_kget_pages PF_ZERO 1 (pages s) = Inr (tsk, m)"
    using kget_returns [OF kernel_invD(6) [OF inv]] .
  then have get': "mm_kget_page PF_ZERO (pages s) = Inr (tsk, m)" by (simp add: mm_kget_page_def)
  show ?thesis
  proof (cases "tsk = NULL")
    case True
    note null = kget_null [OF kernel_invD(6) [OF inv] get [unfolded True]]
    show ?thesis
      using no_page [of m] False get' True task_create_no_page [of s m proc params name prio st]
        kernel_inv_pages [OF inv null(1-3)] by simp
  qed (use page False get' in blast)
qed

lemma sys_create:
  assumes sys: "sys sems idle Q A s" and prio: "valid_priority prio"
  shows "\<exists>p s'. task_create proc params (Some nm) prio st s = Inr (p, s') \<and> sys_after sems idle Q s'"
proof -
  note S = sysD [OF sys]
  from S(1) show ?thesis
  proof (cases rule: task_create_cases [where proc = proc and params = params and name = "Some nm"
        and prio = prio and st = st])
    case no_proc
    then show ?thesis using sys by (auto intro!: sys_afterI split: if_splits)
  next
    case (no_page m)
    then have "sys sems idle Q A (s\<lparr>pages := m\<rparr>)"
      using sys by (simp add: sys_def running_def waits_ok_def sema_free_def)
    then show ?thesis using no_page by (auto intro!: sys_afterI split: if_splits)
  next
    case (page tsk m)
    let ?k = "ReadyHead (unat prio)" and ?s = "created tsk proc params nm prio st m s"
    note create = task_create_spec [OF S(1) page(1) prio page(2,3) S(5), of params nm st]
    have nA: "tsk \<notin> set A" by (rule new_page(1) [OF S(1) page(2,3)])
    have inA: "\<And>h t. h \<in> heads sems \<Longrightarrow> t \<in> set (Q h) \<Longrightarrow> t \<in> set A"
      using kernel_invD(5) [OF S(1)] .
    have old: "tasks ?s t = tasks s t" if "t \<in> set A" for t using that nA by auto
    have cur: "current s \<in> set A" by (rule inA [OF S(10,3)])
    have "waits_ok sems (Q(?k := Q ?k @ [tsk])) ?s"
      unfolding waits_ok_def
    proof (intro ballI conjI)
      fix a assume a: "a \<in> sems"
      then show "sema_free a ?s" using S(6) by (simp add: waits_ok_def sema_free_def)
      fix t assume "t \<in> set ((Q(?k := Q ?k @ [tsk])) (WaitHead a))"
      then have "t \<in> set (Q (WaitHead a))" by simp
      moreover from this have "t \<in> set A" by (rule inA [rotated]) (simp add: a)
      ultimately show "status (tasks ?s t) = TASK_BLOCKED"
        using S(6) a old by (simp only: waits_ok_def)
    qed
    moreover have "running ?s" using S(2) old [OF cur] by (simp only: running_def created_simps)
    ultimately have "sys sems idle (Q(?k := Q ?k @ [tsk])) (tsk # A) ?s"
      unfolding sys_def using create(2) S(3-5) by auto
    then show ?thesis using create(1) by (auto intro!: sys_afterI split: if_splits)
  qed
qed

lemma sys_down:
  assumes sys: "sys sems idle Q A s" and a: "a \<in> sems" and ni: "current s \<noteq> idle"
  shows "\<exists>s'. sema_down a s = Inr s' \<and> sys_after sems idle Q s'"
proof -
  note S = sysD [OF sys]
  have free: "sema_free a s" using S(6) a by (simp add: waits_ok_def)
  show ?thesis
  proof (cases "0 < sint (count (semas s a))")
    case True
    let ?s = "upd_sema a (\<lambda>x. x\<lparr>count := count x - 1\<rparr>) s"
    have "waits_ok sems Q ?s" by (rule waits_ok_change [OF S(6,11)]) simp_all
    then have "sys sems idle Q A ?s" using sys by (simp add: sys_def)
    then show ?thesis using sema_down_free [OF free True] by (auto intro!: sys_afterI split: if_splits)
  next
    case False
    let ?Q = "Q(RUNQ := remove1 (current s) (Q RUNQ))"
    let ?W = "?Q(WaitHead a := current s # Q (WaitHead a))"
    let ?b = "upd_task (current s) (\<lambda>t. t\<lparr>status := TASK_BLOCKED\<rparr>) s"
    have idle: "idle \<in> set (?Q RUNQ)" using S(4) ni by (simp add: in_set_remove1)
    then have ne: "?Q RUNQ \<noteq> []" by auto
    let ?n = "hd (?Q RUNQ)"
    have c0: "sint (count (semas s a)) \<le> 0" using False by simp
    have w: "WaitHead a \<in> heads sems" using a by simp
    obtain g where down: "sema_down a s = Inr (switched ?n g ?b)"
      and inv: "kernel_inv (heads sems) ?W A (switched ?n g ?b)"
      by (rule sema_down_blocks [OF S(1) free c0 w S(10,3) _ ne]) simp
    have hd: "?n \<in> set (?Q RUNQ)" using ne by (rule hd_in_set)
    then have n: "?n \<noteq> current s" "?n \<in> set (Q RUNQ)" using S(9) by auto
    have "waits_ok sems ?W (switched ?n g ?b)"
      unfolding waits_ok_def
    proof (intro ballI conjI)
      fix b assume b: "b \<in> sems"
      then show "sema_free b (switched ?n g ?b)" using S(6) by (simp add: waits_ok_def sema_free_def)
      fix t assume "t \<in> set (?W (WaitHead b))"
      then have "t = current s \<or> t \<in> set (Q (WaitHead b))" by (auto split: if_splits)
      moreover have "t \<in> set (Q (WaitHead b)) \<Longrightarrow> t \<noteq> ?n" using not_waiting [OF S(11) b n(2)] by blast
      ultimately show "status (tasks (switched ?n g ?b) t) = TASK_BLOCKED"
        using S(6) b n(1) by (auto simp: waits_ok_def)
    qed
    then have "sys sems idle ?W A (switched ?n g ?b)"
      unfolding sys_def using inv hd idle S(5) by simp
    then show ?thesis using down by (auto intro!: sys_afterI split: if_splits)
  qed
qed

lemma sys_up:
  assumes sys: "sys sems idle Q A s" and a: "a \<in> sems"
  shows "\<exists>s'. sema_up a s = Inr s' \<and> sys_after sems idle Q s'"
proof -
  note S = sysD [OF sys]
  have free: "sema_free a s" using S(6) a by (simp add: waits_ok_def)
  have w: "WaitHead a \<in> heads sems" using a by simp
  let ?u = "upd_sema a (\<lambda>x. x\<lparr>count := count x + 1\<rparr>) s"
  show ?thesis
  proof (cases "Q (WaitHead a) = [] \<or> sint (count (semas s a) + 1) \<le> 0")
    case True
    have "waits_ok sems Q ?u" by (rule waits_ok_change [OF S(6,11)]) simp_all
    then have "sys sems idle Q A ?u" using sys by (simp add: sys_def)
    then show ?thesis using sema_up_no_waiter [OF S(1) free w True] by (auto intro!: sys_afterI split: if_splits)
  next
    case False
    then obtain t ws where q: "Q (WaitHead a) = t # ws" by (cases "Q (WaitHead a)") auto
    have c: "0 < sint (count (semas s a) + 1)" using False by auto
    have b: "status (tasks s t) = TASK_BLOCKED" using S(6) a q by (auto simp: waits_ok_def)
    let ?k = "ReadyHead (unat (priority (tasks s t)))"
    let ?Q = "Q(WaitHead a := ws, ?k := Q ?k @ [t])"
    obtain s' g where up: "sema_up a s = Inr s'" and inv: "kernel_inv (heads sems) ?Q A s'"
      and s': "s' = upd_links g (upd_task t (\<lambda>t. t\<lparr>status := TASK_RUNNING\<rparr>) ?u)"
      by (rule sema_up_wakes [OF S(1) free w q c b])
    have once: "t \<notin> set (?Q (WaitHead b))" if b: "b \<in> sems" for b
    proof (cases "b = a")
      case True
      then show ?thesis using lists_distinct(1) [OF S(11) w] q by simp
    next
      case False
      have "WaitHead b \<in> heads sems" using b by simp
      then have "set (Q (WaitHead b)) \<inter> set (Q (WaitHead a)) = {}"
        using S(11) w False unfolding lists_def by blast
      then show ?thesis using q False by auto
    qed
    have "waits_ok sems ?Q s'"
      unfolding waits_ok_def
    proof (intro ballI conjI)
      fix b assume b: "b \<in> sems"
      then show "sema_free b s'" using S(6) by (auto simp: waits_ok_def sema_free_def s')
      fix t' assume t': "t' \<in> set (?Q (WaitHead b))"
      then have "t' \<in> set (Q (WaitHead b))" using q by (auto split: if_splits)
      moreover have "t' \<noteq> t" using once [OF b] t' by blast
      ultimately show "status (tasks s' t') = TASK_BLOCKED"
        using S(6) b by (simp add: waits_ok_def s')
    qed
    moreover have "running s'" using S(2) by (simp add: running_def s')
    ultimately have "sys sems idle ?Q A s'"
      unfolding sys_def using inv S(3-5) by (auto simp: s')
    then show ?thesis using up by (auto intro!: sys_afterI split: if_splits)
  qed
qed

text \<open>What a call does to the semaphores: \<open>schedule\<close> nothing, \<open>sema_up\<close> one more, whoever waits.\<close>

lemma sys_schedule_semas:
  assumes "sys sems idle Q A s" "schedule s = Inr s'"
  shows "semas s' = semas s"
proof -
  note S = sysD [OF assms(1)]
  obtain g where "schedule s = Inr (switched (hd (Q RUNQ)) g s)"
    using schedule_spec [OF S(1,7,8), of RUNQ] S(2,3) by auto
  then show ?thesis using assms(2) by simp
qed

lemma sys_up_semas:
  assumes sys: "sys sems idle Q A s" and a: "a \<in> sems" and up: "sema_up a s = Inr s'"
  shows "semas s' = (semas s)(a := (semas s a)\<lparr>count := count (semas s a) + 1\<rparr>)"
proof -
  note S = sysD [OF sys]
  have free: "sema_free a s" using S(6) a by (simp add: waits_ok_def)
  have w: "WaitHead a \<in> heads sems" using a by simp
  show ?thesis
  proof (cases "Q (WaitHead a) = [] \<or> sint (count (semas s a) + 1) \<le> 0")
    case True
    then show ?thesis using sema_up_no_waiter [OF S(1) free w True] up by (simp add: upd_sema_def)
  next
    case False
    then obtain t ws where q: "Q (WaitHead a) = t # ws" by (cases "Q (WaitHead a)") auto
    have c: "0 < sint (count (semas s a) + 1)" using False by auto
    have b: "status (tasks s t) = TASK_BLOCKED" using S(6) a q by (auto simp: waits_ok_def)
    obtain k g where "sema_up a s = Inr k"
        "k = upd_links g (upd_task t (\<lambda>t. t\<lparr>status := TASK_RUNNING\<rparr>) (upd_sema a (\<lambda>x. x\<lparr>count := count x + 1\<rparr>) s))"
      by (rule sema_up_wakes [OF S(1) free w q c b])
    then show ?thesis using up by simp
  qed
qed

text \<open>A semaphore initialised later joins the others; one nobody waits for may be initialised again.\<close>

lemma sema_init_frame [simp]:
  "tasks (sema_init a c s) = tasks s" "current (sema_init a c s) = current s" "init_task (sema_init a c s) = init_task s"
  "pages (sema_init a c s) = pages s"
  by (simp_all add: sema_init_def Let_def)

lemma sema_init_waits_ok:
  "waits_ok S Q s \<Longrightarrow> waits_ok (insert a S) (Q(WaitHead a := [])) (sema_init a c s)"
  by (auto simp: waits_ok_def sema_free_def) (auto simp: sema_init_def Let_def)

lemma sys_sema_init:
  assumes "sys S idle Q A s" "a \<notin> S"
  shows "sys (insert a S) idle (Q(WaitHead a := [])) A (sema_init a c s)"
proof -
  have "insert (WaitHead a) (heads S) = heads (insert a S)" by (auto simp: heads_def)
  then have "kernel_inv (heads (insert a S)) (Q(WaitHead a := [])) A (sema_init a c s)"
    using sema_init_inv(1) [OF sysD(1) [OF assms(1)], of a c] assms(2) by simp
  then show ?thesis
    using assms(1) sema_init_waits_ok [OF sysD(6) [OF assms(1)]] by (simp add: sys_def running_def)
qed

lemma sys_sema_reinit:
  assumes sys: "sys S idle Q A s" and a: "a \<in> S" and none: "list_empty (WaitHead a) (links s)"
  shows "sys S idle Q A (sema_init a c s)"
proof -
  note S = sysD [OF sys]
  have w: "WaitHead a \<in> heads S" using a by simp
  have r: "ring (links s) (WaitHead a) (map QNode (Q (WaitHead a)))" by (rule lists_ring [OF S(11) w])
  then have q: "Q (WaitHead a) = []" using dl.rep_is_empty [OF r] none by simp
  then have same: "list_head_init (WaitHead a) (links s) = links s" using list_head_init_empty r by simp
  have links: "links (sema_init a c s) = links s" by (simp add: sema_init_def Let_def same)
  have Q: "Q(WaitHead a := []) = Q" "insert a S = S" using q a by auto
  have "kernel_inv (heads S) Q A (sema_init a c s)"
    by (rule kernel_inv_same [OF S(1)])
       (use kernel_invD(2,3) [OF S(1)] in \<open>simp_all add: links\<close>, simp_all add: sema_init_def Let_def)
  then show ?thesis
    using sys sema_init_waits_ok [OF S(6), of a c] unfolding Q by (simp add: sys_def running_def)
qed

lemma sys_init:
  assumes sys: "sys sems idle Q A s" and ok: "allowed sems idle s (Init a c)"
  shows "sys_after (insert a sems) idle Q (sema_init a c s)"
proof (cases "a \<in> sems")
  case True
  then have "sys (insert a sems) idle Q A (sema_init a c s)"
    using sys_sema_reinit [OF sys True] ok by (simp add: insert_absorb)
  then show ?thesis by (rule sys_afterI) simp
next
  case False
  show ?thesis by (rule sys_afterI [OF sys_sema_init [OF sys False]]) simp
qed

lemma kernel_do_after:
  assumes sys: "sys sems idle Q A s" and ok: "allowed sems idle s c"
  shows "\<exists>s'. kernel_do c s = Inr s' \<and> sys_after (sems_after sems c) idle Q s'"
proof (cases c)
  case (Create proc params nm prio st)
  then have "valid_priority prio" using ok by simp
  from sys_create [OF sys this, of proc params nm st] show ?thesis by (auto simp: Create)
qed (use ok sys_tick [OF sys] sys_schedule [OF sys] sys_exit [OF sys] sys_down [OF sys]
    sys_up [OF sys] sys_init [OF sys] in simp_all)

lemma kernel_run_after:
  "sys sems idle Q A s \<Longrightarrow> calls_ok sems idle cs s \<Longrightarrow>
   \<exists>s'. kernel_run cs s = Inr s' \<and> sys_after (sems_run sems cs) idle Q s'"
proof (induction cs arbitrary: sems Q A s)
  case Nil
  then show ?case by (auto intro: sys_afterI)
next
  case (Cons c cs)
  then obtain s1 Q1 A1 where s1: "kernel_do c s = Inr s1" "sys (sems_after sems c) idle Q1 A1 s1"
    "\<And>p. p \<noteq> 31 \<Longrightarrow> set (Q (ReadyHead p)) \<subseteq> set (Q1 (ReadyHead p))"
    using kernel_do_after [OF Cons.prems(1), of c] unfolding sys_after_def by auto
  obtain s' where s': "kernel_run cs s1 = Inr s'"
    "sys_after (sems_run (sems_after sems c) cs) idle Q1 s'"
    using Cons.IH [OF s1(2)] Cons.prems(2) s1(1) by auto
  then have "sys_after (sems_run (sems_after sems c) cs) idle Q s'"
    using s1(3) unfolding sys_after_def by (meson order_trans)
  then show ?case using s1(1) s'(1) by simp
qed

lemma kernel_run_inv:
  assumes "sys_inv sems idle s" "calls_ok sems idle cs s"
  shows "\<exists>s'. kernel_run cs s = Inr s' \<and> sys_inv (sems_run sems cs) idle s'"
  using assms kernel_run_after sys_afterD unfolding sys_inv_def [of _ _ s] by blast

text \<open>The scheduler starts in such a state, with the first idle task running.\<close>

lemma sched_init_sys:
  assumes ready: "boot_ready s" and idle: "idle \<noteq> NULL"
  shows "\<exists>s'. sched_init sem idle s = Inr s' \<and> sys_inv {sem} (current s') s'"
proof -
  obtain i1 i2 s' where init: "sched_init sem idle s = Inr s'"
    and inv: "kernel_inv (boot_heads sem) ((\<lambda>_. [])(RUNQ := [i1, i2], WaitHead sem := [current s])) [i2, i1, current s] s'"
    and s': "current s' = i1" "running s'" "init_task s' = current s"
      "status (tasks s' (current s)) = TASK_BLOCKED" "sema_free sem s'"
    by (rule sched_init_spec [OF ready idle])
  have "sys {sem} (current s') ((\<lambda>_. [])(RUNQ := [i1, i2], WaitHead sem := [current s])) [i2, i1, current s] s'"
    using inv s' by (simp add: sys_def heads_boot waits_ok_def)
  then show ?thesis using init by (auto simp: sys_inv_def)
qed

end
