(* ===== verification/Kernel_Props.thy ===== *)
theory Kernel_Props
  imports Kernel_Run
begin

text \<open>
  The properties of the tasks, the scheduler and the semaphores, each applied to a small
  concrete machine: \<open>start_kernel\<close> has a pool of eight free pages above its boot stack
  and arbitrary contents in everything \<open>sched_init\<close> sets up.
\<close>

section \<open>A concrete machine\<close>

definition start_kernel :: kernel where
  "start_kernel = \<lparr>tasks = \<lambda>_. zero_task, links = \<lparr>lprev = \<lambda>n. n, lnext = \<lambda>n. n\<rparr>,
     pid_slock = 0, list_slock = 0, init_task = 0, next_pid = - 1, current = 0xC009E000,
     pages = \<lparr>kernel_pool = \<lparr>slock = 1, bm = \<lparr>bit_count = 8, bits = \<lambda>_. 0\<rparr>, base = 0xC0101000\<rparr>,
              mem = \<lambda>_. 0, klog = []\<rparr>,
     semas = \<lambda>_. \<lparr>sema_slock = 0, count = 7\<rparr>, intr_on = False, in_interrupt_flag = False,
     sched_on_return = False, addr_task_exit = 0xC0020100, addr_switch_initial = 0xC0020200\<rparr>"

lemma start_pool:
  "pool_inv (pages start_kernel)" "free_pages (pages start_kernel) = 8"
  "taken (pages start_kernel) = {}"
proof -
  show "pool_inv (pages start_kernel)" by (simp add: start_kernel_def pool_inv_def)
  show tk: "taken (pages start_kernel) = {}"
    by (simp add: start_kernel_def taken_def bit_at_def)
  show "free_pages (pages start_kernel) = 8"
    unfolding free_pages_def tk by (simp add: start_kernel_def pool_pages_def)
qed

lemma start_ready: "boot_ready start_kernel"
  unfolding boot_ready_def using start_pool
  by (simp add: start_kernel_def pool_base_page_def)

lemma start_current: "current start_kernel = 0xC009E000"
  by (simp add: start_kernel_def)

text \<open>Its state after the boot sequence, and after \<open>sched_init\<close> alone.\<close>

lemma start_booted:
  obtains i1 i2 s where
    "kernel_inv (boot_heads 4096) ((\<lambda>_. [])(RUNQ := [0xC009E000, i1, i2])) [i2, i1, 0xC009E000] s"
    "current s = 0xC009E000" "running s"
  using boot_to_init [OF start_ready, of 1 4096] unfolding start_current by auto

lemma start_scheduled:
  obtains i1 i2 s where "sched_init 4096 1 start_kernel = Inr s"
    "sys {4096} i1 ((\<lambda>_. [])(RUNQ := [i1, i2], WaitHead 4096 := [0xC009E000])) [i2, i1, 0xC009E000] s"
    "current s = i1" "count (semas s 4096) = 0" "6 \<le> free_pages (pages s)" "i1 \<noteq> i2"
    "priority (tasks s 0xC009E000) = 31" "priority (tasks s i1) = 31"
proof -
  obtain i1 i2 s where s: "sched_init 4096 1 start_kernel = Inr s"
    "kernel_inv (boot_heads 4096) ((\<lambda>_. [])(RUNQ := [i1, i2], WaitHead 4096 := [current start_kernel]))
      [i2, i1, current start_kernel] s"
    "current s = i1" "running s" "init_task s = current start_kernel"
    "distinct [i2, i1, current start_kernel]"
    "status (tasks s (current start_kernel)) = TASK_BLOCKED"
    "priority (tasks s (current start_kernel)) = 31" "priority (tasks s i1) = 31" "sema_free 4096 s"
    "count (semas s 4096) = 0" "free_pages (pages start_kernel) \<le> free_pages (pages s) + 2"
    by (rule sched_init_spec [OF start_ready, of 1 4096]) simp
  have "sys {4096} i1 ((\<lambda>_. [])(RUNQ := [i1, i2], WaitHead 4096 := [0xC009E000])) [i2, i1, 0xC009E000] s"
    using s by (simp add: sys_def heads_boot waits_ok_def start_current)
  then show ?thesis
    using s start_pool(2) by (intro that [of s i1 i2]) (auto simp: start_current)
qed

section \<open>The kernel as a whole\<close>



text \<open>
  C18: Boot reaches the first task again: \<open>sched_init\<close> blocks it on the semaphore and switches
  to the first idle task, whose \<open>idle_proc\<close> wakes it, and after four calls of \<open>schedule\<close>
  the first task has the CPU, in front of the two idle tasks. The semaphore is left at 1.
\<close>

theorem boot_reaches_init:
  assumes "boot_ready s" "idle \<noteq> NULL" "sem \<noteq> NULL"
  shows "\<exists>i1 i2 s1 s2 s3. sched_init sem idle s = Inr s1 \<and> current s1 = i1 \<and>
    idle_proc sem s1 = Inr s2 \<and> schedules 4 s2 = Inr s3 \<and> current s3 = current s \<and> running s3 \<and>
    kernel_inv (boot_heads sem) ((\<lambda>_. [])(RUNQ := [current s, i1, i2])) [i2, i1, current s] s3 \<and>
    count (semas s3 sem) = 1"
  by (rule boot_to_init [OF assms])

theorem boot_reaches_init_witness:
  "\<exists>s1 s2 s3. sched_init 4096 1 start_kernel = Inr s1 \<and> idle_proc 4096 s1 = Inr s2 \<and>
    schedules 4 s2 = Inr s3 \<and> current s3 = 0xC009E000"
  using boot_reaches_init [OF start_ready, of 1 4096] unfolding start_current by fastforce

section \<open>Scheduling\<close>

text \<open>
  C2: \<open>schedule\<close> implements its abstract step. The first task of the default level runs next,
  marked as running. A caller that is still running goes to the tail of that level, whatever
  queue it was in; a caller that has blocked or is dying is not queued again, and all queues
  stay as it left them. All other queues keep their order, no other task structure and no
  page changes, and interrupts are on again.
\<close>

theorem schedule_next:
  assumes "kernel_inv H Q A s" "Q RUNQ = t # ts" "current s \<in> set A"
    and "running s \<Longrightarrow> h \<in> H \<and> current s \<in> set (Q h)"
  shows "\<exists>s'. schedule s = Inr s' \<and> current s' = t \<and> running s' \<and> intr_on s' \<and>
    kernel_inv H (if running s then to_tail h RUNQ (current s) Q else Q) A s' \<and>
    tasks s' = (tasks s)(t := (tasks s t)\<lparr>status := TASK_RUNNING\<rparr>) \<and> pages s' = pages s"
proof -
  have "current s \<noteq> NULL" using kernel_invD(8) [OF assms(1,3)] .
  then obtain g where "schedule s = Inr (switched t g s)"
    "kernel_inv H (if running s then to_tail h RUNQ (current s) Q else Q) A (switched t g s)"
    using schedule_spec [OF assms(1), of h] assms(2,4) by auto
  then show ?thesis by (intro exI [of _ "switched t g s"]) simp
qed

text \<open>Both callers: the running first task, and the same task after it has left the queue to exit.\<close>

theorem schedule_next_witness:
  "(\<exists>i1 i2 s s'. running s \<and> schedule s = Inr s' \<and> current s' = 0xC009E000 \<and>
    kernel_inv (boot_heads 4096) ((\<lambda>_. [])(RUNQ := [i1, i2, 0xC009E000])) [i2, i1, 0xC009E000] s') \<and>
   (\<exists>i1 i2 s s'. current s = 0xC009E000 \<and> \<not> running s \<and> schedule s = Inr s' \<and> current s' = i1 \<and>
    kernel_inv (boot_heads 4096) ((\<lambda>_. [])(RUNQ := [i1, i2])) [i2, i1, 0xC009E000] s')"
proof -
  let ?A = "\<lambda>i1 i2. [i2, i1, 0xC009E000 :: u32]"
  obtain i1 i2 s where s:
    "kernel_inv (boot_heads 4096) ((\<lambda>_. [])(RUNQ := [0xC009E000, i1, i2])) (?A i1 i2) s"
    "current s = 0xC009E000" "running s"
    by (rule start_booted)
  have R: "RUNQ \<in> boot_heads 4096" by (simp add: boot_heads_def)
  have d: "distinct (?A i1 i2)" by (rule lists_distinct(2) [OF kernel_invD(1) [OF s(1)]])
  have runs: "\<exists>i1 i2 s s'. running s \<and> schedule s = Inr s' \<and> current s' = 0xC009E000 \<and>
    kernel_inv (boot_heads 4096) ((\<lambda>_. [])(RUNQ := [i1, i2, 0xC009E000])) (?A i1 i2) s'"
    using schedule_next [OF s(1), of "0xC009E000" "[i1, i2]" RUNQ] s(2,3) R
    by (auto simp: to_tail_def Let_def)
  let ?Q = "((\<lambda>_. [])(RUNQ := [i1, i2])) :: node \<Rightarrow> u32 list"
  define e where "e = upd_links (list_del (QNode 0xC009E000))
    (upd_task 0xC009E000 (\<lambda>t. t\<lparr>status := TASK_DYING\<rparr>) s)"
  have "lists (boot_heads 4096) ?Q (?A i1 i2) (links e)"
    using lists_dequeue [OF kernel_invD(1) [OF s(1)] R, of "0xC009E000"] by (simp add: e_def)
  then have inv: "kernel_inv (boot_heads 4096) ?Q (?A i1 i2) e"
    by (rule kernel_inv_change [OF s(1)])
       (use kernel_invD(2,3) [OF s(1)] in \<open>auto simp: e_def\<close>)
  have e: "current e = 0xC009E000" "\<not> running e" using s(2) by (simp_all add: e_def running_def)
  have "\<exists>i1 i2 s s'. current s = 0xC009E000 \<and> \<not> running s \<and> schedule s = Inr s' \<and> current s' = i1 \<and>
    kernel_inv (boot_heads 4096) ((\<lambda>_. [])(RUNQ := [i1, i2])) (?A i1 i2) s'"
    using schedule_next [OF inv, of i1 "[i2]" RUNQ] e by auto
  with runs show ?thesis by blast
qed

text \<open>
  C7: The scheduler is a round robin: with the ready queue \<open>ts\<close> and its first task running,
  after \<open>2 * k\<close> calls of \<open>schedule\<close> the task \<open>ts ! (k mod length ts)\<close> runs and the queue
  is \<open>ts\<close> rotated by \<open>k\<close>. Every ready task gets the CPU in turn, for two calls each time.
\<close>

theorem round_robin:
  assumes "kernel_inv H Q A s" "Q RUNQ = ts" "ts \<noteq> []" "current s = hd ts" "running s"
  shows "\<exists>s'. schedules (2 * k) s = Inr s' \<and> current s' = ts ! (k mod length ts) \<and>
    kernel_inv H (Q(RUNQ := rotate k ts)) A s' \<and> running s'"
  using round_robin_steps [OF assms, of k] assms(3) by (auto simp: hd_rotate_conv_nth)

theorem round_robin_witness:
  "\<exists>s s' i. schedules 8 s = Inr s' \<and> current s = 0xC009E000 \<and> current s' = i \<and> i \<noteq> 0xC009E000"
proof -
  obtain i1 i2 s where s:
    "kernel_inv (boot_heads 4096) ((\<lambda>_. [])(RUNQ := [0xC009E000, i1, i2])) [i2, i1, 0xC009E000] s"
    "current s = 0xC009E000" "running s"
    by (rule start_booted)
  have "distinct [i2, i1, 0xC009E000]" by (rule lists_distinct(2) [OF kernel_invD(1) [OF s(1)]])
  then have d: "i1 \<noteq> 0xC009E000" by simp
  let ?ts = "[0xC009E000, i1, i2]"
  obtain s' where "schedules (2 * 4) s = Inr s'" "current s' = ?ts ! (4 mod length ?ts)"
    using round_robin [OF s(1), of ?ts 4] s(2,3) by auto
  then have "schedules 8 s = Inr s'" "current s' = i1" by simp_all
  then show ?thesis using s(2) d by blast
qed

text \<open>
  A task created at any level but the default one never runs: it is created and queued,
  and whatever allowed calls follow, it is not the current task.
\<close>

theorem other_levels_starve:
  assumes "sys_inv sems idle s" "proc \<noteq> NULL" "valid_priority prio" "unat prio \<noteq> 31"
    and "mm_kget_page PF_ZERO (pages s) = Inr (t, m)" "t \<noteq> NULL"
  shows "\<exists>s1. task_create proc params (Some nm) prio st s = Inr (next_pid s + 1, s1) \<and>
    (\<forall>calls. calls_ok sems idle calls s1 \<longrightarrow> (\<exists>s2. kernel_run calls s1 = Inr s2 \<and> current s2 \<noteq> t))"
proof -
  obtain Q A where sys: "sys sems idle Q A s" using assms(1) by (auto simp: sys_inv_def)
  let ?s1 = "created t proc params nm prio st m s" and ?k = "ReadyHead (unat prio)"
  obtain create: "task_create proc params (Some nm) prio st s = Inr (next_pid s + 1, ?s1)"
    and inv: "kernel_inv (heads sems) (Q(?k := Q ?k @ [t])) (t # A) ?s1"
    using task_create_spec [OF sysD(1) [OF sys] assms(2,3,5,6) sysD(5) [OF sys]] by blast
  obtain s' where "sys_after sems idle Q s'" "s' = ?s1"
    using sys_create [OF sys assms(3), of proc params nm st] create by auto
  then obtain Q1 A1 where sys1: "sys sems idle Q1 A1 ?s1" by (auto simp: sys_after_def)
  have k: "?k \<in> heads sems" using unat_priority [OF assms(3)] by simp
  have "map QNode (Q1 ?k) = map QNode ((Q(?k := Q ?k @ [t])) ?k)"
    using ring_unique [OF lists_ring [OF sysD(11) [OF sys1] k] lists_ring [OF kernel_invD(1) [OF inv] k]] .
  then have "Q1 ?k = Q ?k @ [t]" by (simp add: inj_map_eq_map inj_def flip: map_append)
  then have t: "t \<in> set (Q1 ?k)" by simp
  have "\<exists>s2. kernel_run calls ?s1 = Inr s2 \<and> current s2 \<noteq> t" if ok: "calls_ok sems idle calls ?s1" for calls
  proof -
    obtain s2 Q2 A2 where s2: "kernel_run calls ?s1 = Inr s2" "sys (sems_run sems calls) idle Q2 A2 s2"
      "set (Q1 ?k) \<subseteq> set (Q2 ?k)"
      using kernel_run_after [OF sys1 ok] assms(4) unfolding sys_after_def by blast
    have "?k \<in> heads (sems_run sems calls)" using unat_priority [OF assms(3)] by simp
    then have "set (Q2 ?k) \<inter> set (Q2 RUNQ) = {}"
      using sysD(10,11) [OF s2(2)] assms(4) unfolding lists_def by blast
    then have "current s2 \<noteq> t" using t s2(3) sysD(3) [OF s2(2)] by blast
    then show ?thesis using s2(1) by blast
  qed
  then show ?thesis using create by blast
qed

theorem other_levels_starve_witness:
  "\<exists>s t p s1. task_create 1 0 (Some []) 5 TASK_READY s = Inr (p, s1) \<and>
    (\<exists>s2. kernel_run [Schedule, Tick, Schedule] s1 = Inr s2 \<and> current s2 \<noteq> t)"
proof -
  obtain i1 i2 s where s: "sched_init 4096 1 start_kernel = Inr s"
    "sys {4096} i1 ((\<lambda>_. [])(RUNQ := [i1, i2], WaitHead 4096 := [0xC009E000])) [i2, i1, 0xC009E000] s"
    "current s = i1" "count (semas s 4096) = 0" "6 \<le> free_pages (pages s)" "i1 \<noteq> i2"
    "priority (tasks s 0xC009E000) = 31" "priority (tasks s i1) = 31"
    by (rule start_scheduled)
  have inv: "sys_inv {4096} i1 s" using s(2) by (auto simp: sys_inv_def)
  have "1 \<le> free_pages (pages s)" using s(5) by simp
  then obtain t m where get: "mm_kget_page PF_ZERO (pages s) = Inr (t, m)" "t \<noteq> NULL"
    by (rule free_page_left [OF kernel_invD(6) [OF sysD(1) [OF s(2)]]])
  have prio: "valid_priority 5" "unat (5 :: i32) \<noteq> 31" by (simp_all add: valid_priority_def)
  have "(1 :: u32) \<noteq> NULL" by simp
  from other_levels_starve [OF inv this prio get, of 0 "[]" TASK_READY]
  obtain s1 where s1: "task_create 1 0 (Some []) 5 TASK_READY s = Inr (next_pid s + 1, s1)"
    and starve: "\<forall>calls. calls_ok {4096} i1 calls s1 \<longrightarrow>
      (\<exists>s2. kernel_run calls s1 = Inr s2 \<and> current s2 \<noteq> t)" by blast
  have "calls_ok {4096} i1 [Schedule, Tick, Schedule] s1" by (simp split: sum.splits)
  then show ?thesis using s1 starve by blast
qed


section \<open>Tasks\<close>

text \<open>
  C5: With a procedure, a name, a valid priority and a free page, \<open>task_create\<close> returns the
  next pid and adds one task: on a page that was free, at the tail of its level, on the list
  of all tasks, with the saved stack pointer and the four stack words its first switch pops
  (\<open>switch_initial\<close>, the procedure, \<open>task_exit\<close> as its return address, the parameter). No
  other task structure changes.
\<close>

theorem task_create_makes_task:
  assumes "kernel_inv H Q A s" "init_task s \<in> set A" "1 \<le> free_pages (pages s)"
    and "proc \<noteq> NULL" "valid_priority prio"
  shows "\<exists>t s'. task_create proc params (Some nm) prio st s = Inr (next_pid s + 1, s') \<and>
    t \<notin> set A \<and> unat t div 4096 \<notin> taken (pages s) \<and>
    taken (pages s') = insert (unat t div 4096) (taken (pages s)) \<and>
    kernel_inv H (Q(ReadyHead (unat prio) := Q (ReadyHead (unat prio)) @ [t])) (t # A) s' \<and>
    pid (tasks s' t) = next_pid s + 1 \<and> status (tasks s' t) = st \<and> sp (tasks s' t) = t + 4056 \<and>
    load32 (mem (pages s')) (sp (tasks s' t) + 16) = addr_switch_initial s \<and>
    load32 (mem (pages s')) (sp (tasks s' t) + 28) = proc \<and>
    load32 (mem (pages s')) (sp (tasks s' t) + 32) = addr_task_exit s \<and>
    load32 (mem (pages s')) (sp (tasks s' t) + 36) = params \<and>
    (\<forall>u. u \<noteq> t \<longrightarrow> tasks s' u = tasks s u)"
proof -
  obtain t m where get: "mm_kget_page PF_ZERO (pages s) = Inr (t, m)" "t \<noteq> NULL"
    by (rule free_page_left [OF kernel_invD(6) [OF assms(1)] assms(3)])
  note create = task_create_spec [OF assms(1,4,5) get assms(2), of params nm st]
  note page = new_page [OF assms(1) get]
  show ?thesis
    using create page
    by (intro exI [of _ t] exI [of _ "created t proc params nm prio st m s"])
      (simp add: fresh_task_def init_stack_words add.assoc)
qed

theorem task_create_makes_task_witness:
  "\<exists>s t s'. task_create 1 2 (Some [105]) 7 TASK_READY s = Inr (next_pid s + 1, s') \<and>
    load32 (mem (pages s')) (sp (tasks s' t) + 36) = 2"
proof -
  obtain i1 i2 s where s: "sched_init 4096 1 start_kernel = Inr s"
    "sys {4096} i1 ((\<lambda>_. [])(RUNQ := [i1, i2], WaitHead 4096 := [0xC009E000])) [i2, i1, 0xC009E000] s"
    "current s = i1" "count (semas s 4096) = 0" "6 \<le> free_pages (pages s)" "i1 \<noteq> i2"
    "priority (tasks s 0xC009E000) = 31" "priority (tasks s i1) = 31"
    by (rule start_scheduled)
  have h: "1 \<le> free_pages (pages s)" "(1 :: u32) \<noteq> NULL" "valid_priority 7"
    using s(5) by (simp_all add: valid_priority_def)
  show ?thesis
    using task_create_makes_task [OF sysD(1,5) [OF s(2)] h, of 2 "[105]" TASK_READY] by blast
qed

text \<open>
  A bad priority or a null name is not rejected: \<open>task_struct_init\<close> returns at once, and
  \<open>task_create\<close> goes on with the zeroed structure. It returns pid 0, queues the page at
  level 0 without the magic, and builds the stack below address 0, so that the words go to
  the top of the address space instead of into the new page.
\<close>

theorem task_create_bad_arguments:
  assumes "pool_inv (pages s)" "1 \<le> free_pages (pages s)" "list_slock s = 1"
    and "proc \<noteq> NULL" "name = None \<or> \<not> valid_priority prio"
  shows "\<exists>t s'. task_create proc params name prio st s = Inr (0, s') \<and> t \<noteq> NULL \<and>
    pid (tasks s' t) = 0 \<and> \<not> valid_task t s' \<and> sp (tasks s' t) = - 40 \<and>
    lprev (links s') (ReadyHead 0) = QNode t \<and>
    load32 (mem (pages s')) (- 12) = proc \<and> next_pid s' = next_pid s"
proof -
  obtain t m where get: "mm_kget_page PF_ZERO (pages s) = Inr (t, m)" "t \<noteq> NULL"
    by (rule free_page_left [OF assms(1,2)])
  obtain s' where s': "task_create proc params name prio st s = Inr (0, s')"
    "tasks s' t = zero_task\<lparr>sp := - 40, status := st\<rparr>"
    "links s' = list_add_tail (QNode t) (ReadyHead 0) (clear_nodes t (links s))"
    "next_pid s' = next_pid s" "\<not> valid_task t s'" "load32 (mem (pages s')) (- 12) = proc"
    by (rule task_create_unchecked [OF assms(3-5) get])
  have "lprev (links s') (ReadyHead 0) = QNode t"
    by (simp add: s'(3) list_add_tail_def)
  then show ?thesis
    using s' get(2) by (intro exI [of _ t] exI [of _ s']) (simp add: zero_task_def)
qed

theorem task_create_bad_arguments_witness:
  "\<exists>t s'. task_create 1 2 (Some [105]) 64 TASK_READY (start_kernel\<lparr>list_slock := 1\<rparr>) = Inr (0, s') \<and>
    pid (tasks s' t) = 0 \<and> sp (tasks s' t) = - 40"
  using task_create_bad_arguments [of "start_kernel\<lparr>list_slock := 1\<rparr>" 1 "Some [105]" 64 2 TASK_READY]
    start_pool by (fastforce simp: valid_priority_def)

text \<open>
  C39: An exited task is never cleaned up. \<open>task_exit\<close> takes it out of its queue and switches
  away, and the clean-up after the switch does nothing for any task (\<open>!prev\<close> where \<open>prev\<close> is
  meant): the page stays allocated and the task stays, dying, on the list of all tasks.
\<close>

theorem task_exit_leaks:
  assumes "kernel_inv H Q A s" "h \<in> H" "current s \<in> set (Q h)"
    and "(Q(h := remove1 (current s) (Q h))) RUNQ \<noteq> []"
  shows "\<exists>s'. task_exit s = Inr s' \<and> current s' \<noteq> current s \<and>
    kernel_inv H (Q(h := remove1 (current s) (Q h))) A s' \<and> current s \<in> set A \<and>
    status (tasks s' (current s)) = TASK_DYING \<and> pages s' = pages s \<and>
    task_sched_post_proc (current s) s' = Inr s'"
proof -
  let ?Q = "Q(h := remove1 (current s) (Q h))"
  obtain g s1 where ex: "task_exit s = Inr (switched (hd (?Q RUNQ)) g s1)"
    and s1: "s1 = upd_task (current s) (\<lambda>t. t\<lparr>status := TASK_DYING\<rparr>) s"
    and inv: "kernel_inv H ?Q A (switched (hd (?Q RUNQ)) g s1)"
    by (rule task_exit_spec [OF assms])
  have A: "current s \<in> set A" by (rule kernel_invD(5) [OF assms(1-3)])
  have "unqueued H ?Q (current s)" by (rule unqueued_dequeue [OF kernel_invD(1) [OF assms(1)] assms(2,3)])
  moreover have "hd (?Q RUNQ) \<in> set (?Q RUNQ)" using assms(4) by (rule hd_in_set)
  moreover have "RUNQ \<in> H" using kernel_invD(4) [OF assms(1)] by simp
  ultimately have ne: "hd (?Q RUNQ) \<noteq> current s" unfolding unqueued_def by metis
  obtain n where n: "n = hd (?Q RUNQ)" by simp
  have "current s \<noteq> NULL" by (rule kernel_invD(8) [OF assms(1) A])
  with ex inv A ne show ?thesis
    unfolding n [symmetric] by (intro exI [of _ "switched n g s1"]) (simp add: s1)
qed

theorem task_exit_leaks_witness:
  "\<exists>s s'. task_exit s = Inr s' \<and> current s = 0xC009E000 \<and> current s' \<noteq> 0xC009E000"
proof -
  obtain i1 i2 s where s:
    "kernel_inv (boot_heads 4096) ((\<lambda>_. [])(RUNQ := [0xC009E000, i1, i2])) [i2, i1, 0xC009E000] s"
    "current s = 0xC009E000" "running s"
    by (rule start_booted)
  show ?thesis
    using task_exit_leaks [OF s(1), of RUNQ] s(2) by auto
qed

text \<open>
  The list lock does not mask interrupts. When the timer interrupt's \<open>schedule\<close> arrives
  while the interrupted task holds the list lock, it spins for ever.
\<close>

theorem schedule_deadlocks_under_lock:
  assumes "sys_inv sems idle s"
  shows "schedule (s\<lparr>list_slock := 0\<rparr>) = Inl Spin"
proof -
  obtain Q A where sys: "sys sems idle Q A s" using assms by (auto simp: sys_inv_def)
  note S = sysD [OF sys]
  show ?thesis
    using S(2) first_in_queue [OF S(11,10,7)]
    by (intro schedule_locked [of _ "hd (Q RUNQ)"]) (simp_all add: running_def)
qed

theorem schedule_deadlocks_under_lock_witness:
  "\<exists>s. sched_init 4096 1 start_kernel = Inr s \<and> schedule (s\<lparr>list_slock := 0\<rparr>) = Inl Spin"
proof -
  obtain s where s: "sched_init 4096 1 start_kernel = Inr s" "sys_inv {4096} (current s) s"
    using sched_init_sys [OF start_ready, of 1 4096] by auto
  show ?thesis using s(1) schedule_deadlocks_under_lock [OF s(2)] by blast
qed

lemma slice_levels:
  assumes "valid_priority prio"
  shows "slice prio = of_nat ((unat prio + 30) div 31)" "(unat prio + 30) div 31 \<le> 3"
proof -
  have p: "unat prio < 64" by (rule unat_priority [OF assms])
  then have "unat (prio + 31 - 1) = unat prio + 30"
    by (simp add: unat_plus_no_wrap)
  then have "unat (slice prio) = (unat prio + 30) div 31"
    by (simp add: slice_def DIV_ROUND_UP_def unat_div)
  then show "slice prio = of_nat ((unat prio + 30) div 31)" by (metis of_nat_unat ucast_id)
  show "(unat prio + 30) div 31 \<le> 3" using p by linarith
qed

text \<open>
  The time slice of the running task counts down to the reschedule flag: with \<open>n > 0\<close>
  ticks left of a slice of \<open>n\<close>, the flag is untouched for \<open>n - 1\<close> ticks and set at the
  \<open>n\<close>-th, when the slice starts again. A slice that is 0 sets it at every tick.
\<close>

theorem tick_slice:
  assumes "valid_priority prio" "n = (unat prio + 30) div 31"
    and "time_slice_init (tasks s (current s)) = slice prio"
    and "time_slice_res (tasks s (current s)) = slice prio"
  shows "slice prio = of_nat n \<and>
    (\<forall>k<n. sched_on_return ((task_tick ^^ k) s) = sched_on_return s \<and>
      time_slice_res (tasks ((task_tick ^^ k) s) (current s)) = of_nat (n - k)) \<and>
    sched_on_return ((task_tick ^^ max 1 n) s) \<and>
    time_slice_res (tasks ((task_tick ^^ max 1 n) s) (current s)) = of_nat n"
proof -
  have n: "slice prio = of_nat n" "n \<le> 3" unfolding assms(2) by (rule slice_levels [OF assms(1)])+
  from n(2) consider "n = 0" | "n = 1" | "n = 2" | "n = 3" by linarith
  then show ?thesis
    using assms(3,4) unfolding n(1) by cases (auto simp: task_tick_eq Let_def eval_nat_numeral less_Suc_eq)
qed

theorem tick_slice_witness:
  "sched_on_return ((task_tick ^^ 3) (upd_task 0xC009E000
    (\<lambda>t. t\<lparr>time_slice_init := 3, time_slice_res := 3\<rparr>) start_kernel))"
proof -
  have "slice 63 = 3" by (simp add: slice_def DIV_ROUND_UP_def)
  then show ?thesis
    using tick_slice [of 63 3 "upd_task 0xC009E000
      (\<lambda>t. t\<lparr>time_slice_init := 3, time_slice_res := 3\<rparr>) start_kernel"]
    by (simp add: start_current valid_priority_def)
qed

section \<open>Semaphores\<close>

text \<open>
  C9: Waiting and waking: on an exhausted semaphore with no waiters \<open>sema_down\<close> blocks the
  caller on the wait list and another task runs; that task's \<open>sema_up\<close> brings the caller
  back to the tail of the ready queue and empties the wait list. The count is one higher
  than before the two calls.
\<close>

theorem sema_wait_wake:
  assumes "sys sems idle Q A s" "a \<in> sems" "Q (WaitHead a) = []" "current s \<noteq> idle"
    and "count (semas s a) = 0" "priority (tasks s (current s)) = 31"
  shows "\<exists>s1 s2. sema_down a s = Inr s1 \<and> current s1 \<noteq> current s \<and>
    status (tasks s1 (current s)) = TASK_BLOCKED \<and> sema_up a s1 = Inr s2 \<and>
    current s2 = current s1 \<and> count (semas s2 a) = 1 \<and>
    kernel_inv (heads sems) (Q(RUNQ := remove1 (current s) (Q RUNQ) @ [current s])) A s2"
proof -
  note S = sysD [OF assms(1)]
  let ?c = "current s"
  let ?Q = "Q(RUNQ := remove1 ?c (Q RUNQ))"
  have free: "sema_free a s" using S(6) assms(2) by (simp add: waits_ok_def)
  have w: "WaitHead a \<in> heads sems" using assms(2) by simp
  have "idle \<in> set (?Q RUNQ)" using S(4) assms(4) by (simp add: in_set_remove1)
  then have ne: "?Q RUNQ \<noteq> []" by auto
  have c0: "sint (count (semas s a)) \<le> 0" by (simp add: assms(5))
  obtain n where n: "n = hd (?Q RUNQ)" by simp
  have "n \<in> set (remove1 ?c (Q RUNQ))" unfolding n using ne by simp
  then have nc: "n \<noteq> ?c" using S(9) by auto
  let ?s1 = "\<lambda>g. switched n g (upd_task ?c (\<lambda>t. t\<lparr>status := TASK_BLOCKED\<rparr>) s)"
  obtain g where down: "sema_down a s = Inr (?s1 g)"
    and inv1: "kernel_inv (heads sems) (?Q(WaitHead a := ?c # Q (WaitHead a))) A (?s1 g)"
    unfolding n by (rule sema_down_blocks [OF S(1) free c0 w S(10,3) _ ne]) simp
  have q: "(?Q(WaitHead a := ?c # Q (WaitHead a))) (WaitHead a) = ?c # []" by (simp add: assms(3))
  have free1: "sema_free a (?s1 g)" and c1: "0 < sint (count (semas (?s1 g) a) + 1)"
    and b1: "status (tasks (?s1 g) ?c) = TASK_BLOCKED" and p1: "priority (tasks (?s1 g) ?c) = 31"
    using free nc assms(5,6) by (auto simp: sema_free_def)
  obtain s2 g' where up: "sema_up a (?s1 g) = Inr s2"
    and inv2: "kernel_inv (heads sems) (?Q(WaitHead a := ?c # Q (WaitHead a), WaitHead a := [],
        ReadyHead (unat (priority (tasks (?s1 g) ?c))) :=
          (?Q(WaitHead a := ?c # Q (WaitHead a))) (ReadyHead (unat (priority (tasks (?s1 g) ?c)))) @ [?c])) A s2"
    and s2: "s2 = upd_links g' (upd_task ?c (\<lambda>t. t\<lparr>status := TASK_RUNNING\<rparr>)
      (upd_sema a (\<lambda>x. x\<lparr>count := count x + 1\<rparr>) (?s1 g)))"
    by (rule sema_up_wakes [OF inv1 free1 w q c1 b1])
  have "?Q(WaitHead a := ?c # Q (WaitHead a), WaitHead a := [], RUNQ := remove1 ?c (Q RUNQ) @ [?c]) =
      Q(RUNQ := remove1 ?c (Q RUNQ) @ [?c])"
    using assms(3) by auto
  moreover have "unat (31 :: i32) = 31" by simp
  ultimately have inv3: "kernel_inv (heads sems) (Q(RUNQ := remove1 ?c (Q RUNQ) @ [?c])) A s2"
    using inv2 unfolding p1 by simp
  show ?thesis
    using down up inv3 nc b1 s2 assms(5)
    by (intro exI [of _ "?s1 g"] exI [of _ s2]) simp
qed

theorem sema_wait_wake_witness:
  "\<exists>s s1 s2. sema_down 8192 s = Inr s1 \<and> current s1 \<noteq> current s \<and> sema_up 8192 s1 = Inr s2 \<and>
    count (semas s2 8192) = 1"
proof -
  obtain i1 i2 s where s: "sched_init 4096 1 start_kernel = Inr s"
    "sys {4096} i1 ((\<lambda>_. [])(RUNQ := [i1, i2], WaitHead 4096 := [0xC009E000])) [i2, i1, 0xC009E000] s"
    "current s = i1" "count (semas s 4096) = 0" "6 \<le> free_pages (pages s)" "i1 \<noteq> i2"
    "priority (tasks s 0xC009E000) = 31" "priority (tasks s i1) = 31"
    by (rule start_scheduled)
  let ?Q = "(\<lambda>_. [])(RUNQ := [i1, i2], WaitHead 4096 := [0xC009E000])" and ?s = "sema_init 8192 0 s"
  have "sys {4096} i2 ?Q [i2, i1, 0xC009E000] s" using s(2) by (simp add: sys_def)
  then have sys: "sys {8192, 4096} i2 (?Q(WaitHead 8192 := [])) [i2, i1, 0xC009E000] ?s"
    by (rule sys_sema_init) simp
  have "(8192 :: u32) \<in> {8192, 4096}" "(?Q(WaitHead 8192 := [])) (WaitHead 8192) = []" "current ?s \<noteq> i2"
    "count (semas ?s 8192) = 0" "priority (tasks ?s (current ?s)) = 31"
    using s(3,6,8) by (simp_all add: sema_init_def Let_def)
  from sema_wait_wake [OF sys this] show ?thesis by blast
qed

text \<open>
  C17: A semaphore of count 1 does not exclude. The releasing \<open>sema_up\<close> wakes the waiter and
  leaves the count at 1, and the woken task does not take it down again: the releaser's next
  \<open>sema_down\<close> succeeds at once, while the woken task is ready to go on past its own.
\<close>

theorem sema_no_exclusion:
  assumes "sys sems idle Q A s" "a \<in> sems" "count (semas s a) = 0" "Q (WaitHead a) = [t]"
    and "priority (tasks s t) = 31"
  shows "\<exists>s1 s2. sema_up a s = Inr s1 \<and> sema_down a s1 = Inr s2 \<and> current s2 = current s \<and>
    running s2 \<and> status (tasks s2 t) = TASK_RUNNING \<and>
    kernel_inv (heads sems) (Q(WaitHead a := [], RUNQ := Q RUNQ @ [t])) A s2"
proof -
  note S = sysD [OF assms(1)]
  have free: "sema_free a s" and b: "status (tasks s t) = TASK_BLOCKED"
    using S(6) assms(2,4) by (simp_all add: waits_ok_def)
  have w: "WaitHead a \<in> heads sems" using assms(2) by simp
  have c: "0 < sint (count (semas s a) + 1)" by (simp add: assms(3))
  obtain s1 g where up: "sema_up a s = Inr s1"
    and inv1: "kernel_inv (heads sems) (Q(WaitHead a := [], ReadyHead (unat (priority (tasks s t))) :=
        Q (ReadyHead (unat (priority (tasks s t)))) @ [t])) A s1"
    and s1: "s1 = upd_links g (upd_task t (\<lambda>t. t\<lparr>status := TASK_RUNNING\<rparr>)
      (upd_sema a (\<lambda>x. x\<lparr>count := count x + 1\<rparr>) s))"
    by (rule sema_up_wakes [OF S(1) free w assms(4) c b])
  have "sema_free a s1" "0 < sint (count (semas s1 a))"
    using free assms(3) by (simp_all add: s1 sema_free_def)
  then have down: "sema_down a s1 = Inr (upd_sema a (\<lambda>x. x\<lparr>count := count x - 1\<rparr>) s1)"
    by (rule sema_down_free)
  have "unat (31 :: i32) = 31" by simp
  then have inv2: "kernel_inv (heads sems) (Q(WaitHead a := [], RUNQ := Q RUNQ @ [t])) A s1"
    using inv1 unfolding assms(5) by simp
  have "running s1" using S(2) by (simp add: s1 running_def)
  then show ?thesis
    using up down inv2
    by (intro exI [of _ s1] exI [of _ "upd_sema a (\<lambda>x. x\<lparr>count := count x - 1\<rparr>) s1"]) (simp add: s1)
qed

theorem sema_no_exclusion_witness:
  "\<exists>s s1 s2. sched_init 4096 1 start_kernel = Inr s \<and> sema_up 4096 s = Inr s1 \<and>
    sema_down 4096 s1 = Inr s2 \<and> current s2 = current s \<and> status (tasks s2 0xC009E000) = TASK_RUNNING"
proof -
  obtain i1 i2 s where s: "sched_init 4096 1 start_kernel = Inr s"
    "sys {4096} i1 ((\<lambda>_. [])(RUNQ := [i1, i2], WaitHead 4096 := [0xC009E000])) [i2, i1, 0xC009E000] s"
    "current s = i1" "count (semas s 4096) = 0" "6 \<le> free_pages (pages s)" "i1 \<noteq> i2"
    "priority (tasks s 0xC009E000) = 31" "priority (tasks s i1) = 31"
    by (rule start_scheduled)
  show ?thesis
    using sema_no_exclusion [OF s(2) _ s(4) _ s(7)] s(1) by auto
qed

end
