(* ===== verification/Block.thy ===== *)
theory Block
  imports Linked_List Memory
begin

text \<open>
  The block device layer, \<open>devices/block.c\<close>. A device is the address of its structure; its
  name is the 16 bytes 8 bytes into it, in the memory model, and its other fields are
  functions on addresses. The device list is a ring of the component \<open>Linked_List\<close>.

  A driver is its two operations, functions of the driver's own state \<open>'s\<close>.
\<close>

section \<open>The operations\<close>

datatype bnode = BlockDevices | BlockNode u32

record 's block_operations =
  op_read :: "u32 \<Rightarrow> u32 \<Rightarrow> u32 \<Rightarrow> 's \<Rightarrow> u32 \<times> 's"
  op_write :: "u32 \<Rightarrow> u32 \<Rightarrow> u32 \<Rightarrow> 's \<Rightarrow> u32 \<times> 's"

record 's blocks =
  bmem :: memory
  blinks :: "bnode links"
  nr_sectors :: "u32 \<Rightarrow> u32"
  block_ops :: "u32 \<Rightarrow> 's block_operations"
  block_params :: "u32 \<Rightarrow> u32"

definition block_name :: "u32 \<Rightarrow> u32" where
  "block_name blk = blk + 8"

definition valid_sector_no :: "u32 \<Rightarrow> u32 \<Rightarrow> 's blocks \<Rightarrow> bool" where
  "valid_sector_no blk sector b \<longleftrightarrow> sector < nr_sectors b blk"

definition block_init :: "'s blocks \<Rightarrow> 's blocks" where
  "block_init b = b\<lparr>blinks := list_head_init BlockDevices (blinks b)\<rparr>"

definition block_read :: "u32 \<Rightarrow> u32 \<Rightarrow> u32 \<Rightarrow> 's blocks \<Rightarrow> 's \<Rightarrow> u32 \<times> 's" where
  "block_read blk buf sector b s =
     (if \<not> valid_sector_no blk sector b then (- 1, s)
      else op_read (block_ops b blk) buf sector (block_params b blk) s)"

definition block_write :: "u32 \<Rightarrow> u32 \<Rightarrow> u32 \<Rightarrow> 's blocks \<Rightarrow> 's \<Rightarrow> u32 \<times> 's" where
  "block_write blk buf sector b s =
     (if \<not> valid_sector_no blk sector b then (- 1, s)
      else op_write (block_ops b blk) buf sector (block_params b blk) s)"

definition block_register :: "u32 \<Rightarrow> u32 \<Rightarrow> u32 \<Rightarrow> 's block_operations \<Rightarrow> u32 \<Rightarrow> 's blocks \<Rightarrow> (u32 \<times> 's blocks) option" where
  "block_register blk name nr ops params b =
     (if blk = NULL \<or> name = NULL then Some (NULL, b)
      else map_option (\<lambda>(n, m).
        (blk, b\<lparr>bmem := m, nr_sectors := (nr_sectors b)(blk := nr),
               block_ops := (block_ops b)(blk := ops), block_params := (block_params b)(blk := params),
               blinks := list_add_tail (BlockNode blk) BlockDevices (blinks b)\<rparr>))
        (strlcpy (block_name blk) name 16 (bmem b)))"

definition block_unregister :: "u32 \<Rightarrow> 's blocks \<Rightarrow> 's blocks" where
  "block_unregister blk b =
     (if blk = NULL then b else b\<lparr>blinks := list_del (BlockNode blk) (blinks b)\<rparr>)"

partial_function (option) get_loop :: "memory \<Rightarrow> bnode links \<Rightarrow> u32 \<Rightarrow> bnode \<Rightarrow> u32 option" where
  "get_loop m l name cursor =
     (case cursor of
        BlockDevices \<Rightarrow> Some NULL
      | BlockNode blk \<Rightarrow>
          Option.bind (strcmp name (block_name blk) m) (\<lambda>r.
            if r = 0 then Some blk else get_loop m l name (lnext l cursor)))"

definition blcok_get_by_name :: "u32 \<Rightarrow> 's blocks \<Rightarrow> u32 option" where
  "blcok_get_by_name name b = get_loop (bmem b) (blinks b) name (lnext (blinks b) BlockDevices)"

section \<open>Lookup\<close>

lemma strcmp_terminates:
  assumes "cstr m p s" "cstr m q t"
  shows "\<exists>r. strcmp p q m = Some r"
proof -
  have "\<exists>x. strcmp_loop m p q = Some x"
    using assms
  proof (induction s arbitrary: p q t)
    case Nil
    then show ?case by (simp add: strcmp_loop.simps)
  next
    case (Cons c cs)
    show ?case
    proof (cases "m p = m q")
      case True
      then obtain cs' where "t = m q # cs'" using Cons.prems by (cases t) auto
      then have "\<exists>x. strcmp_loop m (p + 1) (q + 1) = Some x"
        using Cons.prems by (intro Cons.IH) auto
      then show ?thesis using True Cons.prems(1) by (subst strcmp_loop.simps) simp
    next
      case False
      then show ?thesis using Cons.prems(1) by (subst strcmp_loop.simps) simp
    qed
  qed
  then show ?thesis by (auto simp: strcmp_def)
qed

definition matches :: "memory \<Rightarrow> u32 \<Rightarrow> u32 \<Rightarrow> bool" where
  "matches m name blk \<longleftrightarrow> strcmp name (block_name blk) m = Some 0"

lemma get_loop_seg:
  assumes "seg l a (map BlockNode bs) BlockDevices" "cstr m name s" "\<forall>b\<in>set bs. \<exists>t. cstr m (block_name b) t"
  shows "get_loop m l name (lnext l a) = Some (case find (matches m name) bs of None \<Rightarrow> NULL | Some b \<Rightarrow> b)"
  using assms
proof (induction bs arbitrary: a)
  case Nil
  then show ?case by (simp add: get_loop.simps)
next
  case (Cons b bs)
  obtain r where r: "strcmp name (block_name b) m = Some r"
    using strcmp_terminates [OF Cons.prems(2)] Cons.prems(3) by fastforce
  have "get_loop m l name (lnext l (BlockNode b)) =
      Some (case find (matches m name) bs of None \<Rightarrow> NULL | Some b \<Rightarrow> b)"
    using Cons.prems by (intro Cons.IH) auto
  moreover have "matches m name b \<longleftrightarrow> r = 0" by (simp add: matches_def r)
  ultimately show ?case
    using Cons.prems(1) r by (simp add: get_loop.simps [of m l name "BlockNode b"])
qed

lemma get_by_name_ring:
  assumes "ring (blinks b) BlockDevices (map BlockNode bs)" "cstr (bmem b) name s"
    "\<forall>d\<in>set bs. \<exists>t. cstr (bmem b) (block_name d) t"
  shows "blcok_get_by_name name b =
    Some (case find (matches (bmem b) name) bs of None \<Rightarrow> NULL | Some d \<Rightarrow> d)"
  unfolding blcok_get_by_name_def using assms by (intro get_loop_seg) (auto simp: ring_def)

section \<open>Drivers\<close>

text \<open>
  What the layer relies on in a driver: an operation transfers one sector and returns its
  size, or fails with -1, or the machine has failed, and a failed machine stays failed.
\<close>

locale block_driver =
  fixes drv :: "'s block_operations" and failed :: "'s \<Rightarrow> bool"
  assumes read_result: "op_read drv buf sector p s = (r, s') \<Longrightarrow> failed s' \<or> r = 512 \<or> r = - 1"
    and write_result: "op_write drv buf sector p s = (r, s') \<Longrightarrow> failed s' \<or> r = 512 \<or> r = - 1"
    and read_failed: "failed s \<Longrightarrow> op_read drv buf sector p s = (r, s') \<Longrightarrow> failed s'"
    and write_failed: "failed s \<Longrightarrow> op_write drv buf sector p s = (r, s') \<Longrightarrow> failed s'"
begin

lemma block_read_result:
  assumes "block_ops b blk = drv" "block_read blk buf sector b s = (r, s')"
  shows "failed s' \<or> r = 512 \<and> valid_sector_no blk sector b \<or> r = - 1"
  using assms read_result by (auto simp: block_read_def split: if_splits)

lemma block_write_result:
  assumes "block_ops b blk = drv" "block_write blk buf sector b s = (r, s')"
  shows "failed s' \<or> r = 512 \<and> valid_sector_no blk sector b \<or> r = - 1"
  using assms write_result by (auto simp: block_write_def split: if_splits)

lemma block_failed:
  assumes "block_ops b blk = drv" "failed s"
  shows "failed (snd (block_read blk buf sector b s))" "failed (snd (block_write blk buf sector b s))"
  using read_failed [OF assms(2)] write_failed [OF assms(2)] assms
  by (auto simp: block_read_def block_write_def) (metis prod.collapse)+

end

text \<open>The copy of a name: both strings are there afterwards, and nothing else has changed.\<close>

lemma name_copied:
  assumes "blk \<noteq> NULL" "name \<noteq> NULL" "cstr m name s" "length s \<le> 15" "unat blk < 4294967200" "unat name < 4294967200"
    and "unat name + length s < unat blk + 8 \<or> unat blk + 8 + length s < unat name"
  obtains m' where "strlcpy (block_name blk) name 16 m = Some (of_nat (length s), m')" "cstr m' (block_name blk) s" "cstr m' name s"
    "\<And>a. unat a < unat (block_name blk) \<or> unat (block_name blk) + length s < unat a \<Longrightarrow> m' a = m a"
proof -
  have dest: "unat (block_name blk) = unat blk + 8"
    using assms(5) by (simp add: block_name_def unat_plus_no_wrap)
  then have dnn: "block_name blk \<noteq> NULL" by auto
  have k: "min (length s) (unat (16 :: u32) - 1) = length s" using assms(4) by simp
  obtain m' where cp: "strlcpy (block_name blk) name 16 m = Some (of_nat (length s), m')"
    and c': "cstr m' (block_name blk) (take (length s) s)"
    and frame: "\<And>a. unat a < unat (block_name blk) \<or> unat (block_name blk) + length s < unat a \<Longrightarrow> m' a = m a"
    by (rule strlcpy_prefix [OF assms(3,2) dnn, of 16 "length s"]) (use assms k dest in auto)
  have "cstr m' name s"
    by (rule cstr_agree [OF assms(3)]) (use assms(4,6,7) dest in \<open>auto intro!: frame\<close>)
  then show ?thesis using that cp c' frame by simp
qed

section \<open>Properties\<close>

text \<open>
  C34: A registered device is found and served by its driver: after \<open>block_init\<close> and
  \<open>block_register\<close> with a name of at most 15 bytes, the lookup of that name returns the
  device, and reads and writes reach the driver's operations with the device's parameters
  exactly for sectors below its size; for any other sector they return -1 and do nothing.
\<close>

theorem block_register_find_io:
  assumes "blk \<noteq> NULL" "name \<noteq> NULL" "cstr (bmem b) name s" "length s \<le> 15"
    and "unat blk < 4294967200" "unat name < 4294967200"
    and "unat name + length s < unat blk + 8 \<or> unat blk + 8 + length s < unat name"
  shows "\<exists>b'. block_register blk name nr ops params (block_init b) = Some (blk, b') \<and>
    blcok_get_by_name name b' = Some blk \<and>
    block_read blk buf k b' d = (if k < nr then op_read ops buf k params d else (- 1, d)) \<and>
    block_write blk buf k b' d = (if k < nr then op_write ops buf k params d else (- 1, d)) \<and>
    ring (blinks (block_unregister blk b')) BlockDevices []"
proof -
  obtain m' where cp: "strlcpy (block_name blk) name 16 (bmem b) = Some (of_nat (length s), m')"
    and stored: "cstr m' (block_name blk) s" and key: "cstr m' name s"
    by (rule name_copied [OF assms(1,2,3,4,5,6,7)])
  let ?b = "block_init b"
  define b' where "b' = ?b\<lparr>bmem := m', nr_sectors := (nr_sectors ?b)(blk := nr),
      block_ops := (block_ops ?b)(blk := ops), block_params := (block_params ?b)(blk := params),
      blinks := list_add_tail (BlockNode blk) BlockDevices (blinks ?b)\<rparr>"
  have reg: "block_register blk name nr ops params ?b = Some (blk, b')"
    using assms(1,2) cp by (simp add: block_register_def b'_def block_init_def)
  have "ring (blinks ?b) BlockDevices []" by (simp add: block_init_def dl.rep_init)
  then have r: "ring (blinks b') BlockDevices ([] @ [BlockNode blk])"
    unfolding b'_def by (simp add: dl.rep_add_tail [where xs = "[]", simplified])
  have "matches (bmem b') name blk"
    using strcmp_same [OF key stored] by (simp add: matches_def b'_def)
  moreover have "blcok_get_by_name name b' =
      Some (case find (matches (bmem b') name) [blk] of None \<Rightarrow> NULL | Some d \<Rightarrow> d)"
    using r key stored by (intro get_by_name_ring) (auto simp: b'_def)
  ultimately have find: "blcok_get_by_name name b' = Some blk" by simp
  have "ring (list_del (BlockNode blk) (blinks b')) BlockDevices ([] @ [])"
    by (rule dl.rep_del) (use r in simp)
  then have "ring (blinks (block_unregister blk b')) BlockDevices []"
    using assms(1) by (simp add: block_unregister_def)
  then show ?thesis
    using reg find by (intro exI [of _ b'])
      (auto simp: block_read_def block_write_def valid_sector_no_def b'_def)
qed

text \<open>A machine whose memory holds the names "hda" and "hdb" and a driver that counts its calls.\<close>

definition count_ops :: "nat block_operations" where
  "count_ops = \<lparr>op_read = (\<lambda>buf k params n. (512, n + 1)), op_write = (\<lambda>buf k params n. (512, n + 1))\<rparr>"

definition named_memory :: memory where
  "named_memory = (\<lambda>_. 0)(0x1000 := 104, 0x1001 := 100, 0x1002 := 98,
     0x2008 := 104, 0x2009 := 100, 0x200a := 97, 0x3008 := 104, 0x3009 := 100, 0x300a := 98)"

definition named_blocks :: "nat blocks" where
  "named_blocks = \<lparr>bmem = named_memory, blinks = list_add_tail (BlockNode 0x3000) BlockDevices
     (list_add_tail (BlockNode 0x2000) BlockDevices (list_head_init BlockDevices \<lparr>lprev = id, lnext = id\<rparr>)),
     nr_sectors = (\<lambda>_. 100), block_ops = (\<lambda>_. count_ops), block_params = id\<rparr>"

theorem block_register_find_io_witness:
  "\<exists>b'. block_register 0x4000 0x1000 64 count_ops 7 (block_init named_blocks) = Some (0x4000, b') \<and>
    blcok_get_by_name 0x1000 b' = Some 0x4000 \<and> block_read 0x4000 0 63 b' 5 = (512, 6) \<and>
    block_write 0x4000 0 64 b' 5 = (- 1, 5)"
proof -
  have c: "cstr (bmem named_blocks) 0x1000 [104, 100, 98]" by (simp add: named_blocks_def named_memory_def)
  have "\<exists>b'. block_register 0x4000 0x1000 64 count_ops 7 (block_init named_blocks) = Some (0x4000, b') \<and>
      blcok_get_by_name 0x1000 b' = Some 0x4000 \<and>
      block_read 0x4000 0 k b' 5 = (if k < 64 then op_read count_ops 0 k 7 5 else (- 1, 5)) \<and>
      block_write 0x4000 0 k b' 5 = (if k < 64 then op_write count_ops 0 k 7 5 else (- 1, 5)) \<and>
      ring (blinks (block_unregister 0x4000 b')) BlockDevices []" for k
    using block_register_find_io [OF _ _ c, of "0x4000" 64 count_ops 7 0 k 5] by simp
  from this [of 63] this [of 64] show ?thesis by (auto simp: count_ops_def)
qed

text \<open>
  The lookup confuses names that differ in their last byte only, because \<open>strcmp\<close> does:
  with a device called \<open>xs\<close> followed by \<open>a\<close> first in the list, a lookup of \<open>xs\<close> followed by
  \<open>b\<close> returns that device, whatever follows it. Asking for "hdb" gives "hda".
\<close>

theorem block_lookup_confuses:
  assumes "ring (blinks b) BlockDevices (map BlockNode (d # ds))"
    and "cstr (bmem b) name (xs @ [y])" "cstr (bmem b) (block_name d) (xs @ [z])"
    and "\<forall>e\<in>set ds. \<exists>t. cstr (bmem b) (block_name e) t"
  shows "blcok_get_by_name name b = Some d"
  using get_by_name_ring [OF assms(1,2)] assms(3,4) strcmp_last_char [OF assms(2,3)]
  by (auto simp: matches_def)

theorem block_lookup_confuses_witness:
  "cstr (bmem named_blocks) 0x1000 [104, 100, 98] \<and> cstr (bmem named_blocks) (block_name 0x3000) [104, 100, 98] \<and>
   blcok_get_by_name 0x1000 named_blocks = Some 0x2000"
proof -
  let ?m = "list_head_init BlockDevices \<lparr>lprev = id, lnext = id\<rparr>"
  have "ring ?m BlockDevices []" by (rule dl.rep_init)
  then have "ring (list_add_tail (BlockNode 0x2000) BlockDevices ?m) BlockDevices [BlockNode 0x2000]"
    by (rule dl.rep_add_tail [where xs = "[]", simplified]) simp
  then have "ring (blinks named_blocks) BlockDevices ([BlockNode 0x2000] @ [BlockNode 0x3000])"
    unfolding named_blocks_def blocks.simps by (rule dl.rep_add_tail) simp
  then have r: "ring (blinks named_blocks) BlockDevices (map BlockNode [0x2000, 0x3000])" by simp
  have c: "cstr (bmem named_blocks) 0x1000 ([104, 100] @ [98])"
    "cstr (bmem named_blocks) (block_name 0x2000) ([104, 100] @ [97])"
    "cstr (bmem named_blocks) (block_name 0x3000) [104, 100, 98]"
    by (simp_all add: named_blocks_def named_memory_def block_name_def)
  have "\<exists>t. cstr (bmem named_blocks) (block_name 0x3000) t" by (rule exI) (rule c(3))
  then have "\<forall>e\<in>set [0x3000]. \<exists>t. cstr (bmem named_blocks) (block_name e) t" by simp
  from block_lookup_confuses [OF r c(1,2) this] c show ?thesis by simp
qed

end
