(* ===== verification/Port_IO.thy ===== *)
theory Port_IO
  imports Memory
begin

text \<open>
  Port input and output, \<open>lib/asm/io.h\<close>. The hardware behind the ports is a parameter: a
  \<open>device\<close> answers a read at a port with a value that may depend on everything that has
  been read and written before. The state of the model is that history, oldest event first.

  The string instructions move \<open>cnt\<close> 16-bit words between a port and memory, upwards.
\<close>

datatype io_event =
    InB u16 u8 | InW u16 u16 | InL u16 u32
  | OutB u16 u8 | OutW u16 u16 | OutL u16 u32

type_synonym history = "io_event list"
type_synonym device = "history \<Rightarrow> u16 \<Rightarrow> u32"

definition inb :: "device \<Rightarrow> u16 \<Rightarrow> history \<Rightarrow> u8 \<times> history" where
  "inb dev port h = (let val = ucast (dev h port) in (val, h @ [InB port val]))"

definition inw :: "device \<Rightarrow> u16 \<Rightarrow> history \<Rightarrow> u16 \<times> history" where
  "inw dev port h = (let val = ucast (dev h port) in (val, h @ [InW port val]))"

definition inl :: "device \<Rightarrow> u16 \<Rightarrow> history \<Rightarrow> u32 \<times> history" where
  "inl dev port h = (let val = dev h port in (val, h @ [InL port val]))"

definition outb :: "u16 \<Rightarrow> u8 \<Rightarrow> history \<Rightarrow> history" where
  "outb port val h = h @ [OutB port val]"

definition outw :: "u16 \<Rightarrow> u16 \<Rightarrow> history \<Rightarrow> history" where
  "outw port val h = h @ [OutW port val]"

definition outl :: "u16 \<Rightarrow> u32 \<Rightarrow> history \<Rightarrow> history" where
  "outl port val h = h @ [OutL port val]"

definition load16 :: "memory \<Rightarrow> u32 \<Rightarrow> u16" where
  "load16 m a = ucast (m a) OR push_bit 8 (ucast (m (a + 1)))"

definition store16 :: "u32 \<Rightarrow> u16 \<Rightarrow> memory \<Rightarrow> memory" where
  "store16 a w m = m(a := ucast w, a + 1 := ucast (drop_bit 8 w))"

fun insw :: "device \<Rightarrow> u16 \<Rightarrow> u32 \<Rightarrow> nat \<Rightarrow> memory \<times> history \<Rightarrow> memory \<times> history" where
  "insw dev port addr 0 (m, h) = (m, h)"
| "insw dev port addr (Suc cnt) (m, h) =
     (let (w, h) = inw dev port h in insw dev port (addr + 2) cnt (store16 addr w m, h))"

fun outsw :: "u16 \<Rightarrow> u32 \<Rightarrow> nat \<Rightarrow> memory \<times> history \<Rightarrow> history" where
  "outsw port addr 0 (m, h) = h"
| "outsw port addr (Suc cnt) (m, h) = outsw port (addr + 2) cnt (m, outw port (load16 m addr) h)"

section \<open>Facts\<close>

lemmas out_defs = outb_def outw_def outl_def
lemmas in_defs = inb_def inw_def inl_def

lemma load16_store16 [simp]: "load16 (store16 a w m) a = w"
proof (rule bit_word_eqI)
  fix n assume "n < LENGTH(16)"
  then have "n < 8 \<or> 8 \<le> n \<and> n < 16" by auto
  then show "bit (load16 (store16 a w m) a) n = bit w n"
    unfolding load16_def store16_def by (auto simp: bit_simps)
qed

lemma outsw_history:
  "outsw port addr cnt (m, h) = h @ map (\<lambda>i. OutW port (load16 m (addr + 2 * of_nat i))) [0..<cnt]"
proof (induction cnt arbitrary: addr h)
  case (Suc cnt)
  have "[0..<Suc cnt] = 0 # map Suc [0..<cnt]" by (simp add: upt_conv_Cons map_Suc_upt del: upt_Suc)
  then show ?case by (simp add: Suc outw_def algebra_simps)
qed simp

text \<open>The words \<open>insw\<close> reads, one after the other, and where they end up.\<close>

fun read_words :: "device \<Rightarrow> u16 \<Rightarrow> nat \<Rightarrow> history \<Rightarrow> u16 list" where
  "read_words dev port 0 h = []"
| "read_words dev port (Suc n) h =
     (let w = ucast (dev h port) in w # read_words dev port n (h @ [InW port w]))"

lemma length_read_words [simp]: "length (read_words dev port n h) = n"
  by (induction n arbitrary: h) (simp_all add: Let_def)

lemma insw_history:
  "snd (insw dev port addr n (m, h)) = h @ map (InW port) (read_words dev port n h)"
  by (induction n arbitrary: addr m h) (simp_all add: inw_def Let_def)

lemma store16_other:
  assumes "unat a + 1 < 4294967296" "unat x < unat a \<or> unat a + 1 < unat x"
  shows "store16 a w m x = m x"
proof -
  have "unat (a + 1) = unat a + 1" using assms(1) by (simp add: unat_plus_no_wrap)
  with assms(2) show ?thesis by (auto simp: store16_def word_unat_eq_iff)
qed

lemma insw_other:
  assumes "unat addr + 2 * n < 4294967296" "unat x < unat addr \<or> unat addr + 2 * n \<le> unat x"
  shows "fst (insw dev port addr n (m, h)) x = m x"
  using assms
proof (induction n arbitrary: addr m h)
  case (Suc n)
  have u: "unat (addr + 2) = unat addr + 2" using Suc.prems(1) by (simp add: unat_plus_no_wrap)
  let ?w = "ucast (dev h port)"
  have "fst (insw dev port (addr + 2) n (store16 addr ?w m, h @ [InW port ?w])) x = store16 addr ?w m x"
    using Suc.prems by (intro Suc.IH) (auto simp: u)
  also have "\<dots> = m x" using Suc.prems by (intro store16_other) auto
  finally show ?case by (simp add: inw_def Let_def)
qed simp

lemma load16_cong: "m a = m' a \<Longrightarrow> m (a + 1) = m' (a + 1) \<Longrightarrow> load16 m a = load16 m' a"
  by (simp add: load16_def)

lemma insw_words:
  assumes "unat addr + 2 * n < 4294967296" "i < n"
  shows "load16 (fst (insw dev port addr n (m, h))) (addr + 2 * of_nat i) = read_words dev port n h ! i"
  using assms
proof (induction n arbitrary: addr m h i)
  case (Suc n)
  have u: "unat (addr + 2) = unat addr + 2" "unat (addr + 1) = unat addr + 1"
    using Suc.prems(1) by (simp_all add: unat_plus_no_wrap)
  let ?w = "ucast (dev h port)" and ?h = "h @ [InW port (ucast (dev h port))]"
  have step: "insw dev port addr (Suc n) (m, h) = insw dev port (addr + 2) n (store16 addr ?w m, ?h)"
    by (simp add: inw_def Let_def)
  show ?case
  proof (cases i)
    case 0
    have "fst (insw dev port (addr + 2) n (store16 addr ?w m, ?h)) x = store16 addr ?w m x"
      if "x = addr \<or> x = addr + 1" for x
      using Suc.prems(1) u that by (intro insw_other) auto
    then have "load16 (fst (insw dev port (addr + 2) n (store16 addr ?w m, ?h))) addr =
        load16 (store16 addr ?w m) addr"
      by (intro load16_cong) simp_all
    then show ?thesis unfolding step 0 by (simp add: Let_def)
  next
    case (Suc j)
    have "load16 (fst (insw dev port (addr + 2) n (store16 addr ?w m, ?h))) (addr + 2 + 2 * of_nat j) =
        read_words dev port n ?h ! j"
      using Suc.prems Suc u(1) by (intro Suc.IH) auto
    then show ?thesis unfolding step Suc by (simp add: Let_def algebra_simps)
  qed
qed simp

section \<open>Memory at constant distances\<close>

text \<open>Reads and writes that lie apart, by the difference of their addresses, which may wrap.\<close>

lemma sep_bytes:
  fixes a b :: u32
  assumes "of_nat n \<le> b - a" "of_nat k \<le> a - b" "i < n" "j < k" "n < 16" "k < 16"
  shows "b + of_nat j \<noteq> a + of_nat i"
proof
  assume eq: "b + of_nat j = a + of_nat i"
  have n: "n \<le> unat (b - a)" "k \<le> unat (a - b)"
    using assms by (simp_all add: word_le_nat_alt unat_of_nat32)
  show False
  proof (cases "j \<le> i")
    case True
    then have "b - a = of_nat (i - j)" using eq by (simp add: of_nat_diff algebra_simps)
    then have "unat (b - a) = i - j" using assms(3,5) by (simp add: unat_of_nat32)
    then show False using n assms(3) by simp
  next
    case False
    then have "a - b = of_nat (j - i)" using eq by (simp add: of_nat_diff algebra_simps)
    then have "unat (a - b) = j - i" using assms(4,6) by (simp add: unat_of_nat32)
    then show False using n assms(4) by simp
  qed
qed

lemma store32_sep:
  assumes "4 \<le> b - a" "of_nat k \<le> a - b" "j < k" "k < 16"
  shows "store32 a v m (b + of_nat j) = m (b + of_nat j)"
  using sep_bytes [of 4 b a k 0 j] sep_bytes [of 4 b a k 1 j] sep_bytes [of 4 b a k 2 j] sep_bytes [of 4 b a k 3 j] assms
  by (simp add: store32_def)

lemma store16_sep:
  assumes "2 \<le> b - a" "of_nat k \<le> a - b" "j < k" "k < 16"
  shows "store16 a v m (b + of_nat j) = m (b + of_nat j)"
  using sep_bytes [of 2 b a k 0 j] sep_bytes [of 2 b a k 1 j] assms
  by (simp add: store16_def)

lemma load_sep:
  "4 \<le> b - a \<Longrightarrow> 4 \<le> a - b \<Longrightarrow> load32 (store32 a v m) b = load32 m b"
  "2 \<le> b - a \<Longrightarrow> 4 \<le> a - b \<Longrightarrow> load32 (store16 a w m) b = load32 m b"
  "4 \<le> b - a \<Longrightarrow> 2 \<le> a - b \<Longrightarrow> load16 (store32 a v m) b = load16 m b"
  "2 \<le> b - a \<Longrightarrow> 2 \<le> a - b \<Longrightarrow> load16 (store16 a w m) b = load16 m b"
  using store32_sep [of b a 4 0] store32_sep [of b a 4 1] store32_sep [of b a 4 2] store32_sep [of b a 4 3]
    store16_sep [of b a 4 0] store16_sep [of b a 4 1] store16_sep [of b a 4 2] store16_sep [of b a 4 3]
    store32_sep [of b a 2 0] store32_sep [of b a 2 1] store16_sep [of b a 2 0] store16_sep [of b a 2 1]
  by (simp_all add: load32_def load16_def)

end
