(* ===== verification/Interrupts.thy ===== *)
theory Interrupts
  imports Port_IO
begin

text \<open>
  Interrupt gates, the interrupt controllers and the timer: \<open>kernel/interrupt.c\<close> (the
  tables), \<open>devices/pic.c\<close> and \<open>devices/hw_timer.c\<close>.

  The addresses of the interrupt descriptor table and of the assembler stubs are fixed by
  the linker: they are fields of the state. Handlers are named by the functions of the
  kernel that are installed as such; what they do is in the theories of their drivers and
  their dispatch in \<open>Machine\<close>.
\<close>

section \<open>Gates\<close>

datatype handler = default_isr | systick_intr | serial_interrupt | kbd_interrupt | ide_interrupt | divide_error

record idt_entry =
  offset0_15 :: u16
  seg_sel :: u16
  gate_config :: u16
  offset16_31 :: u16

record intr =
  idt :: "u32 \<Rightarrow> idt_entry"
  isr_table :: "u32 \<Rightarrow> handler option"
  idt_table :: u32
  isr_stubs :: "u32 \<Rightarrow> u32"

abbreviation (input) GATE_TYPE_INTR :: u32 where "GATE_TYPE_INTR \<equiv> 0xe"
abbreviation (input) GATE_TYPE_TRAP :: u32 where "GATE_TYPE_TRAP \<equiv> 0xf"
abbreviation (input) HARDWARE_INTR_START :: u32 where "HARDWARE_INTR_START \<equiv> 0x20"
abbreviation (input) INTR_COUNT :: u32 where "INTR_COUNT \<equiv> 256"
abbreviation (input) SEL_KCSEG :: u16 where "SEL_KCSEG \<equiv> 8"

text \<open>An entry is its address; its index is the pointer difference, counted in 8-byte entries.\<close>

definition set_gate :: "u32 \<Rightarrow> handler \<Rightarrow> u32 \<Rightarrow> u32 \<Rightarrow> intr \<Rightarrow> intr" where
  "set_gate entry isr dpl type s =
     (if entry = NULL then s
      else
        (let n = signed_drop_bit 3 (entry - idt_table s);
             s = s\<lparr>isr_table := (isr_table s)(n := Some isr)\<rparr>
         in s\<lparr>idt := (idt s)(n := \<lparr>offset0_15 = ucast (isr_stubs s n), seg_sel = SEL_KCSEG,
                gate_config = ucast (0x8000 OR push_bit 13 dpl OR push_bit 8 type),
                offset16_31 = ucast (drop_bit 16 (isr_stubs s n))\<rparr>)\<rparr>))"

definition set_interrupt_gate :: "u32 \<Rightarrow> handler \<Rightarrow> intr \<Rightarrow> intr" where
  "set_interrupt_gate n isr s = set_gate (idt_table s + 8 * n) isr 0 GATE_TYPE_INTR s"

definition set_trap_gate :: "u32 \<Rightarrow> handler \<Rightarrow> intr \<Rightarrow> intr" where
  "set_trap_gate n isr s = set_gate (idt_table s + 8 * n) isr 0 GATE_TYPE_TRAP s"

definition set_system_gate :: "u32 \<Rightarrow> handler \<Rightarrow> intr \<Rightarrow> intr" where
  "set_system_gate n isr s = set_gate (idt_table s + 8 * n) isr 3 GATE_TYPE_TRAP s"

section \<open>The interrupt controllers\<close>

abbreviation (input) PIC_MASTER_CTRL :: u16 where "PIC_MASTER_CTRL \<equiv> 0x20"
abbreviation (input) PIC_MASTER_DATA :: u16 where "PIC_MASTER_DATA \<equiv> 0x21"
abbreviation (input) PIC_SLAVE_CTRL :: u16 where "PIC_SLAVE_CTRL \<equiv> 0xa0"
abbreviation (input) PIC_SLAVE_DATA :: u16 where "PIC_SLAVE_DATA \<equiv> 0xa1"

definition pic_init :: "history \<Rightarrow> history" where
  "pic_init h =
     (let h = outb PIC_MASTER_DATA 0xff h;
          h = outb PIC_SLAVE_DATA 0xff h;
          h = outb PIC_MASTER_CTRL 0x11 h;
          h = outb PIC_MASTER_DATA 0x20 h;
          h = outb PIC_MASTER_DATA 0x04 h;
          h = outb PIC_MASTER_DATA 0x01 h;
          h = outb PIC_SLAVE_CTRL 0x11 h;
          h = outb PIC_SLAVE_DATA 0x28 h;
          h = outb PIC_SLAVE_DATA 0x02 h;
          h = outb PIC_SLAVE_DATA 0x01 h;
          h = outb PIC_MASTER_DATA 0 h
      in outb PIC_SLAVE_DATA 0 h)"

definition pic_end_of_interrupt :: "i32 \<Rightarrow> history \<Rightarrow> history" where
  "pic_end_of_interrupt vec_no h =
     (let h = outb PIC_MASTER_CTRL 0x20 h
      in if 0x28 \<le> sint vec_no \<and> sint vec_no \<le> 0x2f then outb PIC_SLAVE_CTRL 0x20 h else h)"

definition init_interrupt :: "u32 \<Rightarrow> intr \<times> history \<Rightarrow> intr \<times> history" where
  "init_interrupt idt_start = (\<lambda>(s, h).
     let s = s\<lparr>idt_table := idt_start\<rparr>;
         s = for_loop 0 INTR_COUNT (\<lambda>i. set_interrupt_gate i default_isr) s
     in (s, pic_init h))"

section \<open>The timer\<close>

abbreviation (input) TIMER_CTRL :: u16 where "TIMER_CTRL \<equiv> 0x43"
abbreviation (input) TICK_HZ :: u32 where "TICK_HZ \<equiv> 1193180"
abbreviation (input) TIMER_INTR_NO :: u32 where "TIMER_INTR_NO \<equiv> 0x20"

definition TIMER_DATA :: "u32 \<Rightarrow> u16" where
  "TIMER_DATA channel = ucast (0x40 + channel)"

definition hw_timer_config :: "u32 \<Rightarrow> u32 \<Rightarrow> u32 \<Rightarrow> history \<Rightarrow> history" where
  "hw_timer_config channel mode frequency h =
     (if channel \<noteq> 0 \<and> channel \<noteq> 2 then h
      else if mode \<noteq> 2 \<and> mode \<noteq> 3 then h
      else
        (let counter = (if frequency < TICK_HZ div 65536 then 0
                        else if TICK_HZ < frequency then 2
                        else ucast (TICK_HZ div frequency)) :: u16;
             h = outb TIMER_CTRL (ucast (push_bit 6 channel OR 0x30 OR push_bit 1 mode)) h;
             h = outb (TIMER_DATA channel) (ucast counter) h
         in outb (TIMER_DATA channel) (ucast (drop_bit 8 counter)) h))"

definition hw_timer_init :: "intr \<times> history \<Rightarrow> intr \<times> history" where
  "hw_timer_init = (\<lambda>(s, h).
     let h = hw_timer_config 0 2 100 h
     in (set_interrupt_gate TIMER_INTR_NO systick_intr s, h))"

section \<open>What a gate says\<close>

text \<open>The fields of a gate descriptor as the processor reads them.\<close>

definition gate_offset :: "idt_entry \<Rightarrow> u32" where
  "gate_offset e = ucast (offset0_15 e) OR push_bit 16 (ucast (offset16_31 e))"

definition gate_present :: "idt_entry \<Rightarrow> bool" where "gate_present e = bit (gate_config e) 15"
definition gate_dpl :: "idt_entry \<Rightarrow> nat" where "gate_dpl e = unat (drop_bit 13 (gate_config e) AND 3)"
definition gate_type :: "idt_entry \<Rightarrow> nat" where "gate_type e = unat (drop_bit 8 (gate_config e) AND 15)"

lemma gate_index:
  assumes "n < 256"
  shows "signed_drop_bit 3 (8 * n) = (n :: u32)"
proof -
  have small: "sint w = uint w" if "uint w < 2048" for w :: u32
  proof -
    have "- 2147483648 \<le> uint w" by (rule order_trans [OF _ uint_ge_0]) simp
    then show ?thesis
      unfolding sint_uint by (intro signed_take_bit_int_eq_self) (use that in simp_all)
  qed
  have u: "uint n < 256" using assms by (simp add: word_less_def)
  then have u8: "uint (8 * n) = 8 * uint n" by (simp add: uint_word_ariths)
  have "sint (signed_drop_bit 3 (8 * n)) = drop_bit 3 (8 * uint n)"
    using small [of "8 * n"] u by (simp only: sint_signed_drop_bit_eq u8)
  also have "\<dots> = sint n" using small [of n] u by (simp add: drop_bit_eq_div)
  finally show ?thesis by (rule signed_word_eqI)
qed

lemma word_halves: "(ucast (ucast (w :: u32) :: u16) OR push_bit 16 (ucast (ucast (drop_bit 16 w) :: u16))) = w"
  by (rule bit_word_eqI) (auto simp: bit_simps)

lemma set_gate_index:
  assumes "n < 256" "idt_table s + 8 * n \<noteq> NULL"
  shows "set_gate (idt_table s + 8 * n) isr dpl type s =
    s\<lparr>isr_table := (isr_table s)(n := Some isr),
      idt := (idt s)(n := \<lparr>offset0_15 = ucast (isr_stubs s n), seg_sel = 8,
        gate_config = ucast (0x8000 OR push_bit 13 dpl OR push_bit 8 type),
        offset16_31 = ucast (drop_bit 16 (isr_stubs s n))\<rparr>)\<rparr>"
  using assms(2) gate_index [OF assms(1)] by (simp add: set_gate_def Let_def)


lemma gate_config_fields:
  assumes "dpl = 0 \<or> dpl = 3" "type = 14 \<or> type = 15"
  shows "bit (ucast (0x8000 OR push_bit 13 dpl OR push_bit 8 type) :: u16) 15"
    and "unat (drop_bit 13 (ucast (0x8000 OR push_bit 13 dpl OR push_bit 8 type) :: u16) AND 3) = unat (dpl :: u32)"
    and "unat (drop_bit 8 (ucast (0x8000 OR push_bit 13 dpl OR push_bit 8 type) :: u16) AND 15) = unat (type :: u32)"
  using assms by auto

lemma set_gate_spec:
  fixes isr :: handler
  assumes "n < 256" "idt_table s + 8 * n \<noteq> NULL" "dpl = 0 \<or> dpl = 3" "type = 14 \<or> type = 15"
  defines "s' \<equiv> set_gate (idt_table s + 8 * n) isr dpl type s"
  shows "isr_table s' = (isr_table s)(n := Some isr)" "idt_table s' = idt_table s"
    "isr_stubs s' = isr_stubs s" "m \<noteq> n \<Longrightarrow> idt s' m = idt s m"
    "gate_offset (idt s' n) = isr_stubs s n" "seg_sel (idt s' n) = 8" "gate_present (idt s' n)"
    "gate_dpl (idt s' n) = unat dpl" "gate_type (idt s' n) = unat type"
  unfolding s'_def set_gate_index [OF assms(1,2)] gate_offset_def gate_present_def gate_dpl_def gate_type_def
  by (simp_all add: gate_config_fields [OF assms(3,4)] word_halves)

text \<open>A table none of whose 256 entries lies at address 0.\<close>

definition idt_mapped :: "u32 \<Rightarrow> bool" where
  "idt_mapped t \<longleftrightarrow> (\<forall>n. n < 256 \<longrightarrow> t + 8 * n \<noteq> NULL)"

lemma init_gates:
  assumes "idt_mapped (idt_table s)" and n: "n < 256"
  defines "s' \<equiv> for_loop 0 INTR_COUNT (\<lambda>i. set_interrupt_gate i default_isr) s"
  shows "isr_table s' n = Some default_isr \<and> gate_offset (idt s' n) = isr_stubs s n \<and>
    seg_sel (idt s' n) = 8 \<and> gate_present (idt s' n) \<and> gate_dpl (idt s' n) = 0 \<and> gate_type (idt s' n) = 14"
proof -
  define G where "G s' i \<longleftrightarrow> isr_table s' i = Some default_isr \<and> gate_offset (idt s' i) = isr_stubs s i \<and>
    seg_sel (idt s' i) = 8 \<and> gate_present (idt s' i) \<and> gate_dpl (idt s' i) = 0 \<and> gate_type (idt s' i) = 14"
    for s' :: intr and i
  define P where "P k s' \<longleftrightarrow> idt_table s' = idt_table s \<and> isr_stubs s' = isr_stubs s \<and>
    (\<forall>i. unat i < k \<longrightarrow> G s' i)" for k and s' :: intr
  have "P (unat (256 :: u32)) s'"
    unfolding s'_def
  proof (rule for_loop_inv)
    fix k t assume k: "k < unat (256 :: u32)" and P: "P k t"
    define i where "i = (of_nat k :: u32)"
    have i: "unat i = k" "i < 256" using k by (simp_all add: i_def unat_of_nat32 word_less_nat_alt)
    have nn: "idt_table t + 8 * i \<noteq> NULL" using assms(1) P i(2) by (simp add: P_def idt_mapped_def)
    note g = set_gate_spec [OF i(2) nn, where dpl = 0 and type = GATE_TYPE_INTR and isr = default_isr, simplified]
    have "G (set_interrupt_gate i default_isr t) i"
      using g P by (simp add: G_def P_def set_interrupt_gate_def)
    moreover have "G (set_interrupt_gate i default_isr t) j" if "unat j < k" for j
      using that i(1) g P by (auto simp: G_def P_def set_interrupt_gate_def)
    moreover have "unat j < Suc k \<longleftrightarrow> unat j < k \<or> j = i" for j
      using i(1) unat_inj_iff [of j i] by (auto simp: less_Suc_eq)
    ultimately show "P (Suc k) (set_interrupt_gate (of_nat k) default_isr t)"
      using g P unfolding i_def [symmetric] by (auto simp: P_def set_interrupt_gate_def)
  qed (simp_all add: P_def)
  then show ?thesis using n by (simp add: P_def G_def word_less_nat_alt)
qed

text \<open>
  An 8259A, from its data sheet: a control write with bit 4 set (ICW1) starts the
  initialisation, with the trigger mode in bit 3, a single controller in bit 1 and, in bit 0,
  whether a mode word follows; it clears the mask. The data writes that follow are the vector
  base (ICW2), the wiring unless the controller is single (ICW3: in a master a bit for each
  line with a slave, in a slave the number of its line) and the mode (ICW4: 8086 vectors in bit 0,
  automatic end of interrupt in bit 1), which is zero if it is not announced. After that a data
  write is the interrupt mask. \<open>next_icw\<close> is the word expected, 0 when there is none.
\<close>

record chip =
  next_icw :: nat
  level_triggered :: bool
  single :: bool
  icw4_follows :: bool
  vector_base :: u8
  wiring :: u8
  mode_8086 :: bool
  auto_eoi :: bool
  mask_reg :: u8

fun pic_write :: "bool \<Rightarrow> u8 \<Rightarrow> chip \<Rightarrow> chip" where
  "pic_write True v c =
     (if bit v 4
      then c\<lparr>next_icw := 2, level_triggered := bit v 3, single := bit v 1, icw4_follows := bit v 0,
             mode_8086 := False, auto_eoi := False, mask_reg := 0\<rparr>
      else c)"
| "pic_write False v c =
     (let mode_next = (if icw4_follows c then 4 else 0)
      in if next_icw c = 2 then c\<lparr>vector_base := v, next_icw := if single c then mode_next else 3\<rparr>
         else if next_icw c = 3 then c\<lparr>wiring := v, next_icw := mode_next\<rparr>
         else if next_icw c = 4 then c\<lparr>mode_8086 := bit v 0, auto_eoi := bit v 1, next_icw := 0\<rparr>
         else c\<lparr>mask_reg := v\<rparr>)"

fun pic_event :: "u16 \<Rightarrow> io_event \<Rightarrow> chip \<Rightarrow> chip" where
  "pic_event port (OutB p v) c =
     (if p = port then pic_write True v c else if p = port + 1 then pic_write False v c else c)"
| "pic_event port _ c = c"

text \<open>
  The vector the processor gets for a request on line \<open>n\<close> of a PC: lines 0 to 7 are those of
  the master, 8 to 15 those of the slave, whose output is wired to line 2 of the master. The master
  lets a request of the slave through if that line is not masked and its wiring says that a
  slave is there; the slave gives its vector if it answers to that line. A line of the master with a
  slave has no vector of its own.
\<close>

definition gives_vector :: "chip \<Rightarrow> nat \<Rightarrow> bool" where
  "gives_vector c k \<longleftrightarrow> next_icw c = 0 \<and> mode_8086 c \<and> \<not> bit (mask_reg c) k"

definition irq_vector :: "chip \<Rightarrow> chip \<Rightarrow> nat \<Rightarrow> u8 option" where
  "irq_vector m s n =
     (if n < 8
      then if gives_vector m n \<and> (single m \<or> \<not> bit (wiring m) n) then Some ((vector_base m AND 0xf8) OR of_nat n) else None
      else if gives_vector m 2 \<and> \<not> single m \<and> bit (wiring m) 2 \<and> gives_vector s (n - 8) \<and> \<not> single s \<and> wiring s AND 7 = 2
           then Some ((vector_base s AND 0xf8) OR of_nat (n - 8)) else None)"

text \<open>What \<open>pic_init\<close> makes of a controller with the given base and wiring.\<close>

definition set_up :: "u8 \<Rightarrow> u8 \<Rightarrow> chip" where
  "set_up base wires = \<lparr>next_icw = 0, level_triggered = False, single = False, icw4_follows = True, vector_base = base,
     wiring = wires, mode_8086 = True, auto_eoi = False, mask_reg = 0\<rparr>"

lemma pic_sequence:
  "pic_write False 0 (pic_write False 1 (pic_write False w (pic_write False b (pic_write True 0x11 c)))) = set_up b w"
proof -
  have "bit (0x11 :: u8) 4" "\<not> bit (0x11 :: u8) 3" "\<not> bit (0x11 :: u8) 1" "bit (0x11 :: u8) 0" "bit (1 :: u8) 0" "\<not> bit (1 :: u8) 1"
    by simp_all
  then show ?thesis by (simp add: set_up_def)
qed

definition pic_events :: history where
  "pic_events = [OutB 0x21 0xff, OutB 0xa1 0xff, OutB 0x20 0x11, OutB 0x21 0x20, OutB 0x21 4, OutB 0x21 1,
    OutB 0xa0 0x11, OutB 0xa1 0x28, OutB 0xa1 2, OutB 0xa1 1, OutB 0x21 0, OutB 0xa1 0]"

lemma pic_init_events:
  "pic_init h = h @ pic_events" "fold (pic_event PIC_MASTER_CTRL) pic_events c = set_up 0x20 4"
  "fold (pic_event PIC_SLAVE_CTRL) pic_events c = set_up 0x28 2"
proof -
  show "pic_init h = h @ pic_events" by (simp add: pic_init_def pic_events_def outb_def)
  have "fold (pic_event PIC_MASTER_CTRL) pic_events c =
      pic_write False 0 (pic_write False 1 (pic_write False 4 (pic_write False 0x20 (pic_write True 0x11
        (pic_write False 0xff c)))))"
    by (simp add: pic_events_def del: pic_write.simps)
  then show "fold (pic_event PIC_MASTER_CTRL) pic_events c = set_up 0x20 4" unfolding pic_sequence .
  have "fold (pic_event PIC_SLAVE_CTRL) pic_events c =
      pic_write False 0 (pic_write False 1 (pic_write False 2 (pic_write False 0x28 (pic_write True 0x11
        (pic_write False 0xff c)))))"
    by (simp add: pic_events_def del: pic_write.simps)
  then show "fold (pic_event PIC_SLAVE_CTRL) pic_events c = set_up 0x28 2" unfolding pic_sequence .
qed

lemma set_up_vectors:
  assumes "n < 16"
  shows "irq_vector (set_up 0x20 4) (set_up 0x28 2) n = (if n = 2 then None else Some (0x20 + of_nat n))"
proof -
  have "n = 0 \<or> n = 1 \<or> n = 2 \<or> n = 3 \<or> n = 4 \<or> n = 5 \<or> n = 6 \<or> n = 7 \<or>
      n = 8 \<or> n = 9 \<or> n = 10 \<or> n = 11 \<or> n = 12 \<or> n = 13 \<or> n = 14 \<or> n = 15" using assms by arith
  then show ?thesis by (elim disjE) (simp_all add: irq_vector_def gives_vector_def set_up_def)
qed

section \<open>Properties\<close>

definition empty_idt :: intr where
  "empty_idt = \<lparr>idt = (\<lambda>_. \<lparr>offset0_15 = 0, seg_sel = 0, gate_config = 0, offset16_31 = 0\<rparr>),
     isr_table = (\<lambda>_. None), idt_table = 0, isr_stubs = (\<lambda>n. 0xC0020000 + 16 * n)\<rparr>"

lemma sample_idt: "idt_mapped 0xC0010000"
proof -
  have "(0xC0010000 :: u32) + 8 * n \<noteq> 0" if "n < 256" for n :: u32
  proof -
    have n: "unat n < 256" using that by (simp add: word_less_nat_alt)
    then have "unat (8 * n) = 8 * unat n" by (simp add: unat_word_ariths)
    then have "unat ((0xC0010000 :: u32) + 8 * n) = 0xC0010000 + 8 * unat n"
      using n by (subst unat_plus_no_wrap) simp_all
    then show ?thesis by (metis add_is_0 unat_0 zero_neq_numeral)
  qed
  then show ?thesis by (simp add: idt_mapped_def)
qed

text \<open>
  C33: \<open>init_interrupt\<close> gives each of the 256 vectors a present interrupt gate of privilege 0 in
  the kernel code segment that leads to the stub of its number, with the default handler,
  and initialises the two controllers, from any state they may be in, for edge triggered
  requests and no automatic end of interrupt: by their data sheet IRQ 0 to 15 are raised as
  vectors 0x20 to 0x2f, unmasked, those of the slave through line 2 of the master; IRQ 2 itself
  is the cascade and has no vector.
\<close>

theorem interrupts_initialised:
  assumes "idt_mapped start" "init_interrupt start (s, h) = (s', h')" "n < 256"
  shows "isr_table s' n = Some default_isr \<and> gate_offset (idt s' n) = isr_stubs s n \<and>
    seg_sel (idt s' n) = 8 \<and> gate_present (idt s' n) \<and> gate_dpl (idt s' n) = 0 \<and> gate_type (idt s' n) = 14 \<and>
    (\<exists>evs. h' = h @ evs \<and>
      (\<forall>m sl. let m' = fold (pic_event PIC_MASTER_CTRL) evs m; sl' = fold (pic_event PIC_SLAVE_CTRL) evs sl
        in (\<forall>q<16. irq_vector m' sl' q = (if q = 2 then None else Some (0x20 + of_nat q))) \<and>
           \<not> level_triggered m' \<and> \<not> level_triggered sl' \<and> \<not> auto_eoi m' \<and> \<not> auto_eoi sl'))"
proof -
  have s': "s' = for_loop 0 INTR_COUNT (\<lambda>i. set_interrupt_gate i default_isr) (s\<lparr>idt_table := start\<rparr>)"
    and h': "h' = pic_init h"
    using assms(2) by (simp_all add: init_interrupt_def Let_def)
  have h1: "h' = h @ pic_events" unfolding h' by (rule pic_init_events(1))
  have "\<not> level_triggered (set_up b w)" "\<not> auto_eoi (set_up b w)" for b w by (simp_all add: set_up_def)
  moreover have "idt_mapped (idt_table (s\<lparr>idt_table := start\<rparr>))" using assms(1) by simp
  note init_gates [OF this assms(3)]
  ultimately show ?thesis
    using h1 set_up_vectors unfolding s' Let_def by (intro conjI exI [of _ pic_events]) (simp_all add: pic_init_events(2,3))
qed

theorem interrupts_initialised_witness:
  "isr_table (fst (init_interrupt 0xC0010000 (empty_idt, []))) 255 = Some default_isr \<and>
   gate_offset (idt (fst (init_interrupt 0xC0010000 (empty_idt, []))) 255) = 0xC0020FF0 \<and>
   (\<exists>evs. snd (init_interrupt 0xC0010000 (empty_idt, [])) = evs \<and>
     irq_vector (fold (pic_event 0x20) evs (set_up 8 0)) (fold (pic_event 0xa0) evs (set_up 0x70 0)) 14 = Some 0x2e)"
proof -
  note m = sample_idt
  have "init_interrupt 0xC0010000 (empty_idt, []) =
      (fst (init_interrupt 0xC0010000 (empty_idt, [])), snd (init_interrupt 0xC0010000 (empty_idt, [])))"
    by simp
  from interrupts_initialised [OF m this, of 255] show ?thesis by (simp add: empty_idt_def Let_def)
qed

text \<open>
  The timer is programmed with the divisor of the requested frequency: for a valid channel
  and mode the 16-bit counter loaded, low byte first, is \<open>1193180 div f\<close> for every frequency
  from 19 to 1193180, 0 (which counts as 65536) below 18 and 2 above 1193180. At 18 Hz the
  quotient, 66287, does not fit: the counter is 751.
\<close>

theorem timer_divisor:
  assumes "channel = 0 \<or> channel = 2" "mode = 2 \<or> mode = 3"
  shows "\<exists>ctl lo hi. hw_timer_config channel mode f h =
      h @ [OutB TIMER_CTRL ctl, OutB (TIMER_DATA channel) lo, OutB (TIMER_DATA channel) hi] \<and>
    unat lo + 256 * unat hi =
      (if unat f < 18 then 0 else if unat f = 18 then 751 else if unat f \<le> 1193180 then 1193180 div unat f else 2)"
proof -
  define c where "c = (if f < TICK_HZ div 65536 then 0 else if TICK_HZ < f then 2 else ucast (TICK_HZ div f) :: u16)"
  have halves: "unat (ucast w :: u8) + 256 * unat (ucast (drop_bit 8 w) :: u8) = unat w" for w :: u16
  proof -
    have "unat w < 65536" using unsigned_less [of w] by simp
    then have "unat w div 256 mod 256 = unat w div 256"
      by (intro mod_less) (simp add: less_mult_imp_div_less)
    then show ?thesis
      by (simp add: unsigned_ucast_eq unat_drop_bit_eq drop_bit_eq_div take_bit_eq_mod unat_div)
  qed
  have "unat c = (if unat f < 18 then 0 else if unat f = 18 then 751 else if unat f \<le> 1193180 then 1193180 div unat f else 2)"
  proof -
    have q: "unat (1193180 div f) = 1193180 div unat f" by (simp add: unat_div)
    have small: "1193180 div unat f < 65536" if "19 \<le> unat f"
      using that by (simp add: div_less_iff_less_mult)
    have u: "unat (ucast (1193180 div f) :: u16) = (1193180 div unat f) mod 65536"
      by (simp add: unsigned_ucast_eq q take_bit_eq_mod)
    show ?thesis
      unfolding c_def using small u by (auto simp: word_less_nat_alt)
  qed
  moreover have "hw_timer_config channel mode f h =
      h @ [OutB TIMER_CTRL (ucast (push_bit 6 channel OR 0x30 OR push_bit 1 mode)),
        OutB (TIMER_DATA channel) (ucast c), OutB (TIMER_DATA channel) (ucast (drop_bit 8 c))]"
    using assms unfolding hw_timer_config_def c_def Let_def outb_def by auto
  ultimately show ?thesis using halves [of c] by metis
qed

theorem timer_divisor_witness:
  "\<exists>ctl lo hi. hw_timer_config 0 2 100 [] = [OutB 0x43 ctl, OutB 0x40 lo, OutB 0x40 hi] \<and>
    unat lo + 256 * unat hi = 11931"
  using timer_divisor [of 0 2 100 "[]"] by (simp add: TIMER_DATA_def)

end
