(* ===== verification/Console.thy ===== *)
theory Console
  imports Port_IO Vaddr
begin

text \<open>
  The text console of \<open>devices/fb.c\<close>: an 80 by 25 grid of character and attribute bytes at
  physical address 0xb8000, a software cursor, and the cursor registers of the display
  controller behind ports 0x3d4 and 0x3d5. The bytes are those of the memory model, so a
  cursor outside the grid writes where the code would write.

  \<open>screen\<close> is the abstract terminal; \<open>fb_putc\<close> is shown to implement it.
\<close>

section \<open>The driver\<close>

record console =
  cx :: u32
  cy :: u32
  inited :: bool
  vram :: memory
  chist :: history

abbreviation (input) COL_CNT :: u32 where "COL_CNT \<equiv> 80"
abbreviation (input) ROW_CNT :: u32 where "ROW_CNT \<equiv> 25"
abbreviation (input) GRAY_ON_BLACK :: u8 where "GRAY_ON_BLACK \<equiv> 7"

text \<open>The address of \<open>fb[y][x][i]\<close>.\<close>

definition fb_at :: "u32 \<Rightarrow> u32 \<Rightarrow> u32 \<Rightarrow> u32" where
  "fb_at y x i = ptov 0xb8000 + (y * COL_CNT + x) * 2 + i"

definition clear_row :: "u32 \<Rightarrow> console \<Rightarrow> console" where
  "clear_row y s = for_loop 0 COL_CNT
     (\<lambda>x s. s\<lparr>vram := (vram s)(fb_at y x 0 := 32, fb_at y x 1 := GRAY_ON_BLACK)\<rparr>) s"

definition move_cursor :: "console \<Rightarrow> console" where
  "move_cursor s =
     (let cp = ucast (cx s + COL_CNT * cy s) :: u16;
          h = outw 0x3d4 (0x0e OR (cp AND 0xff00)) (chist s);
          h = outw 0x3d4 (0x0f OR push_bit 8 cp) h
      in s\<lparr>chist := h\<rparr>)"

definition cls :: "console \<Rightarrow> console" where
  "cls s = (let s = for_loop 0 ROW_CNT clear_row s in move_cursor (s\<lparr>cy := 0, cx := 0\<rparr>))"

definition newline :: "console \<Rightarrow> console" where
  "newline s =
     (let s = s\<lparr>cx := 0\<rparr>;
          s = s\<lparr>cy := cy s + 1\<rparr>
      in if ROW_CNT \<le> cy s
         then (let s = s\<lparr>cy := ROW_CNT - 1\<rparr>;
                   s = s\<lparr>vram := snd (memmove (fb_at 0 0 0) (fb_at 1 0 0) (160 * (ROW_CNT - 1)) (vram s))\<rparr>
               in clear_row (ROW_CNT - 1) s)
         else s)"

definition find_cursor :: "device \<Rightarrow> console \<Rightarrow> u32 \<times> u32 \<times> console" where
  "find_cursor dev s =
     (let h = outb 0x3d4 0x0e (chist s);
          (v, h) = inb dev 0x3d5 h;
          cp = push_bit 8 (ucast v) :: u16;
          h = outb 0x3d4 0x0f h;
          (v, h) = inb dev 0x3d5 h;
          cp = cp OR ucast v
      in (ucast (cp mod 80), ucast (cp div 80), s\<lparr>chist := h\<rparr>))"

definition init_cursor :: "device \<Rightarrow> console \<Rightarrow> console" where
  "init_cursor dev s =
     (if \<not> inited s
      then (let (x, y, s) = find_cursor dev s;
                s = s\<lparr>cx := x, cy := y\<rparr>;
                s = s\<lparr>cy := cy s + 3\<rparr>;
                s = s\<lparr>cx := 0\<rparr>;
                s = move_cursor s
            in s\<lparr>inited := True\<rparr>)
      else s)"

definition fb_putc :: "device \<Rightarrow> u8 \<Rightarrow> console \<Rightarrow> console" where
  "fb_putc dev ch s =
     (let s = init_cursor dev s;
          s = (if ch = 13 then s\<lparr>cx := 0\<rparr>
               else if ch = 10 then newline s
               else if ch = 12 then cls s
               else if ch = 8 then (if 0 < cx s then s\<lparr>cx := cx s - 1\<rparr> else s)
               else if ch = 9 then
                 (let s = s\<lparr>cx := ROUND_UP (cx s + 1) 8\<rparr>
                  in if COL_CNT \<le> cx s then newline s else s)
               else
                 (let s = s\<lparr>vram := (vram s)(fb_at (cy s) (cx s) 0 := ch)\<rparr>;
                      s = s\<lparr>vram := (vram s)(fb_at (cy s) (cx s) 1 := GRAY_ON_BLACK)\<rparr>;
                      s = s\<lparr>cx := cx s + 1\<rparr>
                  in if COL_CNT \<le> cx s then newline s else s))
      in move_cursor s)"

section \<open>The abstract terminal\<close>

record screen =
  cell :: "nat \<Rightarrow> nat \<Rightarrow> u8 \<times> u8"
  col :: nat
  row :: nat

definition blank :: "u8 \<times> u8" where
  "blank = (32, 7)"

definition scr_newline :: "screen \<Rightarrow> screen" where
  "scr_newline t =
     (if row t < 24 then t\<lparr>col := 0, row := row t + 1\<rparr>
      else t\<lparr>col := 0, row := 24,
             cell := (\<lambda>y x. if y < 24 then cell t (y + 1) x else if y = 24 \<and> x < 80 then blank else cell t y x)\<rparr>)"

definition scr_putc :: "u8 \<Rightarrow> screen \<Rightarrow> screen" where
  "scr_putc ch t =
     (if ch = 13 then t\<lparr>col := 0\<rparr>
      else if ch = 10 then scr_newline t
      else if ch = 12 then t\<lparr>col := 0, row := 0, cell := (\<lambda>y x. if y < 25 \<and> x < 80 then blank else cell t y x)\<rparr>
      else if ch = 8 then t\<lparr>col := col t - 1\<rparr>
      else if ch = 9 then
        (let c = (col t div 8 + 1) * 8 in if c < 80 then t\<lparr>col := c\<rparr> else scr_newline t)
      else
        (let t = t\<lparr>cell := (cell t)(row t := (cell t (row t))(col t := (ch, 7)))\<rparr>
         in if col t < 79 then t\<lparr>col := col t + 1\<rparr> else scr_newline t))"

definition vcell :: "memory \<Rightarrow> nat \<Rightarrow> nat \<Rightarrow> u8 \<times> u8" where
  "vcell m y x = (m (fb_at (of_nat y) (of_nat x) 0), m (fb_at (of_nat y) (of_nat x) 1))"

definition abs_screen :: "console \<Rightarrow> screen" where
  "abs_screen s = \<lparr>cell = (\<lambda>y x. if y < 25 \<and> x < 80
       then vcell (vram s) y x else (0, 0)),
     col = unat (cx s), row = unat (cy s)\<rparr>"

definition cursor_ok :: "console \<Rightarrow> bool" where
  "cursor_ok s \<longleftrightarrow> inited s \<and> cx s < COL_CNT \<and> cy s < ROW_CNT"

section \<open>Addresses\<close>

lemma fb_at_unat:
  assumes "y < 30" "x < 80" "i < 2"
  shows "unat (fb_at (of_nat y) (of_nat x) i) = 3221979136 + (y * 80 + x) * 2 + unat i"
proof -
  define w where "w = (of_nat y * 80 + of_nat x :: u32)"
  have i: "unat i < 2" using assms(3) by (simp add: word_less_nat_alt)
  have w: "unat w = y * 80 + x"
    unfolding w_def using assms by (simp add: unat_word_ariths unat_of_nat)
  have w2: "unat (w * 2) = (y * 80 + x) * 2"
    using assms by (simp add: unat_word_ariths w)
  have eq: "fb_at (of_nat y) (of_nat x) i = (3221979136 + w * 2) + i"
    by (simp add: fb_at_def ptov_def w_def)
  have small: "(y * 80 + x) * 2 + unat i < 5000" using assms(1,2) i by simp
  then have w3: "unat (3221979136 + w * 2) = 3221979136 + (y * 80 + x) * 2"
    by (subst unat_plus_no_wrap) (simp_all add: w2)
  show ?thesis
    unfolding eq using small by (subst unat_plus_no_wrap) (simp_all add: w3)
qed

lemma fb_at_eq:
  assumes "y < 30" "x < 80" "i < 2" "y' < 30" "x' < 80" "i' < 2"
  shows "fb_at (of_nat y) (of_nat x) i = fb_at (of_nat y') (of_nat x') i' \<longleftrightarrow> y = y' \<and> x = x' \<and> i = i'"
proof
  assume "fb_at (of_nat y) (of_nat x) i = fb_at (of_nat y') (of_nat x') i'"
  then have "(y * 80 + x) * 2 + unat i = (y' * 80 + x') * 2 + unat i'"
    using fb_at_unat [OF assms(1-3)] fb_at_unat [OF assms(4-6)] by simp
  moreover have "unat i < 2" "unat i' < 2" using assms(3,6) by (simp_all add: word_less_nat_alt)
  moreover have "a = b \<and> j = k" if "a * 2 + j = b * 2 + k" "j < 2" "k < 2" for a b j k :: nat
    using that by presburger
  ultimately have i: "unat i = unat i'" and yx: "y * 80 + x = y' * 80 + x'" by blast+
  have "(y * 80 + x) div 80 = y" "(y' * 80 + x') div 80 = y'" using assms(2,5) by simp_all
  with yx have "y = y' \<and> x = x'" by simp
  with i show "y = y' \<and> x = x' \<and> i = i'" by (simp add: unat_inj_iff)
qed simp

lemma vcell_write:
  assumes "y < 30" "x < 80" "y' < 30" "x' < 80"
  shows "vcell (m(fb_at (of_nat y) (of_nat x) 0 := c, fb_at (of_nat y) (of_nat x) 1 := a)) y' x' =
    (if y' = y \<and> x' = x then (c, a) else vcell m y' x')"
  using fb_at_eq [OF assms(3,4) _ assms(1,2)] by (auto simp: vcell_def)

section \<open>The operations on cells\<close>

lemma clear_row_spec:
  assumes "y < 25"
  shows "cx (clear_row (of_nat y) s) = cx s" "cy (clear_row (of_nat y) s) = cy s"
    "inited (clear_row (of_nat y) s) = inited s" "chist (clear_row (of_nat y) s) = chist s"
    "y' < 25 \<Longrightarrow> x' < 80 \<Longrightarrow> vcell (vram (clear_row (of_nat y) s)) y' x' =
      (if y' = y then blank else vcell (vram s) y' x')"
proof -
  define P where "P k s' \<longleftrightarrow> cx s' = cx s \<and> cy s' = cy s \<and> inited s' = inited s \<and> chist s' = chist s \<and>
    (\<forall>y'<25. \<forall>x'<80. vcell (vram s') y' x' = (if y' = y \<and> x' < k then blank else vcell (vram s) y' x'))"
    for k and s' :: console
  have "P (unat (80 :: u32)) (clear_row (of_nat y) s)"
    unfolding clear_row_def
  proof (rule for_loop_inv)
    fix k s' assume k: "k < unat (80 :: u32)" and P: "P k s'"
    have k80: "k < 80" using k by simp
    show "P (Suc k) (s'\<lparr>vram := (vram s')(fb_at (of_nat y) (of_nat k) 0 := 32, fb_at (of_nat y) (of_nat k) 1 := 7)\<rparr>)"
      using P assms k80 by (auto simp: P_def vcell_write blank_def less_Suc_eq)
  qed (simp_all add: P_def)
  then show "cx (clear_row (of_nat y) s) = cx s" "cy (clear_row (of_nat y) s) = cy s"
    "inited (clear_row (of_nat y) s) = inited s" "chist (clear_row (of_nat y) s) = chist s"
    "y' < 25 \<Longrightarrow> x' < 80 \<Longrightarrow> vcell (vram (clear_row (of_nat y) s)) y' x' =
      (if y' = y then blank else vcell (vram s) y' x')"
    by (simp_all add: P_def)
qed

lemma clear_rows_spec:
  "cx (for_loop 0 25 clear_row s) = cx s" "cy (for_loop 0 25 clear_row s) = cy s"
  "inited (for_loop 0 25 clear_row s) = inited s"
  "y' < 25 \<Longrightarrow> x' < 80 \<Longrightarrow> vcell (vram (for_loop 0 25 clear_row s)) y' x' = blank"
proof -
  define P where "P k s' \<longleftrightarrow> cx s' = cx s \<and> cy s' = cy s \<and> inited s' = inited s \<and>
    (\<forall>y'<25. \<forall>x'<80. y' < k \<longrightarrow> vcell (vram s') y' x' = blank)" for k and s' :: console
  have "P (unat (25 :: u32)) (for_loop 0 25 clear_row s)"
  proof (rule for_loop_inv)
    fix k s' assume "k < unat (25 :: u32)" "P k s'"
    then show "P (Suc k) (clear_row (of_nat k) s')"
      by (auto simp: P_def clear_row_spec less_Suc_eq)
  qed (simp_all add: P_def)
  then show "cx (for_loop 0 25 clear_row s) = cx s" "cy (for_loop 0 25 clear_row s) = cy s"
    "inited (for_loop 0 25 clear_row s) = inited s"
    "y' < 25 \<Longrightarrow> x' < 80 \<Longrightarrow> vcell (vram (for_loop 0 25 clear_row s)) y' x' = blank"
    by (simp_all add: P_def)
qed

text \<open>Scrolling: every row but the last is what the row below was.\<close>

lemma scroll_spec:
  assumes "y < 24" "x < 80"
  shows "vcell (snd (memmove (fb_at 0 0 0) (fb_at 1 0 0) (160 * (ROW_CNT - 1)) m)) y x = vcell m (y + 1) x"
proof -
  have a: "unat (fb_at 0 0 0) = 3221979136" "unat (fb_at 1 0 0) = 3221979296"
    using fb_at_unat [of 0 0 0] fb_at_unat [of 1 0 0] by simp_all
  then have nn: "fb_at 0 0 0 \<noteq> NULL" "fb_at 1 0 0 \<noteq> NULL" by auto
  have step: "copy_bytes 3840 (fb_at 0 0 0) (fb_at 1 0 0) m (fb_at (of_nat y) (of_nat x) i) =
      m (fb_at (of_nat (y + 1)) (of_nat x) i)" if i: "i < 2" for i
  proof -
    have "unat i < 2" using i by (simp add: word_less_nat_alt)
    then have "unat (fb_at 0 0 0) \<le> unat (fb_at (of_nat y) (of_nat x) i)"
      "unat (fb_at (of_nat y) (of_nat x) i) < unat (fb_at 0 0 0) + 3840"
      using assms i by (simp_all add: a fb_at_unat)
    then have "copy_bytes 3840 (fb_at 0 0 0) (fb_at 1 0 0) m (fb_at (of_nat y) (of_nat x) i) =
        m (fb_at 1 0 0 + (fb_at (of_nat y) (of_nat x) i - fb_at 0 0 0))"
      by (subst copy_bytes_spec) (simp_all add: a)
    moreover have "fb_at 1 0 0 + (fb_at (of_nat y) (of_nat x) i - fb_at 0 0 0) = fb_at (of_nat (y + 1)) (of_nat x) i"
      by (simp add: fb_at_def algebra_simps)
    ultimately show ?thesis by simp
  qed
  have "snd (memmove (fb_at 0 0 0) (fb_at 1 0 0) (160 * (ROW_CNT - 1)) m) =
      copy_bytes 3840 (fb_at 0 0 0) (fb_at 1 0 0) m"
    using nn by (simp add: memmove_def memcpy_copy)
  then show ?thesis using step by (simp add: vcell_def)
qed


section \<open>Refinement\<close>

lemma move_cursor_simps [simp]:
  "cx (move_cursor s) = cx s" "cy (move_cursor s) = cy s" "inited (move_cursor s) = inited s"
  "vram (move_cursor s) = vram s" "abs_screen (move_cursor s) = abs_screen s"
  "cursor_ok (move_cursor s) = cursor_ok s"
  by (simp_all add: move_cursor_def Let_def abs_screen_def cursor_ok_def cong: if_cong)

lemma abs_screen_eqI:
  assumes "\<And>y x. y < 25 \<Longrightarrow> x < 80 \<Longrightarrow> vcell (vram s) y x = cell t y x"
    and "\<And>y x. \<not> (y < 25 \<and> x < 80) \<Longrightarrow> cell t y x = (0, 0)"
    and "col t = unat (cx s)" "row t = unat (cy s)"
  shows "abs_screen s = t"
  using assms by (intro screen.equality) (auto simp: abs_screen_def fun_eq_iff)

lemma abs_screen_simps:
  "col (abs_screen s) = unat (cx s)" "row (abs_screen s) = unat (cy s)"
  "cell (abs_screen s) y x = (if y < 25 \<and> x < 80 then vcell (vram s) y x else (0, 0))"
  by (simp_all add: abs_screen_def)

lemma scr_newline_col: "scr_newline (t\<lparr>col := c\<rparr>) = scr_newline t"
  by (simp add: scr_newline_def cong: if_cong)

lemma newline_spec:
  assumes "cy s < 25" "inited s"
  shows "abs_screen (newline s) = scr_newline (abs_screen s)" "cursor_ok (newline s)"
proof -
  have y: "unat (cy s) < 25" using assms(1) by (simp add: word_less_nat_alt)
  have u: "unat (cy s + 1) = unat (cy s) + 1" using y by (simp add: unat_plus_no_wrap)
  have "abs_screen (newline s) = scr_newline (abs_screen s) \<and> cursor_ok (newline s)"
  proof (cases "unat (cy s) < 24")
    case True
    then have lt: "\<not> 25 \<le> cy s + 1" by (simp add: word_le_nat_alt u)
    have "abs_screen (newline s) = scr_newline (abs_screen s)"
      by (rule abs_screen_eqI) (use True lt u in \<open>auto simp: newline_def scr_newline_def abs_screen_simps\<close>)
    then show ?thesis using lt assms(2) by (simp add: newline_def cursor_ok_def)
  next
    case False
    then have ge: "25 \<le> cy s + 1" using y by (simp add: word_le_nat_alt u)
    define m where "m = snd (memmove (fb_at 0 0 0) (fb_at 1 0 0) (160 * (ROW_CNT - 1)) (vram s))"
    define s1 where "s1 = s\<lparr>cx := 0, cy := 24, vram := m\<rparr>"
    note row24 = clear_row_spec [of 24, simplified]
    have eq: "newline s = clear_row 24 s1"
      using ge by (simp add: newline_def Let_def s1_def m_def)
    have cells: "vcell (vram (newline s)) y x = (if y = 24 then blank else vcell (vram s) (y + 1) x)"
      if "y < 25" "x < 80" for y x
      unfolding eq using that scroll_spec [of y x "vram s"] by (simp add: row24 s1_def m_def)
    have "abs_screen (newline s) = scr_newline (abs_screen s)"
    proof (rule abs_screen_eqI)
      show "vcell (vram (newline s)) y x = cell (scr_newline (abs_screen s)) y x"
        if "y < 25" "x < 80" for y x
        using that False by (auto simp: cells scr_newline_def abs_screen_simps)
    qed (use False in \<open>auto simp: eq row24 s1_def scr_newline_def abs_screen_simps\<close>)
    moreover have "cursor_ok (newline s)"
      using assms(2) by (simp add: eq cursor_ok_def row24 s1_def)
    ultimately show ?thesis by blast
  qed
  then show "abs_screen (newline s) = scr_newline (abs_screen s)" "cursor_ok (newline s)" by blast+
qed

lemma cls_spec:
  assumes "inited s"
  shows "abs_screen (cls s) = (abs_screen s)\<lparr>col := 0, row := 0,
      cell := (\<lambda>y x. if y < 25 \<and> x < 80 then blank else cell (abs_screen s) y x)\<rparr>" "cursor_ok (cls s)"
proof -
  show "abs_screen (cls s) = (abs_screen s)\<lparr>col := 0, row := 0,
      cell := (\<lambda>y x. if y < 25 \<and> x < 80 then blank else cell (abs_screen s) y x)\<rparr>"
    by (rule abs_screen_eqI) (auto simp: cls_def Let_def clear_rows_spec abs_screen_simps)
  show "cursor_ok (cls s)" using assms by (simp add: cls_def Let_def cursor_ok_def clear_rows_spec)
qed

lemma tab_stop:
  assumes "(c :: u32) < 80"
  shows "unat (ROUND_UP (c + 1) 8) = (unat c div 8 + 1) * 8"
proof -
  have c: "unat c < 80" using assms by (simp add: word_less_nat_alt)
  have "c + 1 + 8 - 1 = c + 8" by simp
  moreover have "unat (c + 8) = unat c + 8" using c by (simp add: unat_plus_no_wrap)
  ultimately have "unat ((c + 1 + 8 - 1) div 8) = (unat c + 8) div 8" by (simp only: unat_div) simp
  moreover have "(unat c + 8) div 8 * 8 < 100" using c by linarith
  moreover have "(unat c + 8) div 8 = unat c div 8 + 1" by simp
  ultimately show ?thesis by (simp add: ROUND_UP_def unat_word_ariths)
qed

text \<open>The body of \<open>fb_putc\<close> on an initialised console, before the cursor registers are set.\<close>

lemma putc_char_spec:
  fixes ch :: u8
  assumes ok: "cursor_ok s"
  defines "w \<equiv> s\<lparr>vram := (vram s)(fb_at (cy s) (cx s) 0 := ch, fb_at (cy s) (cx s) 1 := 7), cx := cx s + 1\<rparr>"
  shows "abs_screen (if COL_CNT \<le> cx w then newline w else w) =
      (let t = (abs_screen s)\<lparr>cell := (cell (abs_screen s))(unat (cy s) := (cell (abs_screen s) (unat (cy s)))(unat (cx s) := (ch, 7)))\<rparr>
       in if col t < 79 then t\<lparr>col := col t + 1\<rparr> else scr_newline t)"
    and "cursor_ok (if COL_CNT \<le> cx w then newline w else w)"
proof -
  have x: "unat (cx s) < 80" and y: "unat (cy s) < 25"
    using ok by (simp_all add: cursor_ok_def word_less_nat_alt)
  have u: "unat (cx s + 1) = unat (cx s) + 1" using x by (simp add: unat_plus_no_wrap)
  have full: "COL_CNT \<le> cx w \<longleftrightarrow> \<not> unat (cx s) < 79"
    using x by (auto simp: w_def word_le_nat_alt u)
  let ?t = "(abs_screen s)\<lparr>cell := (cell (abs_screen s))(unat (cy s) := (cell (abs_screen s) (unat (cy s)))(unat (cx s) := (ch, 7)))\<rparr>"
  have cells: "vcell (vram w) y' x' = cell ?t y' x'" if "y' < 25" "x' < 80" for y' x'
    using vcell_write [of "unat (cy s)" "unat (cx s)" y' x' "vram s" ch 7] that x y
    by (auto simp: w_def abs_screen_simps)
  have absw: "abs_screen w = ?t\<lparr>col := unat (cx s) + 1\<rparr>"
  proof (rule abs_screen_eqI)
    show "vcell (vram w) y' x' = cell (?t\<lparr>col := unat (cx s) + 1\<rparr>) y' x'" if "y' < 25" "x' < 80" for y' x'
      using cells [OF that] by simp
    show "cell (?t\<lparr>col := unat (cx s) + 1\<rparr>) y' x' = (0, 0)" if "\<not> (y' < 25 \<and> x' < 80)" for y' x'
      using that x y by (auto simp: abs_screen_simps)
  qed (simp_all add: w_def u abs_screen_simps)
  have cyw: "cy w < 25" "inited w" using ok by (simp_all add: w_def cursor_ok_def)
  have nl: "scr_newline (?t\<lparr>col := c\<rparr>) = scr_newline ?t" for c
    by (rule scr_newline_col)
  show "abs_screen (if COL_CNT \<le> cx w then newline w else w) =
      (let t = ?t in if col t < 79 then t\<lparr>col := col t + 1\<rparr> else scr_newline t)"
    unfolding full Let_def using newline_spec(1) [OF cyw] absw nl by (auto simp: abs_screen_simps)
  show "cursor_ok (if COL_CNT \<le> cx w then newline w else w)"
    unfolding full using newline_spec(2) [OF cyw] cyw u
    by (auto simp: cursor_ok_def word_less_nat_alt w_def)
qed

lemma fb_backspace:
  assumes ok: "cursor_ok s"
  shows "abs_screen (fb_putc dev 8 s) = scr_putc 8 (abs_screen s)" "cursor_ok (fb_putc dev 8 s)"
proof -
  have i: "init_cursor dev s = s" using ok by (simp add: init_cursor_def cursor_ok_def)
  have x: "unat (cx s) < 80" using ok by (simp add: cursor_ok_def word_less_nat_alt)
  have "unat (cx s - 1) = unat (cx s) - 1" if "0 < cx s"
    using that by (subst unat_sub) (simp_all add: word_le_nat_alt word_less_nat_alt)
  moreover from this have "0 < cx s \<Longrightarrow> cx s - 1 < 80" using x by (simp add: word_less_nat_alt)
  moreover have "\<not> 0 < cx s \<Longrightarrow> cx s = 0" using word_gt_0 [of "cx s"] by auto
  ultimately have "abs_screen (if 0 < cx s then s\<lparr>cx := cx s - 1\<rparr> else s) = (abs_screen s)\<lparr>col := col (abs_screen s) - 1\<rparr>"
    "cursor_ok (if 0 < cx s then s\<lparr>cx := cx s - 1\<rparr> else s)"
    using ok by (auto simp: abs_screen_def cursor_ok_def cong: if_cong)
  then show "abs_screen (fb_putc dev 8 s) = scr_putc 8 (abs_screen s)" "cursor_ok (fb_putc dev 8 s)"
    using i by (simp_all add: fb_putc_def scr_putc_def Let_def)
qed

lemma fb_tab:
  assumes ok: "cursor_ok s"
  shows "abs_screen (fb_putc dev 9 s) = scr_putc 9 (abs_screen s) \<and> cursor_ok (fb_putc dev 9 s)"
proof -
  let ?c = "ROUND_UP (cx s + 1) 8"
  have i: "init_cursor dev s = s" "inited s" "cx s < 80" "cy s < 25"
    using ok by (simp_all add: init_cursor_def cursor_ok_def)
  note ts = tab_stop [OF i(3)]
  have full: "COL_CNT \<le> ?c \<longleftrightarrow> \<not> (unat (cx s) div 8 + 1) * 8 < 80"
    by (auto simp: word_le_nat_alt ts)
  have a: "abs_screen (s\<lparr>cx := ?c\<rparr>) = (abs_screen s)\<lparr>col := (unat (cx s) div 8 + 1) * 8\<rparr>"
    by (simp add: abs_screen_def ts cong: if_cong)
  have nl: "scr_newline ((abs_screen s)\<lparr>col := c\<rparr>) = scr_newline (abs_screen s)" for c
    by (rule scr_newline_col)
  have "cy (s\<lparr>cx := ?c\<rparr>) < 25" "inited (s\<lparr>cx := ?c\<rparr>)" using i by simp_all
  note n = newline_spec [OF this]
  show ?thesis
  proof (cases "(unat (cx s) div 8 + 1) * 8 < 80")
    case True
    then have "cursor_ok (s\<lparr>cx := ?c\<rparr>)" using i by (simp add: cursor_ok_def word_less_nat_alt ts)
    then show ?thesis using True a i(1) full by (simp add: fb_putc_def scr_putc_def Let_def abs_screen_simps)
  next
    case False
    then show ?thesis using n a nl i(1) full by (simp add: fb_putc_def scr_putc_def Let_def abs_screen_simps)
  qed
qed

lemma fb_putc_refines:
  assumes ok: "cursor_ok s"
  shows "abs_screen (fb_putc dev ch s) = scr_putc ch (abs_screen s)" "cursor_ok (fb_putc dev ch s)"
proof -
  have i: "init_cursor dev s = s" "inited s" "cy s < 25"
    using ok by (simp_all add: init_cursor_def cursor_ok_def)
  consider "ch = 13" | "ch = 10" | "ch = 12" | "ch = 8" | "ch = 9"
    | "ch \<noteq> 13" "ch \<noteq> 10" "ch \<noteq> 12" "ch \<noteq> 8" "ch \<noteq> 9" by blast
  then have "abs_screen (fb_putc dev ch s) = scr_putc ch (abs_screen s) \<and> cursor_ok (fb_putc dev ch s)"
  proof cases
    case 1
    have "abs_screen (s\<lparr>cx := 0\<rparr>) = (abs_screen s)\<lparr>col := 0\<rparr>" by (simp add: abs_screen_def cong: if_cong)
    then show ?thesis using 1 i by (simp add: fb_putc_def scr_putc_def Let_def cursor_ok_def)
  next
    case 2
    then show ?thesis using newline_spec [OF i(3,2)] i(1) by (simp add: fb_putc_def scr_putc_def Let_def)
  next
    case 3
    then show ?thesis using cls_spec [OF i(2)] i(1) by (simp add: fb_putc_def scr_putc_def Let_def)
  next
    case 6
    let ?w = "s\<lparr>vram := (vram s)(fb_at (cy s) (cx s) 0 := ch, fb_at (cy s) (cx s) 1 := 7), cx := cx s + 1\<rparr>"
    have "fb_putc dev ch s = move_cursor (if COL_CNT \<le> cx ?w then newline ?w else ?w)"
      using 6 i(1) by (simp add: fb_putc_def Let_def)
    moreover have "scr_putc ch (abs_screen s) =
      (let t = (abs_screen s)\<lparr>cell := (cell (abs_screen s))(unat (cy s) := (cell (abs_screen s) (unat (cy s)))(unat (cx s) := (ch, 7)))\<rparr>
       in if col t < 79 then t\<lparr>col := col t + 1\<rparr> else scr_newline t)"
      using 6 by (simp add: scr_putc_def abs_screen_simps Let_def)
    ultimately show ?thesis using putc_char_spec [OF ok, of ch] by simp
  qed (use fb_backspace [OF ok] fb_tab [OF ok] in simp_all)
  then show "abs_screen (fb_putc dev ch s) = scr_putc ch (abs_screen s)" "cursor_ok (fb_putc dev ch s)"
    by blast+
qed


lemma putc_string:
  "cursor_ok s \<Longrightarrow> cursor_ok (fold (fb_putc dev) str s) \<and>
   abs_screen (fold (fb_putc dev) str s) = fold scr_putc str (abs_screen s)"
  by (induction str arbitrary: s) (simp_all add: fb_putc_refines)

text \<open>
  The cursor position the display controller has after two word writes to its index port:
  the low byte selects a register, the high byte is its value.
\<close>

definition crtc_cursor :: "u16 \<Rightarrow> u16 \<Rightarrow> u16 option" where
  "crtc_cursor w1 w2 =
     (if w1 AND 0xff = 0x0e \<and> w2 AND 0xff = 0x0f then Some ((w1 AND 0xff00) OR drop_bit 8 w2) else None)"

lemma crtc_words:
  "crtc_cursor (0x0e OR (cp AND 0xff00)) (0x0f OR push_bit 8 cp) = Some cp"
proof -
  have mask: "0xff00 = push_bit 8 (mask 8 :: u16)" "0xff = (mask 8 :: u16)"
    by (simp_all add: mask_eq_exp_minus_1 push_bit_eq_mult)
  have small: "(0x0e :: u16) = take_bit 8 0x0e" "(0x0f :: u16) = take_bit 8 0x0f" by simp_all
  have lo: "\<not> bit (0x0e :: u16) (n + 8)" "\<not> bit (0x0f :: u16) (n + 8)" for n
    using small by (metis bit_take_bit_iff not_add_less2)+
  have "(0x0e OR (cp AND 0xff00)) AND 0xff = (0x0e :: u16)"
  proof (rule bit_word_eqI)
    fix n show "bit ((0x0e OR (cp AND 0xff00)) AND 0xff) n = bit (0x0e :: u16) n"
      unfolding mask using lo(1) [of "n - 8"] by (cases "n < 8") (auto simp: bit_simps)
  qed
  moreover have "(0x0f OR push_bit 8 cp) AND 0xff = (0x0f :: u16)"
  proof (rule bit_word_eqI)
    fix n show "bit ((0x0f OR push_bit 8 cp) AND 0xff) n = bit (0x0f :: u16) n"
      unfolding mask using lo(2) [of "n - 8"] by (cases "n < 8") (auto simp: bit_simps)
  qed
  moreover have "((0x0e OR (cp AND 0xff00)) AND 0xff00) OR drop_bit 8 (0x0f OR push_bit 8 cp) = cp"
  proof (rule bit_word_eqI)
    fix n assume "n < LENGTH(16)"
    then show "bit (((0x0e OR (cp AND 0xff00)) AND 0xff00) OR drop_bit 8 (0x0f OR push_bit 8 cp)) n = bit cp n"
      unfolding mask using lo(1) [of "n - 8"] lo(2) [of n]
      by (cases "n < 8") (auto simp: bit_simps add.commute)
  qed
  ultimately show ?thesis by (simp add: crtc_cursor_def)
qed

section \<open>Properties\<close>

definition test_console :: console where
  "test_console = \<lparr>cx = 79, cy = 24, inited = True, vram = (\<lambda>_. 65), chist = []\<rparr>"

text \<open>
  C30: The console implements a terminal of 25 rows of 80 columns: from any state with the
  cursor inside the grid, printing a string changes the visible cells and the cursor exactly
  as the abstract terminal does (carriage return, newline with scrolling, form feed,
  backspace, tab stops, line wrap), and the cursor stays inside the grid.
\<close>

theorem console_implements_terminal:
  assumes "cursor_ok s"
  shows "abs_screen (fold (fb_putc dev) str s) = fold scr_putc str (abs_screen s) \<and>
    cursor_ok (fold (fb_putc dev) str s)"
  using putc_string [OF assms] by blast

theorem console_implements_terminal_witness:
  "abs_screen (fold (fb_putc (\<lambda>_ _. 0)) [66, 9] test_console) = fold scr_putc [66, 9] (abs_screen test_console)"
  using console_implements_terminal [of test_console "\<lambda>_ _. 0" "[66, 9]"]
  by (simp add: cursor_ok_def test_console_def)

text \<open>
  The hardware cursor follows the software cursor: the last two writes of \<open>fb_putc\<close> set
  the display controller's two cursor registers to \<open>cx + 80 * cy\<close>.
\<close>

theorem fb_putc_sets_cursor:
  "\<exists>h w1 w2. chist (fb_putc dev ch s) = h @ [OutW 0x3d4 w1, OutW 0x3d4 w2] \<and>
    crtc_cursor w1 w2 = Some (ucast (cx (fb_putc dev ch s) + 80 * cy (fb_putc dev ch s)))"
proof -
  obtain s1 where "fb_putc dev ch s = move_cursor s1" by (simp add: fb_putc_def Let_def)
  then show ?thesis
    by (auto simp: move_cursor_def Let_def outw_def crtc_words)
qed

text \<open>
  The first character may be written outside the frame buffer: the cursor found in the
  display controller is moved down three rows without a check, so from row 22 on the first
  printed character goes to an address past the 4000 bytes of the grid.
\<close>

theorem first_putc_out_of_grid:
  assumes "\<not> inited s" "find_cursor dev s = (x, of_nat y, s1)" "22 \<le> y" "y < 27" "32 \<le> ch"
  shows "vram (fb_putc dev ch s) (fb_at (of_nat y + 3) 0 0) = ch \<and>
    unat (fb_at 0 0 0) + 4000 \<le> unat (fb_at (of_nat y + 3) 0 0)"
proof -
  have v: "vram s1 = vram s" "inited s1 = inited s"
    using assms(2) by (auto simp: find_cursor_def Let_def inb_def outb_def)
  let ?m = "(vram s)(fb_at (of_nat y + 3) 0 0 := ch, fb_at (of_nat y + 3) 0 1 := 7)"
  have ch: "ch \<noteq> 13" "ch \<noteq> 10" "ch \<noteq> 12" "ch \<noteq> 8" "ch \<noteq> 9" using assms(5) by auto
  have "\<not> (80 :: u32) \<le> 1" by (simp add: word_le_nat_alt)
  then have "vram (fb_putc dev ch s) = ?m"
    using assms(1) ch
    by (simp add: fb_putc_def init_cursor_def assms(2) Let_def v move_cursor_def)
  moreover have eq: "of_nat y + 3 = (of_nat (y + 3) :: u32)" by simp
  then have "fb_at (of_nat y + 3) 0 0 \<noteq> fb_at (of_nat y + 3) 0 1"
    by (simp add: fb_at_def)
  moreover have "unat (fb_at (of_nat y + 3) 0 0) = 3221979136 + (y + 3) * 80 * 2"
    unfolding eq using fb_at_unat [of "y + 3" 0 0] assms(4) by simp
  moreover have "unat (fb_at 0 0 0) = 3221979136" using fb_at_unat [of 0 0 0] by simp
  ultimately show ?thesis using assms(3) by simp
qed

theorem first_putc_out_of_grid_witness:
  "vram (fb_putc (\<lambda>h p. if h = [OutB 0x3d4 0x0e] then 7 else 32) 65 (test_console\<lparr>inited := False\<rparr>))
    (fb_at 25 0 0) = 65"
proof -
  let ?s = "test_console\<lparr>inited := False\<rparr>" and ?d = "\<lambda>h (p::u16). if h = [OutB 0x3d4 0x0e] then 7 else (32 :: u32)"
  have "find_cursor ?d ?s = (fst (find_cursor ?d ?s), of_nat 22, snd (snd (find_cursor ?d ?s)))"
    by (simp add: find_cursor_def Let_def inb_def outb_def test_console_def)
  from first_putc_out_of_grid [OF _ this, of 65] show ?thesis
    by (simp add: test_console_def)
qed

end
