(* ===== verification/Format.thy ===== *)
theory Format
  imports Console
begin

text \<open>
  Formatted output: \<open>lib/vsprintf.c\<close>, \<open>lib/ctype.h\<close> and \<open>printk\<close> of \<open>kernel/utils.c\<close>.

  The format is read through a pointer into memory, byte by byte, as the code does, so a
  format that ends inside a conversion is read past its end; the scans are partial
  functions. Variadic arguments are 32-bit words, taken in order; taking one that is not
  there is a \<open>Fault\<close>. The output is the list of bytes written to the buffer before the
  terminating zero; its length is what \<open>vsprintf\<close> returns.
\<close>

section \<open>Character classes\<close>

definition islower :: "i32 \<Rightarrow> bool" where "islower c \<longleftrightarrow> 97 \<le> sint c \<and> sint c \<le> 122"
definition isupper :: "i32 \<Rightarrow> bool" where "isupper c \<longleftrightarrow> 65 \<le> sint c \<and> sint c \<le> 90"
definition isalpha :: "i32 \<Rightarrow> bool" where "isalpha c \<longleftrightarrow> islower c \<or> isupper c"
definition isdigit :: "i32 \<Rightarrow> bool" where "isdigit c \<longleftrightarrow> 48 \<le> sint c \<and> sint c \<le> 57"
definition isalnum :: "i32 \<Rightarrow> bool" where "isalnum c \<longleftrightarrow> isalpha c \<or> isdigit c"
definition isxdigit :: "i32 \<Rightarrow> bool" where
  "isxdigit c \<longleftrightarrow> isdigit c \<or> (97 \<le> sint c \<and> sint c \<le> 102) \<or> (65 \<le> sint c \<and> sint c \<le> 70)"
definition isspace :: "i32 \<Rightarrow> bool" where
  "isspace c \<longleftrightarrow> c = 32 \<or> c = 12 \<or> c = 10 \<or> c = 13 \<or> c = 9 \<or> c = 11"
definition isblank :: "i32 \<Rightarrow> bool" where "isblank c \<longleftrightarrow> c = 32 \<or> c = 9"
definition isgraph :: "i32 \<Rightarrow> bool" where "isgraph c \<longleftrightarrow> 32 < sint c \<and> sint c < 127"
definition isprint :: "i32 \<Rightarrow> bool" where "isprint c \<longleftrightarrow> 32 \<le> sint c \<and> sint c < 127"
definition iscntrl :: "i32 \<Rightarrow> bool" where "iscntrl c \<longleftrightarrow> (0 \<le> sint c \<and> sint c < 32) \<or> c = 127"
definition isascii :: "i32 \<Rightarrow> bool" where "isascii c \<longleftrightarrow> 0 \<le> sint c \<and> sint c < 128"
definition ispunct :: "i32 \<Rightarrow> bool" where
  "ispunct c \<longleftrightarrow> isprint c \<and> \<not> isalnum c \<and> \<not> isspace c"
definition tolower :: "i32 \<Rightarrow> i32" where "tolower c = (if isupper c then c - 65 + 97 else c)"
definition toupper :: "i32 \<Rightarrow> i32" where "toupper c = (if islower c then c - 97 + 65 else c)"

section \<open>Numbers\<close>

definition is_digit_char :: "u8 \<Rightarrow> bool" where
  "is_digit_char c \<longleftrightarrow> 48 \<le> sint c \<and> sint c \<le> 57"

partial_function (option) atoi_loop :: "memory \<Rightarrow> u32 \<Rightarrow> i32 \<Rightarrow> (i32 \<times> u32) option" where
  "atoi_loop m s res =
     (if is_digit_char (m s) then atoi_loop m (s + 1) (res * 10 + scast (m s) - 48)
      else Some (res, s))"

definition atoi_mod :: "memory \<Rightarrow> u32 \<Rightarrow> (i32 \<times> u32) option" where
  "atoi_mod m s = atoi_loop m s 0"

abbreviation (input) ZEROPAD :: i32 where "ZEROPAD \<equiv> 1"
abbreviation (input) LOWERCASE :: i32 where "LOWERCASE \<equiv> 2"

text \<open>\<open>"0123456789ABCDEF"\<close> and its lower-case variant.\<close>

definition digit_chars :: "bool \<Rightarrow> u32 \<Rightarrow> u8" where
  "digit_chars lower d =
     (if d < 10 then 48 + ucast d else if lower then 97 + ucast (d - 10) else 65 + ucast (d - 10))"

text \<open>The digits in the order the loop stores them in \<open>temp_buf\<close>, the lowest first.\<close>

function itoa_loop :: "u32 \<Rightarrow> u32 \<Rightarrow> bool \<Rightarrow> u8 list" where
  "itoa_loop num base lower =
     (if num \<noteq> 0 \<and> 2 \<le> base then digit_chars lower (num mod base) # itoa_loop (num div base) base lower
      else [])"
  by pat_completeness auto
termination
proof (relation "measure (\<lambda>(num, base, lower). unat num)")
  fix num base :: u32 and lower :: bool
  assume a: "num \<noteq> 0 \<and> 2 \<le> base"
  then have "0 < unat num" "1 < unat base"
    by (auto simp: unat_gt_0 word_le_nat_alt)
  then show "((num div base, base, lower), num, base, lower) \<in> measure (\<lambda>(num, base, lower). unat num)"
    by (simp add: unat_div)
qed simp

declare itoa_loop.simps [simp del]

definition itoa_base :: "u32 \<Rightarrow> i32 \<Rightarrow> i32 \<Rightarrow> i32 \<Rightarrow> u8 list option" where
  "itoa_base num base width flags =
     (if sint base < 2 \<or> 16 < sint base then None
      else
        (let temp_buf = (if num = 0 then [48] else itoa_loop num base (flags AND LOWERCASE \<noteq> 0));
             zeros = (if flags AND ZEROPAD \<noteq> 0 then nat (sint (width - of_nat (length temp_buf))) else 0)
         in Some (replicate zeros 48 @ rev temp_buf)))"

section \<open>Conversions\<close>

text \<open>The second \<open>switch\<close>: the bytes a conversion writes, the arguments left, the flags after it.\<close>

definition conv_number :: "u32 \<Rightarrow> i32 \<Rightarrow> i32 \<Rightarrow> i32 \<Rightarrow> u8 list \<Rightarrow> u32 list \<Rightarrow> (u8 list \<times> u32 list \<times> i32) result" where
  "conv_number num base width flags sign rest =
     (case itoa_base num base width flags of None \<Rightarrow> Inl Fault | Some ds \<Rightarrow> Inr (sign @ ds, rest, flags))"

definition convert :: "memory \<Rightarrow> u8 \<Rightarrow> i32 \<Rightarrow> i32 \<Rightarrow> u32 list \<Rightarrow> (u8 list \<times> u32 list \<times> i32) result option" where
  "convert m c width flags args =
     (if c \<in> {99, 115, 100, 105, 117, 111, 120, 88, 112} then
        (case args of
           [] \<Rightarrow> Some (Inl Fault)
         | a # rest \<Rightarrow>
             if c = 99 then Some (Inr ([ucast a], rest, flags))
             else if c = 115 then
               map_option (\<lambda>len. Inr (map (\<lambda>i. m (a + of_nat i)) [0..<nat (sint len)], rest, flags)) (strlen a m)
             else if c = 100 \<or> c = 105 \<or> c = 117 then
               Some (if c \<noteq> 117 \<and> sint a < 0 then conv_number (- a) 10 width flags [45] rest
                     else conv_number a 10 width flags [] rest)
             else if c = 111 then Some (conv_number a 8 width flags [] rest)
             else if c = 120 then Some (conv_number a 16 width (flags OR LOWERCASE) [] rest)
             else if c = 88 then Some (conv_number a 16 width flags [] rest)
             else Some (conv_number a 16 8 flags [] rest))
      else Some (Inr ([], args, flags)))"

text \<open>\<open>flag_settings\<close>: the \<open>0\<close> characters after the percent sign.\<close>

partial_function (option) flag_settings :: "memory \<Rightarrow> u32 \<Rightarrow> i32 \<Rightarrow> (u32 \<times> i32) option" where
  "flag_settings m fmt flags =
     (let fmt = fmt + 1
      in if m fmt = 48 then flag_settings m fmt (flags OR ZEROPAD) else Some (fmt, flags))"

partial_function (option) vsprintf_loop :: "memory \<Rightarrow> u32 \<Rightarrow> u32 list \<Rightarrow> i32 \<Rightarrow> u8 list \<Rightarrow> u8 list result option" where
  "vsprintf_loop m fmt args flags str =
     (if m fmt = 0 then Some (Inr str)
      else if m fmt \<noteq> 37 then vsprintf_loop m (fmt + 1) args flags (str @ [m fmt])
      else
        Option.bind (flag_settings m fmt flags) (\<lambda>(fmt, flags).
        Option.bind (atoi_mod m fmt) (\<lambda>(width, fmt).
        let fmt = (if m fmt = 108 \<or> m fmt = 76 \<or> m fmt = 104 then fmt + 1 else fmt)
        in Option.bind (convert m (m fmt) width flags args) (\<lambda>r.
           case r of
             Inl e \<Rightarrow> Some (Inl e)
           | Inr (out, args, flags) \<Rightarrow> vsprintf_loop m (fmt + 1) args flags (str @ out)))))"

definition vsprintf :: "memory \<Rightarrow> u32 \<Rightarrow> u32 list \<Rightarrow> u8 list result option" where
  "vsprintf m fmt args = vsprintf_loop m fmt args 0 []"

definition sprintf :: "memory \<Rightarrow> u32 \<Rightarrow> u32 \<Rightarrow> u32 list \<Rightarrow> (nat \<times> memory) result option" where
  "sprintf m buf fmt args =
     map_option (\<lambda>r. case r of Inl e \<Rightarrow> Inl e
       | Inr out \<Rightarrow> Inr (length out, \<lambda>a. if unat (a - buf) < length out then out ! unat (a - buf)
                                         else if unat (a - buf) = length out then 0 else m a))
       (vsprintf m fmt args)"

text \<open>\<open>printk\<close> formats into its buffer and prints the bytes one by one.\<close>

definition printk :: "device \<Rightarrow> memory \<Rightarrow> u32 \<Rightarrow> u32 list \<Rightarrow> console \<Rightarrow> (nat \<times> console) result option" where
  "printk dev m fmt args con =
     map_option (\<lambda>r. case r of Inl e \<Rightarrow> Inl e
       | Inr out \<Rightarrow> Inr (length out, fold (fb_putc dev) out con)) (vsprintf m fmt args)"


section \<open>The value of a printed number\<close>

definition digit_value :: "u8 \<Rightarrow> nat" where
  "digit_value c = (if unat c < 58 then unat c - 48 else if unat c < 71 then unat c - 55 else unat c - 87)"

definition number_of :: "nat \<Rightarrow> u8 list \<Rightarrow> nat" where
  "number_of base s = foldl (\<lambda>v c. v * base + digit_value c) 0 s"

lemma number_of_simps [simp]:
  "number_of base [] = 0" "number_of base (s @ [c]) = number_of base s * base + digit_value c"
  by (simp_all add: number_of_def)

lemma number_of_zeros: "number_of base (replicate n 48 @ s) = number_of base s"
  by (induction n) (simp_all add: number_of_def digit_value_def)

lemma digit_chars_value:
  assumes "d < 16"
  shows "digit_value (digit_chars lower d) = unat d"
    and "d < 10 \<Longrightarrow> is_digit_char (digit_chars lower d)" "digit_chars lower d \<noteq> 0"
proof -
  have d: "unat d < 16" using assms by (simp add: word_less_nat_alt)
  then obtain k where k: "d = of_nat k" "k < 16" by (intro that [of "unat d"]) simp_all
  have "k \<in> {0, 1, 2, 3, 4, 5, 6, 7, 8, 9, 10, 11, 12, 13, 14, 15}"
    using k(2) unfolding insert_iff empty_iff by presburger
  then show "digit_value (digit_chars lower d) = unat d"
    "d < 10 \<Longrightarrow> is_digit_char (digit_chars lower d)" "digit_chars lower d \<noteq> 0"
    unfolding k(1) by (auto simp: digit_value_def digit_chars_def is_digit_char_def)
qed

lemma itoa_loop_value:
  "2 \<le> base \<Longrightarrow> base \<le> 16 \<Longrightarrow> number_of (unat base) (rev (itoa_loop num base lower)) = unat num"
proof (induction num base lower rule: itoa_loop.induct)
  case (1 num base lower)
  show ?case
  proof (cases "num = 0")
    case True
    then show ?thesis by (simp add: itoa_loop.simps)
  next
    case False
    have b: "0 < unat base" "unat base \<le> 16" using 1(2,3) by (simp_all add: word_le_nat_alt)
    then have "unat (num mod base) < 16"
      using mod_less_divisor [OF b(1), of "unat num"] by (simp add: unat_mod)
    then have d: "num mod base < 16" by (simp add: word_less_nat_alt)
    have "number_of (unat base) (rev (itoa_loop (num div base) base lower)) = unat (num div base)"
      using 1 False by simp
    then show ?thesis
      using False 1(2) digit_chars_value(1) [OF d, of lower]
      by (subst itoa_loop.simps) (simp add: unat_div unat_mod)
  qed
qed

lemma itoa_base_spec:
  assumes "2 \<le> sint base" "sint base \<le> 16"
  obtains s where "itoa_base num base width flags = Some s" "number_of (unat base) s = unat num"
    "s = replicate (if flags AND ZEROPAD \<noteq> 0 then nat (sint (width - of_nat (length (if num = 0 then [48] else
           itoa_loop num base (flags AND LOWERCASE \<noteq> 0))))) else 0) 48 @
         rev (if num = 0 then [48] else itoa_loop num base (flags AND LOWERCASE \<noteq> 0))"
proof -
  have "uint base = sint base" using assms by (subst uint_sint) (simp add: take_bit_int_eq_self)
  then have b: "2 \<le> base" "base \<le> 16" using assms by (simp_all add: word_le_def)
  let ?t = "if num = 0 then [48] else itoa_loop num base (flags AND LOWERCASE \<noteq> 0)"
  have "number_of (unat base) (rev ?t) = unat num"
    using itoa_loop_value [OF b] number_of_simps(2) [of "unat base" "[]" 48]
    by (auto simp: digit_value_def number_of_def)
  then show ?thesis
    using assms number_of_zeros by (intro that) (auto simp: itoa_base_def Let_def)
qed

text \<open>Reading a run of decimal digits.\<close>

fun bytes_at :: "memory \<Rightarrow> u32 \<Rightarrow> u8 list \<Rightarrow> bool" where
  "bytes_at m p [] \<longleftrightarrow> True"
| "bytes_at m p (c # cs) \<longleftrightarrow> m p = c \<and> bytes_at m (p + 1) cs"

lemma cstr_append:
  "cstr m p (xs @ ys) \<longleftrightarrow> bytes_at m p xs \<and> 0 \<notin> set xs \<and> cstr m (p + of_nat (length xs)) ys"
  by (induction xs arbitrary: p) (auto simp: add.assoc)

lemma bytes_at_append:
  "bytes_at m p (xs @ ys) \<longleftrightarrow> bytes_at m p xs \<and> bytes_at m (p + of_nat (length xs)) ys"
  by (induction xs arbitrary: p) (auto simp: add.assoc)

lemma digit_scast: "is_digit_char c \<Longrightarrow> scast c - 48 = (of_nat (digit_value c) :: i32)"
proof -
  assume "is_digit_char c"
  then have s: "48 \<le> sint c" "sint c \<le> 57" by (simp_all add: is_digit_char_def)
  then have "uint c = sint c" by (subst uint_sint) (simp add: take_bit_int_eq_self)
  then have u: "int (unat c) = sint c" by simp
  then have "48 \<le> unat c" "unat c \<le> 57" using s by linarith+
  then have "int (digit_value c) = sint c - 48" using u by (simp add: digit_value_def of_nat_diff)
  then show ?thesis
    by (metis of_int_of_nat_eq scast_eq of_int_diff of_int_numeral)
qed

lemma atoi_loop_digits:
  assumes "bytes_at m p ds" "list_all is_digit_char ds" "\<not> is_digit_char (m (p + of_nat (length ds)))"
  shows "atoi_loop m p res = Some (foldl (\<lambda>v c. v * 10 + of_nat (digit_value c)) res ds, p + of_nat (length ds))"
  using assms
proof (induction ds arbitrary: p res)
  case Nil
  then show ?case by (simp add: atoi_loop.simps)
next
  case (Cons c ds)
  have "atoi_loop m p res = atoi_loop m (p + 1) (res * 10 + (scast c - 48))"
    using Cons.prems by (subst atoi_loop.simps) (simp add: algebra_simps)
  also have "\<dots> = Some (foldl (\<lambda>v c. v * 10 + of_nat (digit_value c)) (res * 10 + (scast c - 48)) ds,
      p + 1 + of_nat (length ds))"
    using Cons.prems by (intro Cons.IH) (simp_all add: add.assoc)
  finally show ?case using Cons.prems by (simp add: digit_scast add.assoc)
qed

lemma foldl_of_nat:
  "foldl (\<lambda>v c. v * 10 + of_nat (digit_value c)) (of_nat v :: i32) ds =
   of_nat (foldl (\<lambda>v c. v * 10 + digit_value c) v ds)"
proof (induction ds arbitrary: v)
  case (Cons c ds)
  have "(of_nat v * 10 + of_nat (digit_value c) :: i32) = of_nat (v * 10 + digit_value c)" by simp
  then show ?case using Cons.IH [of "v * 10 + digit_value c"] by (simp only: foldl_Cons)
qed simp

lemma atoi_mod_digits:
  assumes "bytes_at m p ds" "list_all is_digit_char ds" "\<not> is_digit_char (m (p + of_nat (length ds)))"
  shows "atoi_mod m p = Some (of_nat (number_of 10 ds), p + of_nat (length ds))"
  using atoi_loop_digits [OF assms, of 0] foldl_of_nat [of 0 ds]
  by (simp add: atoi_mod_def number_of_def)

lemma itoa_decimal_digits:
  "list_all is_digit_char (rev (itoa_loop num 10 lower))"
proof (induction num "10 :: u32" lower rule: itoa_loop.induct)
  case (1 num lower)
  have "unat (num mod 10) < 10" by (simp add: unat_mod)
  then have "num mod 10 < 10" "num mod 10 < 16" by (simp_all add: word_less_nat_alt)
  then have "is_digit_char (digit_chars lower (num mod 10))" by (simp add: digit_chars_value(2))
  moreover have "num \<noteq> 0 \<Longrightarrow> list_all is_digit_char (itoa_loop (num div 10) 10 lower)"
    using 1 by (simp add: list_all_rev)
  ultimately show ?case
    by (cases "num = 0"; subst itoa_loop.simps) (simp_all add: list_all_rev)
qed


section \<open>Formats as lists of items\<close>

text \<open>
  \<open>Lit c\<close> is an ordinary byte; \<open>Conv z ds l c\<close> is a conversion with or without a zero flag,
  the width digits \<open>ds\<close>, an optional length modifier \<open>l\<close> and the conversion character \<open>c\<close>.
\<close>

datatype item = Lit u8 | Conv bool "u8 list" "u8 option" u8

fun item_bytes :: "item \<Rightarrow> u8 list" where
  "item_bytes (Lit c) = [c]"
| "item_bytes (Conv z ds l c) =
     37 # (if z then [48] else []) @ ds @ (case l of None \<Rightarrow> [] | Some x \<Rightarrow> [x]) @ [c]"

definition modifier :: "u8 \<Rightarrow> bool" where
  "modifier c \<longleftrightarrow> c = 108 \<or> c = 76 \<or> c = 104"

fun item_ok :: "item \<Rightarrow> bool" where
  "item_ok (Lit c) \<longleftrightarrow> c \<noteq> 0 \<and> c \<noteq> 37"
| "item_ok (Conv z ds l c) \<longleftrightarrow> list_all is_digit_char ds \<and> (ds \<noteq> [] \<longrightarrow> hd ds \<noteq> 48) \<and>
     (case l of None \<Rightarrow> True | Some x \<Rightarrow> modifier x) \<and>
     c \<noteq> 0 \<and> c \<noteq> 48 \<and> \<not> is_digit_char c \<and> \<not> modifier c"

text \<open>What a format prints: the flags a conversion sets stay set for those after it.\<close>

fun run_items :: "memory \<Rightarrow> item list \<Rightarrow> u32 list \<Rightarrow> i32 \<Rightarrow> u8 list \<Rightarrow> u8 list result option" where
  "run_items m [] args flags str = Some (Inr str)"
| "run_items m (Lit c # is) args flags str = run_items m is args flags (str @ [c])"
| "run_items m (Conv z ds l c # is) args flags str =
     Option.bind (convert m c (of_nat (number_of 10 ds)) (if z then flags OR ZEROPAD else flags) args)
       (\<lambda>r. case r of Inl e \<Rightarrow> Some (Inl e)
          | Inr (out, args, flags) \<Rightarrow> run_items m is args flags (str @ out))"

lemma flag_settings_none: "m (p + 1) \<noteq> 48 \<Longrightarrow> flag_settings m p flags = Some (p + 1, flags)"
  by (subst flag_settings.simps) (simp add: Let_def)

lemma flag_settings_zero:
  "m (p + 1) = 48 \<Longrightarrow> m (p + 2) \<noteq> 48 \<Longrightarrow> flag_settings m p flags = Some (p + 2, flags OR ZEROPAD)"
  using flag_settings_none [of m "p + 1" "flags OR ZEROPAD"]
  by (subst flag_settings.simps) (simp add: Let_def add.assoc)

lemma not_digit: "\<not> is_digit_char 108" "\<not> is_digit_char 76" "\<not> is_digit_char 104"
  by (simp_all add: is_digit_char_def)

lemma modifier_not_digit: "modifier c \<Longrightarrow> \<not> is_digit_char c \<and> c \<noteq> 48 \<and> c \<noteq> 0"
  by (auto simp: modifier_def not_digit)

lemma digit_not_zero: "is_digit_char c \<Longrightarrow> c \<noteq> 0"
  by (auto simp: is_digit_char_def)

text \<open>The prefix of a conversion, up to the conversion character.\<close>

lemma conversion_prefix:
  assumes at: "bytes_at m p (item_bytes (Conv z ds l c))" and ok: "item_ok (Conv z ds l c)"
  shows "Option.bind (flag_settings m p flags) (\<lambda>(p, flags).
      Option.bind (atoi_mod m p) (\<lambda>(width, p).
      let p = (if m p = 108 \<or> m p = 76 \<or> m p = 104 then p + 1 else p) in k p width flags)) =
    k (p + of_nat (length (item_bytes (Conv z ds l c)) - 1)) (of_nat (number_of 10 ds))
      (if z then flags OR ZEROPAD else flags)"
    and "m (p + of_nat (length (item_bytes (Conv z ds l c)) - 1)) = c"
proof -
  define zs where "zs = (if z then [48] else [] :: u8 list)"
  define ls where "ls = (case l of None \<Rightarrow> [] | Some x \<Rightarrow> [x])"
  define q where "q = p + 1 + of_nat (length zs)"
  define r where "r = q + of_nat (length ds)"
  define e where "e = r + of_nat (length ls)"
  have "bytes_at m (p + 1) (zs @ ds @ ls @ [c])" using at by (simp add: zs_def ls_def)
  then have parts: "bytes_at m (p + 1) zs" "bytes_at m q ds" "bytes_at m r ls" "m e = c"
    by (simp_all only: bytes_at_append bytes_at.simps q_def r_def e_def simp_thms)
  have len: "p + of_nat (length (item_bytes (Conv z ds l c)) - 1) = e"
    by (simp add: e_def r_def q_def zs_def ls_def)
  have next_char: "m r \<noteq> 48 \<and> \<not> is_digit_char (m r)"
    using parts(3,4) ok modifier_not_digit by (cases l) (auto simp: ls_def e_def)
  have q48: "m q \<noteq> 48"
    using parts(2) next_char ok by (cases ds) (auto simp: r_def)
  have fl: "flag_settings m p flags = Some (q, if z then flags OR ZEROPAD else flags)"
  proof (cases z)
    case True
    then have "m (p + 1) = 48" "q = p + 2" using parts(1) by (simp_all add: zs_def q_def)
    then show ?thesis using q48 flag_settings_zero [of m p flags] True by simp
  next
    case False
    then have "q = p + 1" by (simp add: zs_def q_def)
    then show ?thesis using q48 flag_settings_none [of m p flags] False by simp
  qed
  have at': "atoi_mod m q = Some (of_nat (number_of 10 ds), r)"
    using atoi_mod_digits [OF parts(2)] ok next_char by (simp add: r_def)
  have skip: "(if m r = 108 \<or> m r = 76 \<or> m r = 104 then r + 1 else r) = e"
    using parts(3,4) ok by (cases l) (auto simp: ls_def e_def modifier_def)
  show "m (p + of_nat (length (item_bytes (Conv z ds l c)) - 1)) = c" using parts(4) by (simp only: len)
  show "Option.bind (flag_settings m p flags) (\<lambda>(p, flags).
      Option.bind (atoi_mod m p) (\<lambda>(width, p).
      let p = (if m p = 108 \<or> m p = 76 \<or> m p = 104 then p + 1 else p) in k p width flags)) =
    k (p + of_nat (length (item_bytes (Conv z ds l c)) - 1)) (of_nat (number_of 10 ds))
      (if z then flags OR ZEROPAD else flags)"
    unfolding len by (simp add: fl at' skip)
qed

lemma vsprintf_items:
  assumes "cstr m p (concat (map item_bytes items))" "list_all item_ok items"
  shows "vsprintf_loop m p args flags str = run_items m items args flags str"
  using assms
proof (induction items arbitrary: p args flags str)
  case Nil
  then show ?case by (simp add: vsprintf_loop.simps)
next
  case (Cons it items)
  show ?case
  proof (cases it)
    case (Lit c)
    then have "m p = c" "c \<noteq> 0" "c \<noteq> 37" "cstr m (p + 1) (concat (map item_bytes items))"
      using Cons.prems by auto
    then show ?thesis
      using Cons.IH Cons.prems(2) Lit by (subst vsprintf_loop.simps) simp
  next
    case (Conv z ds l c)
    have at: "bytes_at m p (item_bytes (Conv z ds l c))"
      and rest: "cstr m (p + of_nat (length (item_bytes (Conv z ds l c)))) (concat (map item_bytes items))"
      using Cons.prems(1) unfolding Conv list.map concat.simps cstr_append by blast+
    have ok: "item_ok (Conv z ds l c)" using Cons.prems(2) Conv by simp
    have pc: "m p = 37" using at by simp
    let ?e = "p + of_nat (length (item_bytes (Conv z ds l c)) - 1)"
    let ?k = "\<lambda>e width flags. Option.bind (convert m (m e) width flags args) (\<lambda>r. case r of
        Inl e \<Rightarrow> Some (Inl e)
      | Inr (out, args, flags) \<Rightarrow> vsprintf_loop m (e + 1) args flags (str @ out))"
    have after: "?e + 1 = p + of_nat (length (item_bytes (Conv z ds l c)))" by simp
    have "vsprintf_loop m p args flags str =
        ?k ?e (of_nat (number_of 10 ds)) (if z then flags OR ZEROPAD else flags)"
      unfolding conversion_prefix(1) [OF at ok, of flags ?k, symmetric]
      by (subst vsprintf_loop.simps) (simp add: pc)
    also have "\<dots> = run_items m (it # items) args flags str"
    proof -
      have IH: "vsprintf_loop m (?e + 1) args' flags' str' = run_items m items args' flags' str'" for args' flags' str'
        unfolding after using rest Cons.prems(2) by (intro Cons.IH) simp_all
      show ?thesis
        unfolding Conv run_items.simps conversion_prefix(2) [OF at ok] IH by (rule refl)
    qed
    finally show ?thesis .
  qed
qed


section \<open>What the conversions mean\<close>

text \<open>
  Independent of the code: the digits of a number are quotients and remainders of the number
  itself, the characters are read off a table, and the bases, the sign and the width of each
  conversion are those its character has in C. Differences to C: the width counts the digits
  and not the sign, without the zero flag it has no effect, and \<open>%p\<close> has width 8. An argument is a 32-bit number or a string somewhere in memory.
\<close>

fun digits_of :: "nat \<Rightarrow> nat \<Rightarrow> nat list" where
  "digits_of b n = (if b < 2 \<or> n < b then [n] else digits_of b (n div b) @ [n mod b])"

declare digits_of.simps [simp del]

definition digit_text :: "bool \<Rightarrow> nat \<Rightarrow> u8" where
  "digit_text lower d = of_char ((if lower then ''0123456789abcdef'' else ''0123456789ABCDEF'') ! d)"

definition number_text :: "nat \<Rightarrow> bool \<Rightarrow> nat \<Rightarrow> u8 list" where
  "number_text b lower n = map (digit_text lower) (digits_of b n)"

definition padded :: "bool \<Rightarrow> nat \<Rightarrow> u8 list \<Rightarrow> u8 list" where
  "padded zero width t = replicate (if zero then width - length t else 0) (of_char CHR ''0'') @ t"

datatype arg = Num u32 | Text "u8 list"

fun arg_at :: "memory \<Rightarrow> arg \<Rightarrow> u32 \<Rightarrow> bool" where
  "arg_at m (Num w) a \<longleftrightarrow> a = w"
| "arg_at m (Text s) a \<longleftrightarrow> a \<noteq> NULL \<and> cstr m a s \<and> length s < 2147483648"

fun conv_text :: "u8 \<Rightarrow> bool \<Rightarrow> bool \<Rightarrow> nat \<Rightarrow> arg \<Rightarrow> u8 list option" where
  "conv_text c zero lower width (Text s) = (if c = of_char CHR ''s'' then Some s else None)"
| "conv_text c zero lower width (Num a) =
     (if c = of_char CHR ''c'' then Some [ucast a]
      else if c = of_char CHR ''d'' \<or> c = of_char CHR ''i''
      then Some ((if sint a < 0 then [of_char CHR ''-''] else []) @ padded zero width (number_text 10 lower (nat \<bar>sint a\<bar>)))
      else if c = of_char CHR ''u'' then Some (padded zero width (number_text 10 lower (unat a)))
      else if c = of_char CHR ''o'' then Some (padded zero width (number_text 8 lower (unat a)))
      else if c = of_char CHR ''x'' then Some (padded zero width (number_text 16 True (unat a)))
      else if c = of_char CHR ''X'' then Some (padded zero width (number_text 16 lower (unat a)))
      else if c = of_char CHR ''p'' then Some (padded zero 8 (number_text 16 lower (unat a)))
      else None)"

text \<open>
  A whole format: the zero flag and the lower-case digits of \<open>%x\<close> stay in force for the
  conversions after it, and a character that is no conversion prints nothing and takes no
  argument. \<open>None\<close> is a format whose arguments are missing or of the wrong kind.
\<close>

fun items_text :: "bool \<Rightarrow> bool \<Rightarrow> item list \<Rightarrow> arg list \<Rightarrow> u8 list option" where
  "items_text zero lower [] vs = Some []"
| "items_text zero lower (Lit c # is) vs = map_option ((#) c) (items_text zero lower is vs)"
| "items_text zero lower (Conv z ds l c # is) vs =
     (if c \<notin> of_char ` set ''csdiuoxXp'' then items_text (zero \<or> z) lower is vs
      else case vs of
        [] \<Rightarrow> None
      | v # vs \<Rightarrow>
          Option.bind (conv_text c (zero \<or> z) lower (number_of 10 ds) v) (\<lambda>s.
            map_option ((@) s) (items_text (zero \<or> z) (lower \<or> c = of_char CHR ''x'') is vs)))"

fun width_ok :: "item \<Rightarrow> bool" where
  "width_ok (Lit c) \<longleftrightarrow> True"
| "width_ok (Conv z ds l c) \<longleftrightarrow> number_of 10 ds < 2147483648"

subsection \<open>The code meets it\<close>

lemma digit_chars_text:
  assumes "d < 16"
  shows "digit_chars lower d = digit_text lower (unat d)"
proof -
  have "unat d < 16" using assms by (simp add: word_less_nat_alt)
  then obtain k where k: "d = of_nat k" "k < 16" by (intro that [of "unat d"]) simp_all
  have "k \<in> {0, 1, 2, 3, 4, 5, 6, 7, 8, 9, 10, 11, 12, 13, 14, 15}"
    using k(2) unfolding insert_iff empty_iff by presburger
  then show ?thesis unfolding k(1) by (auto simp: digit_chars_def digit_text_def)
qed

lemma itoa_loop_text:
  "2 \<le> base \<Longrightarrow> base \<le> 16 \<Longrightarrow> num \<noteq> 0 \<Longrightarrow>
   rev (itoa_loop num base lower) = number_text (unat base) lower (unat num)"
proof (induction num base lower rule: itoa_loop.induct)
  case (1 num base lower)
  have b: "2 \<le> unat base" "unat base \<le> 16" using 1(2,3) by (simp_all add: word_le_nat_alt)
  have "unat num mod unat base < unat base" using b by (intro mod_less_divisor) simp
  then have "unat (num mod base) < 16" using b(2) unfolding unat_mod by linarith
  then have "num mod base < 16" by (simp add: word_less_nat_alt)
  note d = digit_chars_text [OF this, of lower]
  have step: "itoa_loop num base lower = digit_chars lower (num mod base) # itoa_loop (num div base) base lower"
    using 1(2,4) by (subst itoa_loop.simps) simp
  show ?case
  proof (cases "unat num < unat base")
    case True
    then have "num div base = 0" by (simp add: word_unat_eq_iff unat_div)
    then have "itoa_loop num base lower = [digit_text lower (unat num)]"
      using step d True by (simp add: unat_mod itoa_loop.simps [of 0])
    then show ?thesis using True by (simp add: number_text_def digits_of.simps)
  next
    case False
    then have "num div base \<noteq> 0" using b by (simp add: word_unat_eq_iff unat_div div_eq_0_iff)
    then have "rev (itoa_loop (num div base) base lower) = number_text (unat base) lower (unat (num div base))"
      using 1 by simp
    moreover have "digits_of (unat base) (unat num) = digits_of (unat base) (unat num div unat base) @ [unat num mod unat base]"
      using False b by (subst digits_of.simps) simp
    ultimately show ?thesis using d by (simp add: step number_text_def unat_div unat_mod)
  qed
qed

lemma itoa_loop_length:
  "itoa_loop num base lower \<noteq> [] \<Longrightarrow> 2 ^ (length (itoa_loop num base lower) - 1) \<le> unat num"
proof (induction num base lower rule: itoa_loop.induct)
  case (1 num base lower)
  then have c: "num \<noteq> 0 \<and> 2 \<le> base" by (subst (asm) itoa_loop.simps) (auto split: if_splits)
  then have step: "itoa_loop num base lower = digit_chars lower (num mod base) # itoa_loop (num div base) base lower"
    by (subst itoa_loop.simps) simp
  have n: "0 < unat num" "2 \<le> unat base" using c by (simp_all add: unat_gt_0 word_le_nat_alt)
  show ?case
  proof (cases "itoa_loop (num div base) base lower")
    case Nil
    then show ?thesis using n by (simp add: step)
  next
    case (Cons x xs)
    then have "2 ^ length xs \<le> unat num div unat base" using 1(1) [OF c] by (simp add: unat_div)
    then have "2 * 2 ^ length xs \<le> 2 * (unat num div unat base)" by simp
    also have "\<dots> \<le> unat base * (unat num div unat base)" using n(2) by (rule mult_le_mono1)
    also have "\<dots> \<le> unat num" by simp
    finally show ?thesis by (simp add: step Cons)
  qed
qed

lemma itoa_loop_short: "length (itoa_loop num base lower) \<le> 32"
proof (rule ccontr)
  assume "\<not> ?thesis"
  then have l: "itoa_loop num base lower \<noteq> []" "32 \<le> length (itoa_loop num base lower) - 1" by auto
  then have "(2 :: nat) ^ 32 \<le> 2 ^ (length (itoa_loop num base lower) - 1)" by (intro power_increasing) simp_all
  also have "\<dots> \<le> unat num" by (rule itoa_loop_length [OF l(1)])
  finally show False using u32_lt [of num] by simp
qed

lemma flag_bits_tests: "(f :: i32) AND 1 \<noteq> 0 \<longleftrightarrow> bit f 0" "(f :: i32) AND 2 \<noteq> 0 \<longleftrightarrow> bit f 1"
  using bit_iff_and_push_bit_not_eq_0 [of f 0] bit_iff_and_push_bit_not_eq_0 [of f 1] by simp_all

lemma itoa_base_text:
  assumes "2 \<le> sint base" "sint base \<le> 16" "width < 2147483648"
  shows "itoa_base num base (of_nat width) flags = Some (padded (bit flags 0) width (number_text (unat base) (bit flags 1) (unat num)))"
proof -
  have "uint base = sint base" using assms by (subst uint_sint) (simp add: take_bit_int_eq_self)
  then have b: "2 \<le> base" "base \<le> 16" using assms by (simp_all add: word_le_def)
  let ?t = "if num = 0 then [48] else itoa_loop num base (bit flags 1)"
  have t: "rev ?t = number_text (unat base) (bit flags 1) (unat num)"
  proof (cases "num = 0")
    case True
    have "0 < unat base" using b(1) by (simp add: word_le_nat_alt)
    then show ?thesis using True by (simp add: number_text_def digits_of.simps digit_text_def)
  qed (use itoa_loop_text [OF b] in simp)
  have l: "length ?t \<le> 32" using itoa_loop_short [of num base "bit flags 1"] by simp
  have "sint (of_nat width - of_nat (length ?t) :: i32) = int width - int (length ?t)"
  proof -
    have "(of_nat width - of_nat (length ?t) :: i32) = word_of_int (int width - int (length ?t))" by simp
    then show ?thesis
      using l assms(3) by (simp only: sint_sbintrunc') (intro signed_take_bit_int_eq_self, simp_all)
  qed
  then have z: "nat (sint (of_nat width - of_nat (length ?t) :: i32)) = width - length (rev ?t)" by simp
  show ?thesis
    unfolding itoa_base_def flag_bits_tests Let_def z using assms(1,2) unfolding t by (simp add: padded_def)
qed

lemma cstr_map: "cstr m a s \<Longrightarrow> map (\<lambda>i. m (a + of_nat i)) [0..<length s] = s"
proof (induction s arbitrary: a)
  case (Cons c s)
  have "map (\<lambda>i. m (a + of_nat i)) [0..<length (c # s)] = m a # map (\<lambda>i. m (a + 1 + of_nat i)) [0..<length s]"
    by (simp add: upt_conv_Cons add.assoc flip: map_Suc_upt del: upt_Suc)
  then show ?case using Cons by simp
qed simp

lemma number_args:
  fixes a :: u32
  shows "sint a < 0 \<Longrightarrow> unat (- a) = nat \<bar>sint a\<bar>" "\<not> sint a < 0 \<Longrightarrow> unat a = nat \<bar>sint a\<bar>"
proof -
  have m: "uint b = sint b mod 4294967296" for b :: u32 by (simp add: uint_sint take_bit_eq_mod)
  have r: "- 2147483648 \<le> sint a" "sint a < 2147483648" using sint_range_size [of a] by (simp_all add: word_size)
  show "unat (- a) = nat \<bar>sint a\<bar>" if "sint a < 0"
  proof -
    have "uint (- a) = (- uint a) mod 4294967296" by (simp add: uint_word_ariths)
    also have "\<dots> = (- sint a) mod 4294967296" by (simp only: m mod_minus_eq)
    also have "\<dots> = - sint a" using that r by (intro mod_pos_pos_trivial) simp_all
    finally show ?thesis using that by (simp add: unat_eq_nat_uint)
  qed
  show "unat a = nat \<bar>sint a\<bar>" if "\<not> sint a < 0"
    using that r m [of a] by (simp add: unat_eq_nat_uint)
qed

lemma flags_set:
  fixes f :: i32
  shows "bit (f OR 1) 0" "bit (f OR 2) 0 \<longleftrightarrow> bit f 0" "bit (f OR 1) (Suc 0) \<longleftrightarrow> bit f (Suc 0)" "bit (f OR 2) (Suc 0)"
  by (simp_all add: bit_or_iff bit_simps)

text \<open>One conversion: the bytes, the arguments left and the flags after it.\<close>

lemma convert_text:
  assumes "arg_at m v a" "conv_text c (bit flags 0) (bit flags 1) width v = Some s" "width < 2147483648"
  shows "convert m c (of_nat width) flags (a # args) = Some (Inr (s, args, if c = 120 then flags OR LOWERCASE else flags))"
proof (cases v)
  case (Text t)
  then have c: "c = 115" "s = t" using assms(2) by (auto split: if_splits)
  have "nat (sint (of_nat (length t) :: i32)) = length t"
  proof -
    have "sint (of_nat (length t) :: i32) = int (length t)"
      using assms(1) Text by (simp add: sint_uint uint_nat unat_of_nat32 signed_take_bit_int_eq_self)
    then show ?thesis by simp
  qed
  moreover have "strlen a m = Some (of_nat (length t))" using assms(1) Text by (simp add: strlen_cstr)
  moreover have "map (\<lambda>i. m (a + of_nat i)) [0..<length t] = t" using assms(1) Text by (simp add: cstr_map)
  ultimately show ?thesis by (simp add: convert_def c)
next
  case (Num w)
  then have a: "a = w" using assms(1) by simp
  note n = itoa_base_text [OF _ _ assms(3), where flags = flags] itoa_base_text [OF _ _ assms(3), where flags = "flags OR LOWERCASE"]
    itoa_base_text [where width = 8 and flags = flags, simplified]
  show ?thesis
    using assms(2) unfolding Num a
    by (auto simp: convert_def conv_number_def n flags_set number_args split: if_splits)
qed

lemma items_run:
  assumes "list_all2 (arg_at m) vals (take (length vals) args)" "list_all width_ok items"
    and "items_text (bit flags 0) (bit flags 1) items vals = Some out"
  shows "run_items m items args flags str = Some (Inr (str @ out))"
  using assms
proof (induction items arbitrary: vals args flags str out)
  case (Cons it items)
  show ?case
  proof (cases it)
    case (Lit c)
    then obtain o' where "items_text (bit flags 0) (bit flags 1) items vals = Some o'" "out = c # o'"
      using Cons.prems(3) by auto
    then show ?thesis using Cons.IH [OF Cons.prems(1)] Cons.prems(2) by (simp add: Lit)
  next
    case (Conv z ds l c)
    let ?f = "if z then flags OR ZEROPAD else flags"
    have f: "bit ?f 0 \<longleftrightarrow> bit flags 0 \<or> z" "bit ?f 1 \<longleftrightarrow> bit flags 1"
      by (simp_all add: flags_set)
    have w: "number_of 10 ds < 2147483648" "list_all width_ok items" using Cons.prems(2) by (simp_all add: Conv)
    show ?thesis
    proof (cases "c \<in> of_char ` set ''csdiuoxXp''")
      case False
      then have "items_text (bit ?f 0) (bit ?f 1) items vals = Some out"
        unfolding f using Cons.prems(3) by (simp add: Conv)
      from Cons.IH [OF Cons.prems(1) w(2) this]
      show ?thesis using False by (simp add: Conv convert_def)
    next
      case True
      then obtain v vs s o' where v: "vals = v # vs" "conv_text c (bit ?f 0) (bit ?f 1) (number_of 10 ds) v = Some s"
        "items_text (bit flags 0 \<or> z) (bit flags 1 \<or> c = 120) items vs = Some o'" "out = s @ o'"
        using Cons.prems(3) unfolding f by (auto simp: Conv split: list.splits bind_splits)
      obtain a as where a: "args = a # as" "arg_at m v a" "list_all2 (arg_at m) vs (take (length vs) as)"
        using Cons.prems(1) by (cases args) (auto simp: v(1))
      let ?g = "if c = 120 then ?f OR LOWERCASE else ?f"
      have g: "bit ?g 0 \<longleftrightarrow> bit flags 0 \<or> z" "bit ?g 1 \<longleftrightarrow> bit flags 1 \<or> c = 120"
        by (simp_all add: flags_set)
      note conv = convert_text [OF a(2) v(2) w(1), of as]
      have "run_items m items as ?g (str @ s) = Some (Inr ((str @ s) @ o'))"
        by (rule Cons.IH [OF a(3) w(2)]) (use v(3) in \<open>simp only: g\<close>)
      then show ?thesis by (simp only: Conv a(1) run_items.simps conv v(4)) simp
    qed
  qed
qed simp

section \<open>Properties\<close>

text \<open>
  C31: \<open>vsprintf\<close> prints what its format says. The format is read as the list of literals and
  conversions it is written from (zero flag, width, length modifier, conversion character), and
  each conversion prints its argument: \<open>%c\<close> the byte, \<open>%s\<close> the string, \<open>%d\<close> and \<open>%i\<close> the signed and
  \<open>%u\<close> the unsigned number in decimal, \<open>%o\<close> in octal, \<open>%x\<close> and \<open>%X\<close> in lower- and upper-case
  hexadecimal, \<open>%p\<close> in hexadecimal of width 8, the digits (without the sign) filled up with zeros
  to the width under the zero flag, and never otherwise. The flag stays set for the rest of the format, and after a \<open>%x\<close> so do the
  lower-case digits. Assumed are arguments of the kinds the conversions ask for, and widths and
  strings shorter than 2 GB.
\<close>

theorem vsprintf_prints_items:
  assumes "cstr m p (concat (map item_bytes items))" "list_all item_ok items" "list_all width_ok items"
    and "list_all2 (arg_at m) vals (take (length vals) args)"
    and "items_text False False items vals = Some out"
  shows "vsprintf m p args = Some (Inr out)"
  using items_run [OF assms(4,3), of 0 out "[]"] assms(5)
  by (simp add: vsprintf_def vsprintf_items [OF assms(1,2)])

text \<open>A format in memory: the bytes at \<open>p\<close>, zero everywhere else.\<close>

definition text_at :: "u32 \<Rightarrow> u8 list \<Rightarrow> memory" where
  "text_at p s = (\<lambda>a. if unat (a - p) < length s then s ! unat (a - p) else 0)"

lemma text_at_cstr:
  assumes "0 \<notin> set s" "length s < 4294967296"
  shows "cstr (text_at p s) p s"
proof -
  have "cstr (text_at p s) p (take (length s) s)"
  proof (rule cstr_take)
    show "text_at p s (p + of_nat i) = s ! i" if "i < length s" for i
      using that assms(2) by (simp add: text_at_def unat_of_nat32)
    show "text_at p s (p + of_nat (length s)) = 0"
      using assms(2) by (simp add: text_at_def unat_of_nat32)
  qed (use assms(1) in simp_all)
  then show ?thesis by simp
qed

text \<open>The format \<open>[%03d|%x]%s\<close> and the string \<open>ok\<close> behind it, with a negative number.\<close>

definition sample_format :: "u8 list" where
  "sample_format = map of_char ''[%03d|%x]%s''"

theorem vsprintf_prints_items_witness:
  "vsprintf (text_at 0x1000 (sample_format @ [0, 111, 107])) 0x1000 [- 7, 0xbeef, 0x100c] =
     Some (Inr (map of_char ''[-007|beef]ok''))"
proof -
  let ?items = "[Lit 91, Conv True [51] None 100, Lit 124, Conv False [] None 120, Lit 93, Conv False [] None 115]"
  let ?m = "text_at 0x1000 (sample_format @ [0, 111, 107])"
  have ok: "list_all item_ok ?items" "list_all width_ok ?items"
    by (simp_all add: is_digit_char_def modifier_def number_of_def digit_value_def)
  have bytes: "concat (map item_bytes ?items) = sample_format" by (simp add: sample_format_def)
  have fmt: "cstr ?m 0x1000 (concat (map item_bytes ?items))"
    unfolding bytes by (simp add: sample_format_def text_at_def)
  have args: "list_all2 (arg_at ?m) [Num (- 7), Num 0xbeef, Text [111, 107]] (take (length [Num (- 7), Num 0xbeef, Text [111, 107]]) [- 7, 0xbeef, 0x100c])"
    by (simp add: sample_format_def text_at_def)
  have two: "replicate 2 (48 :: u8) = [48, 48]" by (simp add: numeral_2_eq_2)
  have "items_text False False ?items [Num (- 7), Num 0xbeef, Text [111, 107]] = Some (map of_char ''[-007|beef]ok'')"
    by (simp add: number_text_def padded_def digits_of.simps digit_text_def number_of_def digit_value_def two)
  from vsprintf_prints_items [OF fmt ok args this] show ?thesis .
qed

text \<open>
  C32: Numbers survive the trip through text: in any base from 2 to 16 the digits \<open>itoa_base\<close>
  prints, padded or not, have the value of the number, and the decimal text is read back by
  \<open>atoi_mod\<close> as the same 32-bit number, with the pointer left behind the last digit.
\<close>

theorem number_text_roundtrip:
  assumes "2 \<le> sint base" "sint base \<le> 16" "itoa_base num base width flags = Some s"
  shows "number_of (unat base) s = unat num \<and>
    (base = 10 \<longrightarrow> cstr m p s \<longrightarrow> atoi_mod m p = Some (num, p + of_nat (length s)))"
proof -
  let ?t = "if num = 0 then [48] else itoa_loop num base (flags AND LOWERCASE \<noteq> 0)"
  obtain s' where s': "itoa_base num base width flags = Some s'" "number_of (unat base) s' = unat num"
    "s' = replicate (if flags AND ZEROPAD \<noteq> 0 then nat (sint (width - of_nat (length ?t))) else 0) 48 @ rev ?t"
    by (rule itoa_base_spec [OF assms(1,2)])
  define n where "n = (if flags AND ZEROPAD \<noteq> 0 then nat (sint (width - of_nat (length ?t))) else 0)"
  have "s' = s" using s'(1) assms(3) by simp
  then have s: "number_of (unat base) s = unat num" "s = replicate n 48 @ rev ?t"
    using s'(2,3) unfolding n_def by blast+
  have "atoi_mod m p = Some (num, p + of_nat (length s))" if base: "base = 10" and c: "cstr m p s"
  proof -
    have d48: "is_digit_char 48" "\<not> is_digit_char 0" by (simp_all add: is_digit_char_def)
    have "list_all is_digit_char (rev ?t)"
      using itoa_decimal_digits [of num "flags AND LOWERCASE \<noteq> 0"] base d48 by simp
    moreover have "list_all is_digit_char (replicate n 48)" using d48 by (simp add: list_all_length)
    ultimately have digits: "list_all is_digit_char s" using s(2) by simp
    have "bytes_at m p s" "m (p + of_nat (length s)) = 0"
      using cstr_append [of m p s "[]"] c by simp_all
    then have "atoi_mod m p = Some (of_nat (number_of 10 s), p + of_nat (length s))"
      using d48(2) digits by (intro atoi_mod_digits) simp_all
    then show ?thesis using s(1) base by simp
  qed
  then show ?thesis using s(1) by blast
qed

theorem number_text_roundtrip_witness:
  "number_of 16 [48, 70, 70] = 255 \<and> itoa_base 255 16 3 1 = Some [48, 70, 70]"
proof -
  have i: "itoa_base 255 16 3 1 = Some [48, 70, 70]"
    by (simp add: itoa_base_def Let_def itoa_loop.simps digit_chars_def)
  show ?thesis using number_text_roundtrip [OF _ _ i] i by simp
qed

text \<open>
  The flags are not reset between conversions: after a \<open>%x\<close> a \<open>%X\<close> prints lower-case
  digits too.
\<close>

theorem vsprintf_flags_leak:
  assumes "cstr m p [37, 120, 37, 88]" "itoa_base a 16 0 LOWERCASE = Some x" "itoa_base b 16 0 LOWERCASE = Some y"
  shows "vsprintf m p [a, b] = Some (Inr (x @ y))"
proof -
  let ?items = "[Conv False [] None 120, Conv False [] None 88]"
  have ok: "list_all item_ok ?items" by (simp add: is_digit_char_def modifier_def)
  have "cstr m p (concat (map item_bytes ?items))" using assms(1) by simp
  from vsprintf_items [OF this ok] show ?thesis
    by (simp add: vsprintf_def convert_def conv_number_def assms(2,3))
qed

theorem vsprintf_flags_leak_witness:
  "vsprintf (text_at 0x1000 [37, 120, 37, 88]) 0x1000 [0xa, 0xb] = Some (Inr [97, 98])"
proof -
  have "cstr (text_at 0x1000 [37, 120, 37, 88]) 0x1000 [37, 120, 37, 88]"
    by (rule text_at_cstr) simp_all
  then show ?thesis
    using vsprintf_flags_leak [of _ "0x1000" "0xa" "[97]" "0xb" "[98]"]
    by (simp add: itoa_base_def Let_def itoa_loop.simps digit_chars_def)
qed

text \<open>
  A format that ends in a percent sign is read past its terminator: the zero byte is taken
  for a conversion character, prints nothing, and the scan goes on behind it.
\<close>

theorem vsprintf_reads_past_end:
  assumes "m p = 37" "m (p + 1) = 0"
  shows "vsprintf_loop m p args flags str = vsprintf_loop m (p + 2) args flags str"
proof -
  have "flag_settings m p flags = Some (p + 1, flags)" using assms(2) by (simp add: flag_settings_none)
  moreover have "atoi_mod m (p + 1) = Some (0, p + 1)"
    using assms(2) by (simp add: atoi_mod_def atoi_loop.simps is_digit_char_def)
  ultimately show ?thesis
    using assms by (subst vsprintf_loop.simps) (simp add: convert_def add.assoc)
qed

theorem vsprintf_reads_past_end_witness:
  "vsprintf ((\<lambda>_. 0)(0x1000 := 37, 0x1002 := 65)) 0x1000 [] = Some (Inr [65])"
  using vsprintf_reads_past_end [of "(\<lambda>_. 0)(0x1000 := 37, 0x1002 := 65)" "0x1000" "[]" 0 "[]"]
  by (simp add: vsprintf_def vsprintf_loop.simps [of _ "0x1002"] vsprintf_loop.simps [of _ "0x1003"])

end
