(* ===== verification/Ide.thy ===== *)
theory Ide
  imports Block Interrupts Sema Format
begin

text \<open>
  The ATA disk driver, \<open>devices/ide.c\<close>. Its state is the kernel (semaphores, memory and log),
  the history of port accesses, the interrupt gates and the two adaptors; an adaptor is its
  index, a disk an adaptor and a device number.

  A wait on a semaphore may switch to other tasks. \<open>env\<close> is a parameter: what happens from
  such a switch until the waiting task runs again (other tasks, interrupts). Messages go to
  the kernel log, a string argument as its bytes. The busy loops of \<open>ide_udelay\<close> take time
  and change nothing.
\<close>

section \<open>State\<close>

record ata_disk =
  disk_name :: "u8 list"
  dev_no :: i32
  is_ata_disk :: bool
  disk_sectors :: u32

record ata_adaptor =
  chan_name :: "u8 list"
  reg_base :: u16
  irq :: u16
  chan_slock :: i8
  sema_wait :: u32
  sema_rw :: u32
  ata_disks :: "u32 \<Rightarrow> ata_disk"

record machine =
  krn :: kernel
  hist :: history
  gates :: intr
  channels :: "u32 \<Rightarrow> ata_adaptor"

type_synonym env = "machine \<Rightarrow> machine result"

abbreviation (input) NR_ATA_ADAPTORS :: u32 where "NR_ATA_ADAPTORS \<equiv> 2"
abbreviation (input) NR_ATA_DISKS :: u32 where "NR_ATA_DISKS \<equiv> 2"
abbreviation (input) BLOCK_SECTOR_SIZE :: u32 where "BLOCK_SECTOR_SIZE \<equiv> 512"

definition reg_data :: "ata_adaptor \<Rightarrow> u16" where "reg_data c = reg_base c"
definition reg_error :: "ata_adaptor \<Rightarrow> u16" where "reg_error c = reg_base c + 1"
definition reg_nsect :: "ata_adaptor \<Rightarrow> u16" where "reg_nsect c = reg_base c + 2"
definition reg_lbal :: "ata_adaptor \<Rightarrow> u16" where "reg_lbal c = reg_base c + 3"
definition reg_lbam :: "ata_adaptor \<Rightarrow> u16" where "reg_lbam c = reg_base c + 4"
definition reg_lbah :: "ata_adaptor \<Rightarrow> u16" where "reg_lbah c = reg_base c + 5"
definition reg_device :: "ata_adaptor \<Rightarrow> u16" where "reg_device c = reg_base c + 6"
definition reg_status :: "ata_adaptor \<Rightarrow> u16" where "reg_status c = reg_base c + 7"
definition reg_command :: "ata_adaptor \<Rightarrow> u16" where "reg_command c = reg_status c"
definition reg_ctl :: "ata_adaptor \<Rightarrow> u16" where "reg_ctl c = reg_base c + 0x206"
definition reg_alt_status :: "ata_adaptor \<Rightarrow> u16" where "reg_alt_status c = reg_ctl c"

lemmas reg_defs = reg_data_def reg_error_def reg_nsect_def reg_lbal_def reg_lbam_def reg_lbah_def
  reg_device_def reg_status_def reg_command_def reg_ctl_def reg_alt_status_def

abbreviation (input) STA_BSY :: u8 where "STA_BSY \<equiv> 0x80"
abbreviation (input) STA_DRDY :: u8 where "STA_DRDY \<equiv> 0x40"
abbreviation (input) STA_DRQ :: u8 where "STA_DRQ \<equiv> 0x08"
abbreviation (input) CTL_SRST :: u8 where "CTL_SRST \<equiv> 0x04"
abbreviation (input) DEV_MBS :: u8 where "DEV_MBS \<equiv> 0xa0"
abbreviation (input) DEV_LBA :: u8 where "DEV_LBA \<equiv> 0x40"
abbreviation (input) DEV_DEV :: u8 where "DEV_DEV \<equiv> 0x10"
abbreviation (input) CMD_IDENTIFY_DEVICE :: u8 where "CMD_IDENTIFY_DEVICE \<equiv> 0xec"
abbreviation (input) CMD_READ_SECTOR_RETRY :: u8 where "CMD_READ_SECTOR_RETRY \<equiv> 0x20"
abbreviation (input) CMD_WRITE_SECTOR_RETRY :: u8 where "CMD_WRITE_SECTOR_RETRY \<equiv> 0x30"

section \<open>Access\<close>

definition sys_out :: "u16 \<Rightarrow> u8 \<Rightarrow> machine \<Rightarrow> machine" where
  "sys_out port v s = s\<lparr>hist := outb port v (hist s)\<rparr>"

definition sys_in :: "device \<Rightarrow> u16 \<Rightarrow> machine \<Rightarrow> u8 \<times> machine" where
  "sys_in dev port s = (let (v, h) = inb dev port (hist s) in (v, s\<lparr>hist := h\<rparr>))"

definition sys_log :: "string \<Rightarrow> u32 list \<Rightarrow> machine \<Rightarrow> machine" where
  "sys_log fmt args s = s\<lparr>krn := (krn s)\<lparr>pages := printk_mm fmt args (pages (krn s))\<rparr>\<rparr>"

definition sys_mem :: "machine \<Rightarrow> memory" where
  "sys_mem s = mem (pages (krn s))"

definition set_mem :: "memory \<Rightarrow> machine \<Rightarrow> machine" where
  "set_mem m s = s\<lparr>krn := (krn s)\<lparr>pages := (pages (krn s))\<lparr>mem := m\<rparr>\<rparr>\<rparr>"

definition ide_udelay :: "u32 \<Rightarrow> machine \<Rightarrow> machine" where
  "ide_udelay n s = s"

definition disk_of :: "u32 \<Rightarrow> u32 \<Rightarrow> machine \<Rightarrow> ata_disk" where
  "disk_of c d s = ata_disks (channels s c) d"

definition upd_disk :: "u32 \<Rightarrow> u32 \<Rightarrow> (ata_disk \<Rightarrow> ata_disk) \<Rightarrow> machine \<Rightarrow> machine" where
  "upd_disk c d f s = s\<lparr>channels := (channels s)(c := (channels s c)
     \<lparr>ata_disks := (ata_disks (channels s c))(d := f (ata_disks (channels s c) d))\<rparr>)\<rparr>"

text \<open>A wait that comes back at once, or after other tasks have run.\<close>

definition down :: "env \<Rightarrow> u32 \<Rightarrow> machine \<Rightarrow> machine result" where
  "down env a s = bindE (sema_down a (krn s)) (\<lambda>k.
     if current k = current (krn s) then Inr (s\<lparr>krn := k\<rparr>) else env (s\<lparr>krn := k\<rparr>))"

definition up :: "u32 \<Rightarrow> machine \<Rightarrow> machine result" where
  "up a s = bindE (sema_up a (krn s)) (\<lambda>k. Inr (s\<lparr>krn := k\<rparr>))"

section \<open>Waiting and selecting\<close>

fun wait_busy_loop :: "device \<Rightarrow> u32 \<Rightarrow> nat \<Rightarrow> machine \<Rightarrow> bool \<times> machine" where
  "wait_busy_loop dev c 0 s = (False, sys_log ''Failed\<newline>'' [] s)"
| "wait_busy_loop dev c (Suc n) s =
     (let (v, s) = sys_in dev (reg_alt_status (channels s c)) s
      in if v AND STA_BSY = 0
         then (let s = sys_log ''ok\<newline>'' [] s;
                   (v, s) = sys_in dev (reg_alt_status (channels s c)) s
               in (v AND STA_DRQ \<noteq> 0, s))
         else wait_busy_loop dev c n (ide_udelay 10 s))"

definition wait_while_busy :: "device \<Rightarrow> u32 \<Rightarrow> u32 \<Rightarrow> machine \<Rightarrow> bool \<times> machine" where
  "wait_while_busy dev c d s =
     wait_busy_loop dev c 3000 (sys_log ''busy waiting %s '' (map ucast (disk_name (disk_of c d s))) s)"

fun wait_idle_loop :: "device \<Rightarrow> u32 \<Rightarrow> u32 \<Rightarrow> nat \<Rightarrow> machine \<Rightarrow> machine" where
  "wait_idle_loop dev c d 0 s = sys_log ''Wait timeout %s\<newline>'' (map ucast (disk_name (disk_of c d s))) s"
| "wait_idle_loop dev c d (Suc n) s =
     (let (v, s) = sys_in dev (reg_status (channels s c)) s
      in if v AND (STA_BSY OR STA_DRQ) = 0 then s else wait_idle_loop dev c d n (ide_udelay 10 s))"

definition wait_until_idle :: "device \<Rightarrow> u32 \<Rightarrow> u32 \<Rightarrow> machine \<Rightarrow> machine" where
  "wait_until_idle dev c d s = wait_idle_loop dev c d 1000 s"

definition select_disk :: "u32 \<Rightarrow> u32 \<Rightarrow> machine \<Rightarrow> machine" where
  "select_disk c d s =
     (let dev_reg_val = DEV_MBS;
          dev_reg_val = (if dev_no (disk_of c d s) = 1 then dev_reg_val OR DEV_DEV else dev_reg_val)
      in ide_udelay 1 (sys_out (reg_device (channels s c)) dev_reg_val s))"

definition select_disk_wait :: "device \<Rightarrow> u32 \<Rightarrow> u32 \<Rightarrow> machine \<Rightarrow> machine" where
  "select_disk_wait dev c d s = wait_until_idle dev c d (select_disk c d (wait_until_idle dev c d s))"

definition issue_pio_cmd :: "u32 \<Rightarrow> u8 \<Rightarrow> machine \<Rightarrow> machine" where
  "issue_pio_cmd c cmd s =
     (let s = s\<lparr>krn := (krn s)\<lparr>intr_on := True\<rparr>\<rparr> in sys_out (reg_command (channels s c)) cmd s)"

definition input_sector :: "device \<Rightarrow> u32 \<Rightarrow> u32 \<Rightarrow> machine \<Rightarrow> machine" where
  "input_sector dev c buf s =
     (let (m, h) = insw dev (reg_data (channels s c)) buf (unat (BLOCK_SECTOR_SIZE div 2)) (sys_mem s, hist s)
      in set_mem m (s\<lparr>hist := h\<rparr>))"

definition output_sector :: "u32 \<Rightarrow> u32 \<Rightarrow> machine \<Rightarrow> machine" where
  "output_sector c buf s =
     s\<lparr>hist := outsw (reg_data (channels s c)) buf (unat (BLOCK_SECTOR_SIZE div 2)) (sys_mem s, hist s)\<rparr>"

definition select_sector :: "device \<Rightarrow> u32 \<Rightarrow> u32 \<Rightarrow> u32 \<Rightarrow> machine \<Rightarrow> machine" where
  "select_sector dev c d sect_no s =
     (let s = select_disk_wait dev c d s;
          s = sys_out (reg_nsect (channels s c)) 1 s;
          s = sys_out (reg_lbal (channels s c)) (ucast sect_no) s;
          s = sys_out (reg_lbam (channels s c)) (ucast (drop_bit 8 sect_no)) s;
          s = sys_out (reg_lbah (channels s c)) (ucast (drop_bit 16 sect_no)) s
      in sys_out (reg_device (channels s c))
           (ucast (0xa0 OR 0x40 OR (if dev_no (disk_of c d s) = 1 then 0x10 else 0) OR drop_bit 24 sect_no)) s)"

section \<open>Reading and writing sectors\<close>

text \<open>\<open>param\<close>, the disk, is the pair of adaptor and device number.\<close>

definition ide_read :: "device \<Rightarrow> env \<Rightarrow> u32 \<Rightarrow> u32 \<Rightarrow> u32 \<times> u32 \<Rightarrow> machine \<Rightarrow> (u32 \<times> machine) result" where
  "ide_read dev env buf sect_no = (\<lambda>(c, d) s.
     bindE (down env (sema_rw (channels s c)) s) (\<lambda>s.
       let s = select_sector dev c d sect_no s;
           s = issue_pio_cmd c CMD_READ_SECTOR_RETRY s
       in bindE (down env (sema_wait (channels s c)) s) (\<lambda>s.
          let (ok, s) = wait_while_busy dev c d s;
              (ret, s) = (if ok then (BLOCK_SECTOR_SIZE, input_sector dev c buf s) else (- 1, s))
          in bindE (up (sema_rw (channels s c)) s) (\<lambda>s. Inr (ret, s)))))"

definition ide_write :: "device \<Rightarrow> env \<Rightarrow> u32 \<Rightarrow> u32 \<Rightarrow> u32 \<times> u32 \<Rightarrow> machine \<Rightarrow> (u32 \<times> machine) result" where
  "ide_write dev env buf sect_no = (\<lambda>(c, d) s.
     bindE (down env (sema_rw (channels s c)) s) (\<lambda>s.
       let s = select_sector dev c d sect_no s;
           s = issue_pio_cmd c CMD_WRITE_SECTOR_RETRY s;
           (ok, s) = wait_while_busy dev c d s
       in bindE (if ok then bindE (down env (sema_wait (channels s c)) (output_sector c buf s))
                              (\<lambda>s. Inr (BLOCK_SECTOR_SIZE, s))
                 else Inr (- 1, s))
            (\<lambda>(ret, s). bindE (up (sema_rw (channels s c)) s) (\<lambda>s. Inr (ret, s)))))"

text \<open>The interrupt of the adaptor whose number is in the frame; any other is ignored.\<close>

definition ide_interrupt_body :: "device \<Rightarrow> u32 \<Rightarrow> machine \<Rightarrow> machine result" where
  "ide_interrupt_body dev c s =
     (let (v, s) = sys_in dev (reg_status (channels s c)) s in up (sema_wait (channels s c)) s)"

definition ide_isr :: "device \<Rightarrow> u32 \<Rightarrow> machine \<Rightarrow> machine result" where
  "ide_isr dev vec_no s =
     (if ucast (irq (channels s 0)) = vec_no then ide_interrupt_body dev 0 s
      else if ucast (irq (channels s 1)) = vec_no then ide_interrupt_body dev 1 s
      else Inr s)"


section \<open>Detecting and identifying disks\<close>

definition probe :: "device \<Rightarrow> u32 \<Rightarrow> u32 \<Rightarrow> machine \<Rightarrow> bool \<times> machine" where
  "probe dev c d s =
     (let s = select_disk c d s;
          s = sys_out (reg_nsect (channels s c)) 0x55 s;
          s = sys_out (reg_lbal (channels s c)) 0xaa s;
          s = sys_out (reg_nsect (channels s c)) 0xaa s;
          s = sys_out (reg_lbal (channels s c)) 0x55 s;
          s = sys_out (reg_nsect (channels s c)) 0x55 s;
          s = sys_out (reg_lbal (channels s c)) 0xaa s;
          (v, s) = sys_in dev (reg_nsect (channels s c)) s
      in if v = 0x55 then (let (v, s) = sys_in dev (reg_lbal (channels s c)) s in (v = 0xaa, s))
         else (False, s))"

fun wait_reset_loop :: "device \<Rightarrow> u32 \<Rightarrow> nat \<Rightarrow> machine \<Rightarrow> machine" where
  "wait_reset_loop dev c 0 s = s"
| "wait_reset_loop dev c (Suc n) s =
     (let (v, s) = sys_in dev (reg_nsect (channels s c)) s
      in if v = 1
         then (let (v, s) = sys_in dev (reg_lbal (channels s c)) s
               in if v = 1 then s else wait_reset_loop dev c n (ide_udelay 10 s))
         else wait_reset_loop dev c n (ide_udelay 10 s))"

definition reset_adaptor :: "device \<Rightarrow> u32 \<Rightarrow> machine \<Rightarrow> machine" where
  "reset_adaptor dev c s =
     (let (p0, s) = probe dev c 0 s;
          (p1, s) = probe dev c 1 s;
          s = sys_out (reg_ctl (channels s c)) 0 s;
          s = ide_udelay 10 s;
          s = sys_out (reg_ctl (channels s c)) CTL_SRST s;
          s = ide_udelay 10 s;
          s = sys_out (reg_ctl (channels s c)) 0 s;
          s = ide_udelay 150000 s;
          s = (if p0 then snd (wait_while_busy dev c 0 (select_disk c 0 s)) else s)
      in if p1 then snd (wait_while_busy dev c 1 (wait_reset_loop dev c 3000 (select_disk c 1 s))) else s)"

definition check_disk_type :: "device \<Rightarrow> u32 \<Rightarrow> u32 \<Rightarrow> machine \<Rightarrow> bool \<times> machine" where
  "check_disk_type dev c d s =
     (let s = select_disk c d s;
          (error, s) = sys_in dev (reg_error (channels s c)) s;
          (lbam, s) = sys_in dev (reg_lbam (channels s c)) s;
          (lbah, s) = sys_in dev (reg_lbah (channels s c)) s;
          (status, s) = sys_in dev (reg_status (channels s c)) s
      in if (error \<noteq> 1 \<and> (error \<noteq> 0x81 \<or> dev_no (disk_of c d s) = 1)) \<or>
            status AND STA_DRDY = 0 \<or> status AND STA_BSY \<noteq> 0
         then (error \<noteq> 0x81, upd_disk c d (\<lambda>k. k\<lparr>is_ata_disk := False\<rparr>) s)
         else (True, upd_disk c d (\<lambda>k. k\<lparr>is_ata_disk :=
                 lbam = 0 \<and> lbah = 0 \<or> lbam = 0x3c \<and> lbah = 0xc3\<rparr>) s))"

text \<open>
  The strings of the identify block: the bytes of each word are swapped, then the last byte
  that is not zero, searched from the end, is overwritten with a terminator.
\<close>

partial_function (option) swap_loop :: "u32 \<Rightarrow> u32 \<Rightarrow> u32 \<Rightarrow> memory \<Rightarrow> memory option" where
  "swap_loop orig i n m =
     (if i < n
      then (let tmp = m (orig + i + 1);
                m = m(orig + i + 1 := m (orig + i));
                m = m(orig + i := tmp)
            in swap_loop orig (i + 2) n m)
      else Some m)"

primrec trim_loop :: "memory \<Rightarrow> u32 \<Rightarrow> nat \<Rightarrow> nat" where
  "trim_loop m orig 0 = 0"
| "trim_loop m orig (Suc k) = (if m (orig + of_nat (Suc k)) \<noteq> 0 then Suc k else trim_loop m orig k)"

definition manipulate_info_string :: "u32 \<Rightarrow> u32 \<Rightarrow> memory \<Rightarrow> memory option" where
  "manipulate_info_string orig sz m =
     map_option (\<lambda>m. m(orig + of_nat (trim_loop m orig (unat (sz - 1))) := 0)) (swap_loop orig 0 (sz - 1) m)"

definition spin :: "'a option \<Rightarrow> 'a result" where
  "spin r = (case r of None \<Rightarrow> Inl Spin | Some a \<Rightarrow> Inr a)"

text \<open>A string argument in the log: its bytes up to the terminator; two are separated by a zero.\<close>

definition string_arg :: "u32 \<Rightarrow> memory \<Rightarrow> u32 list" where
  "string_arg a m = (case strlen a m of None \<Rightarrow> [] | Some n \<Rightarrow> map (\<lambda>i. ucast (m (a + of_nat i))) [0..<unat n])"

text \<open>\<open>idbuf\<close> is the 512-byte buffer on the caller's stack.\<close>

definition identify_ata_device :: "device \<Rightarrow> env \<Rightarrow> u32 \<Rightarrow> u32 \<Rightarrow> u32 \<Rightarrow> machine \<Rightarrow> machine result" where
  "identify_ata_device dev env idbuf c d s =
     (if \<not> is_ata_disk (disk_of c d s) then Inr s
      else
        (let s = sys_log ''Identify ata disk (%s) ... '' (map ucast (disk_name (disk_of c d s))) s;
             s = select_disk_wait dev c d s;
             s = issue_pio_cmd c CMD_IDENTIFY_DEVICE s
         in bindE (down env (sema_wait (channels s c)) s) (\<lambda>s.
            let (ok, s) = wait_while_busy dev c d s
            in if \<not> ok then Inr (upd_disk c d (\<lambda>k. k\<lparr>is_ata_disk := False\<rparr>) s)
               else
                 (let s = input_sector dev c idbuf s;
                      sectors = load32 (sys_mem s) (idbuf + 120);
                      s = upd_disk c d (\<lambda>k. k\<lparr>disk_sectors := sectors\<rparr>) s
                  in bindE (spin (manipulate_info_string (idbuf + 20) 20 (sys_mem s))) (\<lambda>m.
                     let s = set_mem m s
                     in bindE (spin (manipulate_info_string (idbuf + 54) 40 (sys_mem s))) (\<lambda>m.
                        let s = set_mem m s;
                            s = sys_log ''sectors %d \<newline>'' [sectors] s
                        in Inr (sys_log ''Serial no. %s\<newline>Model no. %s\<newline>''
                             (string_arg (idbuf + 20) (sys_mem s) @ 0 # string_arg (idbuf + 54) (sys_mem s)) s)))))))"

section \<open>Initialisation\<close>

text \<open>What \<open>sprintf\<close> makes of a constant format, and where it puts it.\<close>

definition format_text :: "item list \<Rightarrow> u32 list \<Rightarrow> u8 list" where
  "format_text items args = (case run_items (\<lambda>_. 0) items args 0 [] of Some (Inr s) \<Rightarrow> s | _ \<Rightarrow> [])"

definition put_text :: "u32 \<Rightarrow> u8 list \<Rightarrow> memory \<Rightarrow> memory" where
  "put_text buf s m = (\<lambda>a. if unat (a - buf) < length s then s ! unat (a - buf)
                           else if unat (a - buf) = length s then 0 else m a)"

text \<open>
  The addresses of the four disks, their block structures and the identify buffer are the
  linker's and the stack's: \<open>layout\<close>. A disk's address is also that of its name, its first
  field, and the parameter its driver operations get.
\<close>

record layout =
  disk_addr :: "u32 \<Rightarrow> u32 \<Rightarrow> u32"
  blk_addr :: "u32 \<Rightarrow> u32"
  id_buf :: u32

definition find_disk :: "layout \<Rightarrow> u32 \<Rightarrow> (u32 \<times> u32) option" where
  "find_disk lay a = find (\<lambda>(c, d). disk_addr lay c d = a) [(0, 0), (0, 1), (1, 0), (1, 1)]"

definition lift_op :: "layout \<Rightarrow> (u32 \<times> u32 \<Rightarrow> machine \<Rightarrow> (u32 \<times> machine) result) \<Rightarrow> u32 \<Rightarrow> machine result \<Rightarrow> u32 \<times> machine result" where
  "lift_op lay f param r =
     (case find_disk lay param of
        None \<Rightarrow> (0, Inl Fault)
      | Some disk \<Rightarrow> (case bindE r (f disk) of Inl e \<Rightarrow> (0, Inl e) | Inr (v, s) \<Rightarrow> (v, Inr s)))"

definition ide_ops :: "device \<Rightarrow> env \<Rightarrow> layout \<Rightarrow> (machine result) block_operations" where
  "ide_ops dev env lay =
     \<lparr>op_read = (\<lambda>buf k param. lift_op lay (ide_read dev env buf k) param),
      op_write = (\<lambda>buf k param. lift_op lay (ide_write dev env buf k) param)\<rparr>"

definition init_disk :: "layout \<Rightarrow> u32 \<Rightarrow> u32 \<Rightarrow> machine \<times> machine result blocks \<Rightarrow> machine \<times> machine result blocks" where
  "init_disk lay c d = (\<lambda>(s, b).
     let name = format_text [Lit 104, Lit 100, Conv False [] None 99] [97 + c * NR_ATA_DISKS + d];
         s = upd_disk c d (\<lambda>k. k\<lparr>dev_no := d, disk_name := name\<rparr>) s
     in (s, b\<lparr>bmem := put_text (disk_addr lay c d) name (bmem b)\<rparr>))"

definition register_disk :: "device \<Rightarrow> env \<Rightarrow> layout \<Rightarrow> u32 \<Rightarrow> u32 \<Rightarrow> machine \<times> machine result blocks \<Rightarrow> (machine \<times> machine result blocks) result" where
  "register_disk dev env lay c d = (\<lambda>(s, b).
     if is_ata_disk (disk_of c d s)
     then bindE (identify_ata_device dev env (id_buf lay) c d s) (\<lambda>s.
       bindE (spin (block_register (blk_addr lay (c * NR_ATA_DISKS + d)) (disk_addr lay c d)
         (disk_sectors (disk_of c d s)) (ide_ops dev env lay) (disk_addr lay c d) b)) (\<lambda>(p, b). Inr (s, b)))
     else Inr (s, b))"

definition chan_reg_bases :: "u32 \<Rightarrow> u16" where
  "chan_reg_bases c = (if c = 0 then 0x1f0 else 0x170)"

definition chan_irqs :: "u32 \<Rightarrow> u16" where
  "chan_irqs c = (if c = 0 then 14 + 0x20 else 15 + 0x20)"

definition init_adaptor :: "device \<Rightarrow> env \<Rightarrow> layout \<Rightarrow> u32 \<Rightarrow> machine \<times> machine result blocks \<Rightarrow> (machine \<times> machine result blocks) result" where
  "init_adaptor dev env lay c = (\<lambda>(s, b).
     let s = s\<lparr>channels := (channels s)(c := (channels s c)
               \<lparr>chan_name := format_text [Lit 105, Lit 100, Lit 101, Conv False [] None 100] [c],
                reg_base := chan_reg_bases c, irq := chan_irqs c,
                chan_slock := spin_lock_init (chan_slock (channels s c))\<rparr>)\<rparr>;
         s = s\<lparr>krn := sema_init (sema_wait (channels s c)) 0 (krn s)\<rparr>;
         s = s\<lparr>krn := sema_init (sema_rw (channels s c)) 1 (krn s)\<rparr>;
         (s, b) = init_disk lay c 1 (init_disk lay c 0 (s, b));
         s = s\<lparr>gates := set_interrupt_gate (ucast (chan_irqs c)) ide_interrupt (gates s)\<rparr>;
         s = reset_adaptor dev c s;
         (more, s) = check_disk_type dev c 0 s;
         s = (if more then snd (check_disk_type dev c 1 s) else s)
     in bindE (register_disk dev env lay c 0 (s, b)) (register_disk dev env lay c 1))"

definition ide_init :: "device \<Rightarrow> env \<Rightarrow> layout \<Rightarrow> machine \<times> machine result blocks \<Rightarrow> (machine \<times> machine result blocks) result" where
  "ide_init dev env lay sb = bindE (init_adaptor dev env lay 0 sb) (init_adaptor dev env lay 1)"

end
