(* ===== verification/Ide_Props.thy ===== *)
theory Ide_Props
  imports Ide Kernel_Props
begin

text \<open>
  What the disk driver asks of the drive and what it gives back. The command block of an ATA
  channel is a small register file (\<open>taskfile\<close>): a write to the command register issues a
  request for the drive and sector the other registers hold at that moment. The properties
  read the port history of the driver through it.
\<close>

section \<open>Frames\<close>

lemma machine_frames [simp]:
  "hist (sys_log f a s) = hist s" "channels (sys_log f a s) = channels s" "sys_mem (sys_log f a s) = sys_mem s"
  "hist (sys_out p v s) = hist s @ [OutB p v]" "channels (sys_out p v s) = channels s"
  "sys_mem (sys_out p v s) = sys_mem s" "krn (sys_out p v s) = krn s"
  "ide_udelay n s = s"
  by (simp_all add: sys_log_def sys_out_def sys_mem_def outb_def printk_mm_def ide_udelay_def)

lemma sys_in_eq: "sys_in dev p s = (ucast (dev (hist s) p), s\<lparr>hist := hist s @ [InB p (ucast (dev (hist s) p))]\<rparr>)"
  by (simp add: sys_in_def inb_def Let_def)

lemma hist_update_frames [simp]:
  "sys_mem (s\<lparr>hist := h\<rparr>) = sys_mem s" "disk_of c d (s\<lparr>hist := h\<rparr>) = disk_of c d s"
  "disk_of c d (sys_out p v s) = disk_of c d s" "disk_of c d (sys_log f a s) = disk_of c d s"
  by (simp_all add: sys_mem_def disk_of_def)

lemma issue_frames [simp]:
  "hist (issue_pio_cmd c cmd s) = hist s @ [OutB (reg_command (channels s c)) cmd]"
  "channels (issue_pio_cmd c cmd s) = channels s" "sys_mem (issue_pio_cmd c cmd s) = sys_mem s"
  "krn (issue_pio_cmd c cmd s) = (krn s)\<lparr>intr_on := True\<rparr>"
  by (simp_all add: issue_pio_cmd_def sys_mem_def Let_def)

text \<open>The bytes a number of polls of one port reads.\<close>

fun read_bytes :: "device \<Rightarrow> u16 \<Rightarrow> nat \<Rightarrow> history \<Rightarrow> u8 list" where
  "read_bytes dev port 0 h = []"
| "read_bytes dev port (Suc n) h =
     (let v = ucast (dev h port) in v # read_bytes dev port n (h @ [InB port v]))"

lemma length_read_bytes [simp]: "length (read_bytes dev port n h) = n"
  by (induction n arbitrary: h) (simp_all add: Let_def)

definition busy :: "u8 \<Rightarrow> bool" where
  "busy v \<longleftrightarrow> v AND STA_BSY \<noteq> 0"

definition drq :: "u8 \<Rightarrow> bool" where
  "drq v \<longleftrightarrow> v AND STA_DRQ \<noteq> 0"

lemma busy_poll: "wait_busy_loop dev c (Suc n) s =
   (let p = reg_alt_status (channels s c); v = ucast (dev (hist s) p); s1 = s\<lparr>hist := hist s @ [InB p v]\<rparr>
    in if \<not> busy v
       then (drq (ucast (dev (hist s1) p)),
             sys_log ''ok\<newline>'' [] s1\<lparr>hist := hist s1 @ [InB p (ucast (dev (hist s1) p))]\<rparr>)
       else wait_busy_loop dev c n s1)"
  by (simp add: sys_in_eq Let_def busy_def drq_def sys_log_def)

text \<open>How many polls find the drive busy, and the bytes the wait reads in all.\<close>

definition busy_polls :: "device \<Rightarrow> u16 \<Rightarrow> nat \<Rightarrow> history \<Rightarrow> nat" where
  "busy_polls dev p n h = length (takeWhile busy (read_bytes dev p n h))"

definition polled :: "device \<Rightarrow> u16 \<Rightarrow> nat \<Rightarrow> history \<Rightarrow> u8 list" where
  "polled dev p n h = (let k = busy_polls dev p n h in read_bytes dev p (if k < n then k + 2 else n) h)"

definition ready :: "device \<Rightarrow> u16 \<Rightarrow> nat \<Rightarrow> history \<Rightarrow> bool" where
  "ready dev p n h \<longleftrightarrow> busy_polls dev p n h < n \<and> drq (last (polled dev p n h))"

lemma busy_polls_Suc:
  "busy_polls dev p (Suc n) h =
    (let v = ucast (dev h p) in if busy v then Suc (busy_polls dev p n (h @ [InB p v])) else 0)"
  by (simp add: busy_polls_def Let_def)

lemma polled_Suc:
  "polled dev p (Suc n) h =
    (let v = ucast (dev h p); h1 = h @ [InB p v]
     in if busy v then v # polled dev p n h1 else [v, ucast (dev h1 p)])"
  by (auto simp: polled_def busy_polls_Suc Let_def numeral_2_eq_2)

lemma polled_nonempty: "busy_polls dev p n h < n \<Longrightarrow> polled dev p n h \<noteq> []"
  by (auto simp: polled_def Let_def)

lemma ready_Suc:
  "ready dev p (Suc n) h =
    (let v = ucast (dev h p); h1 = h @ [InB p v]
     in if busy v then ready dev p n h1 else drq (ucast (dev h1 p)))"
  by (auto simp: ready_def busy_polls_Suc polled_Suc Let_def polled_nonempty)

lemma length_polled: "length (polled dev p n h) \<le> Suc n"
  by (induction n arbitrary: h) (auto simp: polled_Suc Let_def, simp add: polled_def)

definition same_but_log :: "machine \<Rightarrow> machine \<Rightarrow> bool" where
  "same_but_log s s' \<longleftrightarrow> channels s' = channels s \<and> sys_mem s' = sys_mem s \<and> gates s' = gates s \<and>
     semas (krn s') = semas (krn s) \<and> links (krn s') = links (krn s)"

lemma same_but_log_refl [simp]: "same_but_log s s"
  by (simp add: same_but_log_def)

lemma same_but_log_trans: "same_but_log s t \<Longrightarrow> same_but_log t u \<Longrightarrow> same_but_log s u"
  by (simp add: same_but_log_def)

lemma same_but_log_log [simp]: "same_but_log s (sys_log f a s') = same_but_log s s'"
  by (simp add: same_but_log_def) (simp add: sys_log_def)

lemma same_but_log_sys_log [simp]: "same_but_log (sys_log f a s) s' = same_but_log s s'"
  by (simp add: same_but_log_def) (simp add: sys_log_def)

lemma same_but_log_out [simp]: "same_but_log s (sys_out p v s') = same_but_log s s'"
  by (simp add: same_but_log_def sys_out_def sys_mem_def)

lemma same_but_log_hist [simp]: "same_but_log (s\<lparr>hist := h\<rparr>) s' = same_but_log s s'" "same_but_log s (s'\<lparr>hist := h\<rparr>) = same_but_log s s'"
  by (simp_all add: same_but_log_def)

lemma wait_busy_loop_spec:
  assumes "p = reg_alt_status (channels s c)"
  shows "fst (wait_busy_loop dev c n s) = ready dev p n (hist s) \<and>
    hist (snd (wait_busy_loop dev c n s)) = hist s @ map (InB p) (polled dev p n (hist s)) \<and>
    same_but_log s (snd (wait_busy_loop dev c n s))"
  using assms
proof (induction n arbitrary: s)
  case 0
  show ?case by (simp add: ready_def polled_def Let_def)
next
  case (Suc n)
  let ?s1 = "s\<lparr>hist := hist s @ [InB p (ucast (dev (hist s) p))]\<rparr>"
  have "p = reg_alt_status (channels ?s1 c)" using Suc.prems by simp
  note IH = Suc.IH [OF this]
  show ?case
    using IH unfolding busy_poll [of dev c n s] Suc.prems [symmetric] ready_Suc polled_Suc Let_def
    by simp
qed

lemma wait_while_busy_spec:
  assumes "wait_while_busy dev c d s = (ok, s')"
  shows "ok = ready dev (reg_alt_status (channels s c)) 3000 (hist s) \<and>
    hist s' = hist s @ map (InB (reg_alt_status (channels s c)))
      (polled dev (reg_alt_status (channels s c)) 3000 (hist s)) \<and> same_but_log s s'"
  using wait_busy_loop_spec [OF refl, of dev c 3000 "sys_log ''busy waiting %s '' (map ucast (disk_name (disk_of c d s))) s"] assms
  unfolding wait_while_busy_def by simp

text \<open>A wait for an idle drive only reads its status register.\<close>

definition polls_only :: "u16 \<Rightarrow> machine \<Rightarrow> machine \<Rightarrow> bool" where
  "polls_only p s s' \<longleftrightarrow> same_but_log s s' \<and> (\<exists>vs. hist s' = hist s @ map (InB p) vs \<and> length vs \<le> 1000)"

lemma wait_idle_loop_polls:
  "same_but_log s (wait_idle_loop dev c d n s) \<and>
   (\<exists>vs. hist (wait_idle_loop dev c d n s) = hist s @ map (InB (reg_status (channels s c))) vs \<and> length vs \<le> n)"
proof (induction n arbitrary: s)
  case 0
  show ?case by simp
next
  case (Suc n)
  let ?p = "reg_status (channels s c)" and ?v = "ucast (dev (hist s) (reg_status (channels s c))) :: u8"
  let ?s1 = "s\<lparr>hist := hist s @ [InB ?p ?v]\<rparr>"
  obtain vs where vs: "hist (wait_idle_loop dev c d n ?s1) = hist s @ InB ?p ?v # map (InB ?p) vs" "length vs \<le> n"
    using Suc.IH [of ?s1] by auto
  have step: "wait_idle_loop dev c d (Suc n) s =
      (if ?v AND (STA_BSY OR STA_DRQ) = 0 then ?s1 else wait_idle_loop dev c d n ?s1)"
    by (simp add: sys_in_eq Let_def)
  have "\<exists>ws. hist (wait_idle_loop dev c d (Suc n) s) = hist s @ map (InB ?p) ws \<and> length ws \<le> Suc n"
    unfolding step using vs by (intro exI [of _ "if ?v AND (STA_BSY OR STA_DRQ) = 0 then [?v] else ?v # vs"]) simp
  then show ?case unfolding step using Suc.IH [of ?s1] by simp
qed

lemma wait_until_idle_polls: "polls_only (reg_status (channels s c)) s (wait_until_idle dev c d s)"
  using wait_idle_loop_polls [of s dev c d 1000] by (simp add: polls_only_def wait_until_idle_def)

section \<open>The drive's side\<close>

record taskfile =
  tf_nsect :: u8
  tf_lbal :: u8
  tf_lbam :: u8
  tf_lbah :: u8
  tf_device :: u8
  issued :: "(u8 \<times> bool \<times> nat \<times> u8) list"

text \<open>A request: the command, the second drive or not, the sector (28 bits), the number of sectors.\<close>

definition tf_lba :: "taskfile \<Rightarrow> nat" where
  "tf_lba t = unat (tf_lbal t) + 256 * unat (tf_lbam t) + 65536 * unat (tf_lbah t) + 16777216 * (unat (tf_device t) mod 16)"

fun ata_event :: "u16 \<Rightarrow> io_event \<Rightarrow> taskfile \<Rightarrow> taskfile" where
  "ata_event b (OutB p v) t =
     (if p = b + 2 then t\<lparr>tf_nsect := v\<rparr> else if p = b + 3 then t\<lparr>tf_lbal := v\<rparr>
      else if p = b + 4 then t\<lparr>tf_lbam := v\<rparr> else if p = b + 5 then t\<lparr>tf_lbah := v\<rparr>
      else if p = b + 6 then t\<lparr>tf_device := v\<rparr>
      else if p = b + 7 then t\<lparr>issued := issued t @ [(v, bit (tf_device t) 4, tf_lba t, tf_nsect t)]\<rparr>
      else t)"
| "ata_event b _ t = t"

lemma fold_reads [simp]: "fold (ata_event b) (map (InB p) vs) t = t"
  by (induction vs arbitrary: t) simp_all

lemma fold_words [simp]: "fold (ata_event b) (map (InW p) ws) t = t"
  by (induction ws arbitrary: t) simp_all

lemma fold_out_words [simp]: "fold (ata_event b) (map (\<lambda>i. OutW p (f i)) is) t = t"
  by (induction "is" arbitrary: t) simp_all

text \<open>Its address bytes are those of the sector number; its top four bits are the drive and the mode.\<close>

lemma lba_bytes:
  fixes w :: u32
  shows "unat (ucast w :: u8) + 256 * unat (ucast (drop_bit 8 w) :: u8) + 65536 * unat (ucast (drop_bit 16 w) :: u8)
    = unat w mod 16777216"
proof -
  have "unat (ucast w :: u8) = unat w mod 256" "unat (ucast (drop_bit 8 w) :: u8) = unat w div 256 mod 256"
    "unat (ucast (drop_bit 16 w) :: u8) = unat w div 65536 mod 256"
    by (simp_all add: unsigned_ucast_eq take_bit_eq_mod unat_drop)
  moreover have "n mod 256 + 256 * (n div 256 mod 256) + 65536 * (n div 65536 mod 256) = n mod 16777216" for n :: nat
  proof -
    have "n mod 16777216 = n mod (65536 * 256)" "n mod 65536 = n mod (256 * 256)" by simp_all
    then show ?thesis by (simp only: mod_mult2_eq)
  qed
  ultimately show ?thesis by simp
qed

definition device_byte :: "bool \<Rightarrow> u32 \<Rightarrow> u8" where
  "device_byte slave n = ucast (0xa0 OR 0x40 OR (if slave then 0x10 else 0) OR drop_bit 24 n :: u32)"

lemma device_byte_bits:
  "bit (device_byte slave n) 4 \<longleftrightarrow> slave \<or> bit n 28"
  "unat (device_byte slave n) mod 16 = unat n div 16777216 mod 16"
proof -
  have low: "\<not> bit (0xa0 :: int) i" "\<not> bit (0x40 :: int) i" "\<not> bit (0x10 :: int) i" if "i < 4" for i
  proof -
    have "i = 0 \<or> i = 1 \<or> i = 2 \<or> i = 3" using that by arith
    then show "\<not> bit (0xa0 :: int) i" "\<not> bit (0x40 :: int) i" "\<not> bit (0x10 :: int) i" by auto
  qed
  show "bit (device_byte slave n) 4 \<longleftrightarrow> slave \<or> bit n 28"
    by (auto simp: device_byte_def bit_simps)
  have "take_bit 4 (device_byte slave n) = take_bit 4 (ucast (drop_bit 24 n))"
    by (rule bit_word_eqI) (auto simp: device_byte_def bit_simps low)
  then have "take_bit 4 (unat (device_byte slave n)) = take_bit 4 (unat (ucast (drop_bit 24 n) :: u8))"
    by (metis unsigned_take_bit_eq)
  then show "unat (device_byte slave n) mod 16 = unat n div 16777216 mod 16"
    by (simp add: unsigned_ucast_eq take_bit_eq_mod unat_drop mod_mod_cancel)
qed


section \<open>Requests\<close>

text \<open>
  Everything the driver writes from one state to another, as the drive sees it, and what it
  leaves alone. \<open>request\<close> is the drive's register file after a command for one sector.
\<close>

definition steps_to :: "machine \<Rightarrow> machine \<Rightarrow> io_event list \<Rightarrow> bool" where
  "steps_to s s' evs \<longleftrightarrow> hist s' = hist s @ evs \<and> channels s' = channels s \<and> sys_mem s' = sys_mem s"

lemma steps_to_trans: "steps_to s t e \<Longrightarrow> steps_to t u f \<Longrightarrow> steps_to s u (e @ f)"
  by (simp add: steps_to_def)

lemma steps_to_polls: "polls_only p s t \<Longrightarrow> \<exists>vs. steps_to s t (map (InB p) vs)"
  by (auto simp: polls_only_def steps_to_def same_but_log_def)

lemma steps_to_out: "steps_to s (sys_out p v s) [OutB p v]"
  by (simp add: steps_to_def)

lemma steps_to_issue: "steps_to s (issue_pio_cmd c cmd s) [OutB (reg_command (channels s c)) cmd]"
  by (simp add: steps_to_def)

lemma steps_to_disk: "steps_to s t e \<Longrightarrow> disk_of c d t = disk_of c d s"
  by (simp add: steps_to_def disk_of_def)

text \<open>The taskfile a list of events leaves, from the one before.\<close>

abbreviation taskfile_after :: "u16 \<Rightarrow> io_event list \<Rightarrow> taskfile \<Rightarrow> taskfile" where
  "taskfile_after b evs t \<equiv> fold (ata_event b) evs t"

definition slave :: "u32 \<Rightarrow> u32 \<Rightarrow> machine \<Rightarrow> bool" where
  "slave c d s \<longleftrightarrow> dev_no (disk_of c d s) = 1"

lemma select_disk_steps:
  "steps_to s (select_disk c d s) [OutB (reg_device (channels s c)) (if slave c d s then DEV_MBS OR DEV_DEV else DEV_MBS)]"
  by (simp add: select_disk_def Let_def steps_to_def slave_def)

lemma select_disk_wait_steps:
  obtains vs ws where "steps_to s (select_disk_wait dev c d s)
    (map (InB (reg_status (channels s c))) vs @
     [OutB (reg_device (channels s c)) (if slave c d s then DEV_MBS OR DEV_DEV else DEV_MBS)] @
     map (InB (reg_status (channels s c))) ws)"
proof -
  let ?a = "wait_until_idle dev c d s"
  let ?b = "select_disk c d ?a"
  obtain vs where 1: "steps_to s ?a (map (InB (reg_status (channels s c))) vs)"
    using steps_to_polls [OF wait_until_idle_polls] by blast
  have a: "channels ?a = channels s" "slave c d ?a = slave c d s"
    using 1 steps_to_disk [OF 1] by (simp_all add: steps_to_def slave_def)
  note 2 = select_disk_steps [of ?a c d, unfolded a]
  have b: "channels ?b = channels s" using 2 a by (simp add: steps_to_def)
  obtain ws where 3: "steps_to ?b (wait_until_idle dev c d ?b) (map (InB (reg_status (channels s c))) ws)"
    using steps_to_polls [OF wait_until_idle_polls [of ?b c dev d]] b by auto
  show ?thesis
    using that [of vs ws] steps_to_trans [OF steps_to_trans [OF 1 2] 3] by (simp add: select_disk_wait_def)
qed

lemma select_sector_steps:
  obtains evs where "steps_to s (select_sector dev c d n s) evs"
    "\<And>t. taskfile_after (reg_base (channels s c)) evs t =
       t\<lparr>tf_nsect := 1, tf_lbal := ucast n, tf_lbam := ucast (drop_bit 8 n), tf_lbah := ucast (drop_bit 16 n),
         tf_device := device_byte (slave c d s) n\<rparr>"
proof -
  let ?w = "select_disk_wait dev c d s" and ?ch = "channels s c"
  obtain vs ws where 1: "steps_to s ?w
    (map (InB (reg_status ?ch)) vs @ [OutB (reg_device ?ch) (if slave c d s then DEV_MBS OR DEV_DEV else DEV_MBS)] @
     map (InB (reg_status ?ch)) ws)" (is "steps_to s ?w ?e1")
    by (rule select_disk_wait_steps)
  have w: "channels ?w = channels s" "slave c d ?w = slave c d s"
    using 1 steps_to_disk [OF 1] by (simp_all add: steps_to_def slave_def)
  let ?e2 = "[OutB (reg_nsect ?ch) 1, OutB (reg_lbal ?ch) (ucast n), OutB (reg_lbam ?ch) (ucast (drop_bit 8 n)),
    OutB (reg_lbah ?ch) (ucast (drop_bit 16 n)), OutB (reg_device ?ch) (device_byte (slave c d s) n)]"
  have "steps_to ?w (select_sector dev c d n s) ?e2"
    using w by (simp add: select_sector_def Let_def steps_to_def slave_def device_byte_def)
  then have "steps_to s (select_sector dev c d n s) (?e1 @ ?e2)" by (rule steps_to_trans [OF 1])
  moreover have "taskfile_after (reg_base ?ch) (?e1 @ ?e2) t =
      t\<lparr>tf_nsect := 1, tf_lbal := ucast n, tf_lbam := ucast (drop_bit 8 n), tf_lbah := ucast (drop_bit 16 n),
        tf_device := device_byte (slave c d s) n\<rparr>" for t
    by (simp add: reg_defs)
  ultimately show ?thesis by (rule that)
qed

text \<open>
  What the drive is asked: the sector modulo 2^28 of the drive the device byte names, which
  is the second one also when bit 28 of the sector number is set.
\<close>

lemma tf_lba_request:
  "tf_lba (t\<lparr>tf_nsect := k, tf_lbal := ucast n, tf_lbam := ucast (drop_bit 8 n), tf_lbah := ucast (drop_bit 16 n),
     tf_device := device_byte b n\<rparr>) = unat (n :: u32) mod 268435456"
proof -
  have "unat n mod 16777216 + 16777216 * (unat n div 16777216 mod 16) = unat n mod (16777216 * 16)"
    by (simp only: mod_mult2_eq)
  then show ?thesis
    using lba_bytes [of n] by (simp add: tf_lba_def device_byte_bits)
qed

lemma request_steps:
  obtains evs where "steps_to s (issue_pio_cmd c cmd (select_sector dev c d n s)) evs"
    "\<And>t. issued (taskfile_after (reg_base (channels s c)) evs t) =
       issued t @ [(cmd, slave c d s \<or> bit n 28, unat n mod 268435456, 1)]"
proof -
  let ?t = "select_sector dev c d n s"
  obtain evs where e: "steps_to s ?t evs"
    "\<And>t. taskfile_after (reg_base (channels s c)) evs t =
       t\<lparr>tf_nsect := 1, tf_lbal := ucast n, tf_lbam := ucast (drop_bit 8 n), tf_lbah := ucast (drop_bit 16 n),
         tf_device := device_byte (slave c d s) n\<rparr>"
    using select_sector_steps [of s dev c d n] by blast
  have ch: "channels ?t = channels s" using e(1) by (simp add: steps_to_def)
  have "steps_to s (issue_pio_cmd c cmd ?t) (evs @ [OutB (reg_command (channels s c)) cmd])"
    using steps_to_trans [OF e(1) steps_to_issue [of ?t c cmd]] ch by simp
  moreover have "issued (taskfile_after (reg_base (channels s c)) (evs @ [OutB (reg_command (channels s c)) cmd]) t) =
      issued t @ [(cmd, slave c d s \<or> bit n 28, unat n mod 268435456, 1)]" for t
    by (simp add: e(2) reg_defs tf_lba_request device_byte_bits)
  ultimately show ?thesis by (rule that)
qed

section \<open>Reading and writing\<close>

lemma sema_up_pages: "sema_up a k = Inr k' \<Longrightarrow> pages k' = pages k"
  by (auto simp: sema_up_def lock_sema_def task_resume_def lock_list_def unlock_list_def unlock_sema_def
      upd_links_def upd_task_def Let_def split: if_splits prod.splits)

lemma up_steps:
  assumes "up a s = Inr s'"
  shows "steps_to s s' []"
  using assms by (auto simp: up_def steps_to_def sys_mem_def dest: sema_up_pages)

lemma down_channels:
  assumes "\<And>s s'. env s = Inr s' \<Longrightarrow> channels s' = channels s" "down env a s = Inr s'"
  shows "channels s' = channels s"
proof -
  from assms(2) obtain k where
    "(if current k = current (krn s) then Inr (s\<lparr>krn := k\<rparr>) else env (s\<lparr>krn := k\<rparr>)) = Inr s'"
    unfolding down_def by (rule bindE_InrE)
  then show ?thesis using assms(1) [of "s\<lparr>krn := k\<rparr>" s'] by (auto split: if_splits)
qed

lemma input_sector_steps:
  fixes dev :: device and s :: machine and c buf :: u32
  assumes "unat buf + 512 < 4294967296"
  defines "ws \<equiv> read_words dev (reg_data (channels s c)) 256 (hist s)"
  shows "hist (input_sector dev c buf s) = hist s @ map (InW (reg_data (channels s c))) ws"
    "channels (input_sector dev c buf s) = channels s"
    "i < 256 \<Longrightarrow> load16 (sys_mem (input_sector dev c buf s)) (buf + 2 * of_nat i) = ws ! i"
    "unat x < unat buf \<or> unat buf + 512 \<le> unat x \<Longrightarrow> sys_mem (input_sector dev c buf s) x = sys_mem s x"
proof -
  let ?p = "reg_data (channels s c)"
  have in_eq: "input_sector dev c buf s = set_mem (fst (insw dev ?p buf 256 (sys_mem s, hist s)))
      (s\<lparr>hist := snd (insw dev ?p buf 256 (sys_mem s, hist s))\<rparr>)"
    by (simp add: input_sector_def case_prod_beta)
  have mem: "sys_mem (input_sector dev c buf s) = fst (insw dev ?p buf 256 (sys_mem s, hist s))"
    unfolding in_eq by (simp add: set_mem_def sys_mem_def)
  show "hist (input_sector dev c buf s) = hist s @ map (InW ?p) ws"
    unfolding in_eq ws_def by (simp add: set_mem_def insw_history)
  show "channels (input_sector dev c buf s) = channels s" unfolding in_eq by (simp add: set_mem_def)
  show "i < 256 \<Longrightarrow> load16 (sys_mem (input_sector dev c buf s)) (buf + 2 * of_nat i) = ws ! i"
    unfolding mem ws_def using assms(1) by (intro insw_words) simp_all
  show "unat x < unat buf \<or> unat buf + 512 \<le> unat x \<Longrightarrow> sys_mem (input_sector dev c buf s) x = sys_mem s x"
    unfolding mem using assms(1) by (intro insw_other) simp_all
qed

text \<open>The drive was asked for one sector: \<open>n\<close> modulo 2^28, of the drive the device byte selects.\<close>

definition asks :: "u8 \<Rightarrow> u32 \<Rightarrow> u32 \<Rightarrow> u32 \<Rightarrow> machine \<Rightarrow> io_event list \<Rightarrow> bool" where
  "asks cmd c d n s evs \<longleftrightarrow> (\<forall>t. issued (taskfile_after (reg_base (channels s c)) evs t) =
     issued t @ [(cmd, slave c d s \<or> bit n 28, unat n mod 268435456, 1)])"

lemma request_asks:
  obtains evs where "steps_to s (issue_pio_cmd c cmd (select_sector dev c d n s)) evs" "asks cmd c d n s evs"
  using request_steps [of s c cmd dev d n] unfolding asks_def by blast

text \<open>Below 2^28 that is the sector itself, of the disk itself.\<close>

definition asks_sector :: "u8 \<Rightarrow> u32 \<Rightarrow> u32 \<Rightarrow> u32 \<Rightarrow> machine \<Rightarrow> io_event list \<Rightarrow> bool" where
  "asks_sector cmd c d n s evs \<longleftrightarrow> (\<forall>t. issued (taskfile_after (reg_base (channels s c)) evs t) =
     issued t @ [(cmd, slave c d s, unat n, 1)])"

lemma asks_small:
  assumes "asks cmd c d n s evs" "unat n < 268435456"
  shows "asks_sector cmd c d n s evs"
proof -
  have "\<not> bit (unat n) 28" using assms(2) by (simp add: bit_iff_odd)
  then have "\<not> bit n 28" by (simp add: bit_unsigned_iff)
  then show ?thesis using assms by (simp add: asks_def asks_sector_def)
qed

lemma asks_cong: "channels s' = channels s \<Longrightarrow> asks cmd c d n s' evs = asks cmd c d n s evs"
  by (simp add: asks_def slave_def disk_of_def)

text \<open>The polls of the alternate status register after state \<open>s\<close>, and the events they are.\<close>

abbreviation ready_at :: "device \<Rightarrow> u32 \<Rightarrow> machine \<Rightarrow> bool" where
  "ready_at dev c s \<equiv> ready dev (reg_alt_status (channels s c)) 3000 (hist s)"

abbreviation polls_at :: "device \<Rightarrow> u32 \<Rightarrow> machine \<Rightarrow> io_event list" where
  "polls_at dev c s \<equiv> map (InB (reg_alt_status (channels s c))) (polled dev (reg_alt_status (channels s c)) 3000 (hist s))"

lemma wait_while_busy_steps:
  assumes "wait_while_busy dev c d s = (ok, s')"
  shows "ok = ready_at dev c s" "steps_to s s' (polls_at dev c s)"
  using wait_while_busy_spec [OF assms] by (simp_all add: steps_to_def same_but_log_def)

text \<open>After the wait: what a read does with the drive's answer.\<close>

definition read_answer :: "device \<Rightarrow> u32 \<Rightarrow> u32 \<Rightarrow> machine \<Rightarrow> u32 \<Rightarrow> machine \<Rightarrow> bool" where
  "read_answer dev buf c s ret s' \<longleftrightarrow>
     (if ready_at dev c s
      then (let ws = read_words dev (reg_data (channels s c)) 256 (hist s @ polls_at dev c s)
            in ret = 512 \<and> hist s' = hist s @ polls_at dev c s @ map (InW (reg_data (channels s c))) ws \<and>
               (\<forall>i<256. load16 (sys_mem s') (buf + 2 * of_nat i) = ws ! i) \<and>
               (\<forall>x. unat x < unat buf \<or> unat buf + 512 \<le> unat x \<longrightarrow> sys_mem s' x = sys_mem s x))
      else ret = - 1 \<and> hist s' = hist s @ polls_at dev c s \<and> sys_mem s' = sys_mem s)"

lemma read_finish:
  assumes run: "(let (ok, s) = wait_while_busy dev c d s;
      (ret, s) = (if ok then (BLOCK_SECTOR_SIZE, input_sector dev c buf s) else (- 1, s))
    in bindE (up (sema_rw (channels s c)) s) (\<lambda>s. Inr (ret, s))) = Inr (ret, s')"
    and buf: "unat buf + 512 < 4294967296"
  shows "read_answer dev buf c s ret s'"
proof -
  obtain ok t where w: "wait_while_busy dev c d s = (ok, t)" by fastforce
  note W = wait_while_busy_steps [OF w]
  have ct: "channels t = channels s" using W(2) by (simp add: steps_to_def)
  show ?thesis
  proof (cases ok)
    case True
    with run w have "bindE (up (sema_rw (channels (input_sector dev c buf t) c)) (input_sector dev c buf t))
        (\<lambda>s. Inr (512, s)) = Inr (ret, s')"
      by simp
    then have "steps_to (input_sector dev c buf t) s' []" "ret = 512" by (auto dest: up_steps)
    then show ?thesis
      using True W ct input_sector_steps [OF buf, where dev = dev and s = t and c = c] by (simp add: read_answer_def steps_to_def Let_def)
  next
    case False
    with run w have "bindE (up (sema_rw (channels t c)) t) (\<lambda>s. Inr (- 1, s)) = Inr (ret, s')" by simp
    then have "steps_to t s' []" "ret = - 1" by (auto dest: up_steps)
    then show ?thesis using False W by (simp add: read_answer_def steps_to_def)
  qed
qed

text \<open>
  A sector read, from a state \<open>s\<close>: once the adaptor's mutex is taken (\<open>s1\<close>), the driver
  issues exactly one READ command, for one sector, and waits for its interrupt; when it is
  woken (\<open>s2\<close>) it polls the status at most 3001 times. If the drive has data the call
  returns 512, the 256 words read from the data register are the buffer's contents, in
  order, and no other memory has changed; otherwise it returns -1 and has written nothing.
  The sector asked for is \<open>sect_no\<close> modulo 2^28 of this disk, or of the channel's second disk
  when bit 28 of \<open>sect_no\<close> is set. While it waits anything may run that leaves the adaptors'
  configuration alone.
\<close>

theorem ide_read_transfers:
  assumes env: "\<And>s s'. env s = Inr s' \<Longrightarrow> channels s' = channels s"
    and run: "ide_read dev env buf sect_no (c, d) s = Inr (ret, s')"
    and buf: "unat buf + 512 < 4294967296"
  shows "\<exists>s1 req sq s2. down env (sema_rw (channels s c)) s = Inr s1 \<and>
    steps_to s1 sq req \<and> asks 0x20 c d sect_no s req \<and> down env (sema_wait (channels s c)) sq = Inr s2 \<and>
    length (polls_at dev c s2) \<le> 3001 \<and> read_answer dev buf c s2 ret s'"
proof -
  let ?ch = "channels s c" and ?rq = "\<lambda>s. issue_pio_cmd c CMD_READ_SECTOR_RETRY (select_sector dev c d sect_no s)"
  from run obtain s1 where d1: "down env (sema_rw ?ch) s = Inr s1"
    and r1: "bindE (down env (sema_wait (channels (?rq s1) c)) (?rq s1)) (\<lambda>s.
          let (ok, s) = wait_while_busy dev c d s;
              (ret, s) = (if ok then (BLOCK_SECTOR_SIZE, input_sector dev c buf s) else (- 1, s))
          in bindE (up (sema_rw (channels s c)) s) (\<lambda>s. Inr (ret, s))) = Inr (ret, s')"
    by (auto simp: ide_read_def Let_def)
  have c1: "channels s1 = channels s" by (rule down_channels [OF env d1])
  obtain req where q: "steps_to s1 (?rq s1) req" "asks 0x20 c d sect_no s1 req" by (rule request_asks)
  have cq: "channels (?rq s1) = channels s" using q(1) c1 by (simp add: steps_to_def)
  obtain s2 where d2: "down env (sema_wait ?ch) (?rq s1) = Inr s2" and a: "read_answer dev buf c s2 ret s'"
    using r1 read_finish [OF _ buf] unfolding cq by blast
  have "length (polls_at dev c s2) \<le> 3001" using length_polled [of dev _ 3000 "hist s2"] by simp
  then show ?thesis
    using d1 q(1) q(2) [unfolded asks_cong [OF c1]] d2 a by blast
qed

text \<open>
  A sector write: the driver takes the adaptor's mutex, issues exactly one WRITE command
  for one sector and polls at most 3001 times. If the drive is ready for data it writes the
  256 words of the buffer to the data register, in order, waits for the interrupt and
  returns 512; otherwise it returns -1 and sends no data. The driver changes no memory.
\<close>

theorem ide_write_transfers:
  assumes env: "\<And>s s'. env s = Inr s' \<Longrightarrow> channels s' = channels s"
    and run: "ide_write dev env buf sect_no (c, d) s = Inr (ret, s')"
  shows "\<exists>s1 req sq. down env (sema_rw (channels s c)) s = Inr s1 \<and>
    steps_to s1 sq req \<and> asks 0x30 c d sect_no s req \<and> length (polls_at dev c sq) \<le> 3001 \<and>
    (if ready_at dev c sq
     then (\<exists>sd s2. steps_to sq sd (polls_at dev c sq @
             map (\<lambda>i. OutW (reg_data (channels s c)) (load16 (sys_mem sq) (buf + 2 * of_nat i))) [0..<256]) \<and>
           down env (sema_wait (channels s c)) sd = Inr s2 \<and> steps_to s2 s' [] \<and> ret = 512)
     else steps_to sq s' (polls_at dev c sq) \<and> ret = - 1)"
proof -
  let ?ch = "channels s c" and ?rq = "\<lambda>s. issue_pio_cmd c CMD_WRITE_SECTOR_RETRY (select_sector dev c d sect_no s)"
  from run obtain s1 where d1: "down env (sema_rw ?ch) s = Inr s1"
    and r1: "(let (ok, s) = wait_while_busy dev c d (?rq s1)
       in bindE (if ok then bindE (down env (sema_wait (channels s c)) (output_sector c buf s))
                              (\<lambda>s. Inr (BLOCK_SECTOR_SIZE, s))
                 else Inr (- 1, s))
            (\<lambda>(ret, s). bindE (up (sema_rw (channels s c)) s) (\<lambda>s. Inr (ret, s)))) = Inr (ret, s')"
    by (auto simp: ide_write_def Let_def)
  have c1: "channels s1 = channels s" by (rule down_channels [OF env d1])
  obtain req where q: "steps_to s1 (?rq s1) req" "asks 0x30 c d sect_no s1 req" by (rule request_asks)
  have cq: "channels (?rq s1) = channels s" using q(1) c1 by (simp add: steps_to_def)
  let ?q = "?rq s1"
  obtain ok t where w: "wait_while_busy dev c d ?q = (ok, t)" by fastforce
  note W = wait_while_busy_steps [OF w]
  have ct: "channels t = channels s" "sys_mem t = sys_mem ?q" using W(2) cq by (simp_all add: steps_to_def)
  have len: "length (polls_at dev c ?q) \<le> 3001" using length_polled [of dev _ 3000 "hist ?q"] by simp
  have "if ready_at dev c ?q
     then (\<exists>sd s2. steps_to ?q sd (polls_at dev c ?q @
             map (\<lambda>i. OutW (reg_data ?ch) (load16 (sys_mem ?q) (buf + 2 * of_nat i))) [0..<256]) \<and>
           down env (sema_wait ?ch) sd = Inr s2 \<and> steps_to s2 s' [] \<and> ret = 512)
     else steps_to ?q s' (polls_at dev c ?q) \<and> ret = - 1"
  proof (cases ok)
    case True
    have o: "steps_to t (output_sector c buf t)
        (map (\<lambda>i. OutW (reg_data ?ch) (load16 (sys_mem ?q) (buf + 2 * of_nat i))) [0..<256])"
      by (simp add: output_sector_def steps_to_def outsw_history ct del: upt_rec_numeral)
    from r1 w True ct(1) obtain s2 where "down env (sema_wait ?ch) (output_sector c buf t) = Inr s2"
      "bindE (up (sema_rw (channels s2 c)) s2) (\<lambda>s. Inr (512, s)) = Inr (ret, s')"
      using o by (auto simp: steps_to_def simp del: upt_rec_numeral)
    moreover from this(2) have "steps_to s2 s' []" "ret = 512" by (auto dest: up_steps)
    ultimately show ?thesis using True W steps_to_trans [OF W(2) o] by auto
  next
    case False
    with r1 w have "bindE (up (sema_rw (channels t c)) t) (\<lambda>s. Inr (- 1, s)) = Inr (ret, s')" by simp
    then have "steps_to t s' []" "ret = - 1" by (auto dest: up_steps)
    then show ?thesis using False W steps_to_trans [OF W(2)] by fastforce
  qed
  then show ?thesis
    using d1 q(1) q(2) [unfolded asks_cong [OF c1]] len by blast
qed

section \<open>Identify strings\<close>

text \<open>Memory with the two bytes of each of \<open>k\<close> words exchanged.\<close>

definition swapped :: "u32 \<Rightarrow> nat \<Rightarrow> memory \<Rightarrow> memory" where
  "swapped orig k m = (\<lambda>a. let j = unat (a - orig)
     in if j < 2 * k then m (orig + of_nat (if even j then j + 1 else j - 1)) else m a)"

lemma swapped_0 [simp]: "swapped orig 0 m = m"
  by (simp add: swapped_def fun_eq_iff)

lemma swapped_at:
  assumes "j < 4294967296"
  shows "swapped orig k m (orig + of_nat j) =
    (if j < 2 * k then m (orig + of_nat (if even j then j + 1 else j - 1)) else m (orig + of_nat j))"
  using assms by (simp add: swapped_def unat_of_nat32 Let_def)

lemma swapped_Suc:
  assumes "2 * i + 1 < 4294967296"
  shows "swapped orig (Suc i) m =
    (let s = swapped orig i m; a = orig + of_nat (2 * i)
     in s(a + 1 := s a, a := s (a + 1)))"
proof
  fix x
  define j where "j = unat (x - orig)"
  have x: "x = orig + of_nat j" by (simp add: j_def)
  have j: "j < 4294967296" by (simp add: j_def)
  have eq: "orig + of_nat j = orig + of_nat n \<longleftrightarrow> j = n" if "n < 4294967296" for n
    using j that by (metis add_left_cancel unat_of_nat32)
  have a1: "orig + of_nat (2 * i) + 1 = orig + of_nat (2 * i + 1)" by simp
  consider "j < 2 * i" | "j = 2 * i" | "j = 2 * i + 1" | "2 * i + 1 < j" by linarith
  then show "swapped orig (Suc i) m x =
      (let s = swapped orig i m; a = orig + of_nat (2 * i) in s(a + 1 := s a, a := s (a + 1))) x"
    unfolding Let_def a1 x fun_upd_apply
    using assms j eq [of "2 * i"] eq [of "2 * i + 1"]
    by cases (simp_all add: swapped_at del: of_nat_Suc of_nat_add of_nat_mult)
qed

lemma unat_pred:
  assumes "0 < n" "n < 4294967296"
  shows "unat (of_nat n - 1 :: u32) = n - 1"
proof -
  have "(of_nat n - 1 :: u32) = of_nat (n - 1)" using assms(1) by simp
  then show ?thesis using assms by (simp only: unat_of_nat32)
qed

lemma swap_loop_swapped:
  assumes "i \<le> k" "0 < k" "2 * k < 4294967296"
  shows "swap_loop orig (of_nat (2 * i)) (of_nat (2 * k) - 1) (swapped orig i m) = Some (swapped orig k m)"
  using assms(1)
proof (induction rule: inc_induct)
  have n: "unat (of_nat (2 * k) - 1 :: u32) = 2 * k - 1"
    using assms(2,3) by (intro unat_pred) simp_all
  { case base
    have "\<not> (of_nat (2 * k) :: u32) < of_nat (2 * k) - 1"
      using assms n by (simp add: word_less_nat_alt unat_of_nat32 del: of_nat_mult)
    then show ?case by (subst swap_loop.simps) (simp del: of_nat_mult) }
  { case (step i)
    have lt: "(of_nat (2 * i) :: u32) < of_nat (2 * k) - 1"
      using assms n step(2) by (simp add: word_less_nat_alt unat_of_nat32 del: of_nat_mult)
    have next_i: "(of_nat (2 * i) :: u32) + 2 = of_nat (2 * Suc i)" by simp
    have sw: "2 * i + 1 < 4294967296" using assms(3) step(2) by linarith
    have "swap_loop orig (of_nat (2 * i)) (of_nat (2 * k) - 1) (swapped orig i m) =
        swap_loop orig (of_nat (2 * Suc i)) (of_nat (2 * k) - 1) (swapped orig (Suc i) m)"
      unfolding swapped_Suc [OF sw]
      by (subst swap_loop.simps) (simp only: lt if_True Let_def next_i fun_upd_def)
    then show ?case using step(3) by simp }
qed

lemma trim_loop_spec:
  "trim_loop m orig n \<le> n \<and> (\<forall>j. trim_loop m orig n < j \<and> j \<le> n \<longrightarrow> m (orig + of_nat j) = 0) \<and>
   (0 < trim_loop m orig n \<longrightarrow> m (orig + of_nat (trim_loop m orig n)) \<noteq> 0)"
  by (induction n) (auto simp: le_Suc_eq simp del: of_nat_Suc)

text \<open>
  The text of an identify block, an even number of bytes: the routine returns, exchanges
  the bytes of every word, and then overwrites with a terminator the last byte that is not
  zero (or the first byte if there is none after it), so the text loses its last character;
  nothing else changes.
\<close>

theorem info_string_loses_last_char:
  assumes "0 < k" "2 * k < 4294967296"
  shows "\<exists>t < 2 * k. manipulate_info_string orig (of_nat (2 * k)) m =
      Some ((swapped orig k m)(orig + of_nat t := 0)) \<and>
    (\<forall>j. t < j \<and> j < 2 * k \<longrightarrow> swapped orig k m (orig + of_nat j) = 0) \<and>
    (0 < t \<longrightarrow> swapped orig k m (orig + of_nat t) \<noteq> 0)"
proof -
  have n: "unat (of_nat (2 * k) - 1 :: u32) = 2 * k - 1"
    using assms by (intro unat_pred) simp_all
  let ?t = "trim_loop (swapped orig k m) orig (2 * k - 1)"
  have "manipulate_info_string orig (of_nat (2 * k)) m = Some ((swapped orig k m)(orig + of_nat ?t := 0))"
    using swap_loop_swapped [of 0 k orig m] assms
    by (simp add: manipulate_info_string_def n del: of_nat_mult)
  moreover have "j \<le> 2 * k - 1 \<longleftrightarrow> j < 2 * k" for j using assms(1) by auto
  ultimately show ?thesis
    using trim_loop_spec [of "swapped orig k m" orig "2 * k - 1"] by auto
qed

section \<open>The driver as a block driver\<close>

lemma ide_read_result: "ide_read dev env buf k cd s = Inr (r, s') \<Longrightarrow> r = 512 \<or> r = - 1"
  by (cases cd) (auto simp: ide_read_def Let_def case_prod_beta elim!: bindE_InrE split: if_splits)

lemma ide_write_result: "ide_write dev env buf k cd s = Inr (r, s') \<Longrightarrow> r = 512 \<or> r = - 1"
  by (cases cd) (auto simp: ide_write_def Let_def case_prod_beta elim!: bindE_InrE split: if_splits)

lemma lift_op_result:
  assumes "lift_op lay f param q = (r, q')" "\<And>d s r s'. f d s = Inr (r, s') \<Longrightarrow> r = 512 \<or> r = - 1"
  shows "(\<exists>e. q' = Inl e) \<or> r = 512 \<or> r = - 1"
  using assms(1) by (cases q) (auto simp: lift_op_def split: option.splits sum.splits dest: assms(2))

lemma lift_op_failed: "lift_op lay f param (Inl e) = (r, q') \<Longrightarrow> \<exists>e. q' = Inl e"
  by (auto simp: lift_op_def split: option.splits)

interpretation ide: block_driver "ide_ops dev env lay" "\<lambda>q. \<exists>e. q = Inl e" for dev env lay
proof
  show "(\<exists>e. q' = Inl e) \<or> r = 512 \<or> r = - 1" if "op_read (ide_ops dev env lay) buf k p q = (r, q')" for buf k p q r q'
    using that by (intro lift_op_result [of lay "ide_read dev env buf k" p q]) (auto simp: ide_ops_def dest: ide_read_result)
  show "(\<exists>e. q' = Inl e) \<or> r = 512 \<or> r = - 1" if "op_write (ide_ops dev env lay) buf k p q = (r, q')" for buf k p q r q'
    using that by (intro lift_op_result [of lay "ide_write dev env buf k" p q]) (auto simp: ide_ops_def dest: ide_write_result)
qed (auto simp: ide_ops_def dest: lift_op_failed)

text \<open>
  What a block read of a registered disk comes to, in the words of the layer: a fault or a
  wait without end, a sector inside the disk, or -1.
\<close>

lemma disk_block_read:
  assumes "block_ops b blk = ide_ops dev env lay" "block_read blk buf sector b (Inr s) = (r, Inr s')"
  shows "r = 512 \<and> valid_sector_no blk sector b \<or> r = - 1"
  using ide.block_read_result [OF assms] by simp

section \<open>A drive that is always ready\<close>

text \<open>Both semaphores are free and the drive answers every word with 0xaa55, so nothing ever waits.\<close>

definition quiet_dev :: device where
  "quiet_dev h p = (if p = 0x3f6 then 8 else if p = 0x1f0 then 0xaa55 else 0)"

definition quiet_machine :: machine where
  "quiet_machine = \<lparr>krn = sema_init 8 1 (sema_init 4 1 start_kernel), hist = [],
     gates = empty_idt,
     channels = (\<lambda>c. \<lparr>chan_name = [], reg_base = 0x1f0, irq = 46, chan_slock = 1, sema_wait = 4, sema_rw = 8,
       ata_disks = (\<lambda>d. \<lparr>disk_name = [104, 100, 97], dev_no = d, is_ata_disk = True, disk_sectors = 100\<rparr>)\<rparr>)\<rparr>"

definition calm :: "machine \<Rightarrow> bool" where
  "calm s \<longleftrightarrow> channels s = channels quiet_machine \<and>
     (\<forall>a\<in>{4, 8}. sema_free a (krn s) \<and> list_empty (WaitHead a) (links (krn s)))"

lemma quiet_calm: "calm quiet_machine"
  by (simp add: calm_def quiet_machine_def sema_init_def Let_def upd_sema_def upd_links_def sema_free_def
      list_empty_def list_head_init_def spin_lock_init_def)

lemma same_calm: "same_but_log s t \<Longrightarrow> calm t = calm s"
  by (simp add: calm_def same_but_log_def sema_free_def)

lemma same_count: "same_but_log s t \<Longrightarrow> semas (krn t) = semas (krn s)"
  by (simp add: same_but_log_def)

lemma wait_until_idle_same: "same_but_log s (wait_until_idle dev c d s)"
  using wait_until_idle_polls by (simp add: polls_only_def)

lemma select_disk_same: "same_but_log s (select_disk c d s)"
  by (simp add: select_disk_def Let_def)

lemma request_same: "same_but_log s (issue_pio_cmd c cmd (select_sector dev c d n s))"
proof -
  have "same_but_log s (select_disk_wait dev c d s)"
    unfolding select_disk_wait_def
    by (intro same_but_log_trans [OF same_but_log_trans [OF wait_until_idle_same select_disk_same] wait_until_idle_same])
  then show ?thesis
    by (simp add: issue_pio_cmd_def select_sector_def Let_def) (simp add: same_but_log_def sys_out_def sys_mem_def)
qed

lemma wait_while_busy_same: "same_but_log s (snd (wait_while_busy dev c d s))"
  by (metis prod.collapse wait_while_busy_spec)

lemma down_calm:
  assumes "calm s" "a \<in> {4, 8}" "count (semas (krn s) a) = 1"
  obtains t where "down env a s = Inr t" "calm t" "hist t = hist s" "sys_mem t = sys_mem s"
    "\<And>b. b \<noteq> a \<Longrightarrow> semas (krn t) b = semas (krn s) b"
proof
  let ?k = "upd_sema a (\<lambda>x. x\<lparr>count := count x - 1\<rparr>) (krn s)"
  have f: "sema_free a (krn s)" using assms by (auto simp: calm_def)
  have "sema_down a (krn s) = Inr ?k" using sema_down_free [OF f] assms(3) by simp
  then show "down env a s = Inr (s\<lparr>krn := ?k\<rparr>)" by (simp add: down_def)
  show "calm (s\<lparr>krn := ?k\<rparr>)" using assms by (auto simp: calm_def sema_free_def)
qed (simp_all add: sys_mem_def)

lemma up_calm:
  assumes "calm s" "a \<in> {4, 8}"
  shows "\<exists>t. up a s = Inr t"
proof -
  have "sema_free a (krn s)" "list_empty (WaitHead a) (links (krn s))" using assms by (auto simp: calm_def)
  then have "\<exists>k. sema_up a (krn s) = Inr k"
    by (simp add: sema_up_def lock_sema_free Let_def)
  then show ?thesis by (auto simp: up_def)
qed

lemma ready_now:
  assumes "\<And>h. \<not> busy (ucast (dev h p))" "\<And>h. drq (ucast (dev h p))" "0 < n"
  shows "ready dev p n h"
  using assms by (cases n) (simp_all add: ready_Suc Let_def)

lemma quiet_ready: "channels s = channels quiet_machine \<Longrightarrow> ready_at quiet_dev c s"
  by (rule ready_now) (simp_all add: quiet_machine_def reg_defs quiet_dev_def busy_def drq_def)

lemma quiet_words: "i < n \<Longrightarrow> read_words quiet_dev 0x1f0 n h ! i = 0xaa55"
  by (induction n arbitrary: i h) (auto simp: Let_def quiet_dev_def nth_Cons split: nat.splits)

lemma quiet_channel [simp]:
  "sema_rw (channels quiet_machine c) = 8" "sema_wait (channels quiet_machine c) = 4"
  "reg_base (channels quiet_machine c) = 0x1f0" "slave c d quiet_machine \<longleftrightarrow> d = 1"
  by (simp_all add: quiet_machine_def slave_def disk_of_def)

lemma quiet_count: "count (semas (krn quiet_machine) 4) = 1" "count (semas (krn quiet_machine) 8) = 1"
  by (simp_all add: quiet_machine_def sema_init_def Let_def upd_sema_def upd_links_def)

lemma calm_channels: "calm s \<Longrightarrow> channels s = channels quiet_machine"
  by (simp add: calm_def)

lemma input_sector_calm: "calm (input_sector dev c buf s) = calm s"
  by (simp add: input_sector_def case_prod_beta calm_def set_mem_def sema_free_def)

lemma quiet_read_returns: "\<exists>ret s'. ide_read quiet_dev Inr 0x1000 n (0, d) quiet_machine = Inr (ret, s')"
proof -
  obtain s1 where 1: "down Inr 8 quiet_machine = Inr s1" "calm s1"
    and o: "\<And>b. b \<noteq> 8 \<Longrightarrow> semas (krn s1) b = semas (krn quiet_machine) b"
    by (rule down_calm [OF quiet_calm, of 8 Inr]) (simp_all add: quiet_count)
  let ?q = "issue_pio_cmd 0 CMD_READ_SECTOR_RETRY (select_sector quiet_dev 0 d n s1)"
  have q: "calm ?q" "count (semas (krn ?q) 4) = 1"
    using 1 o [of 4] quiet_count same_calm [OF request_same] same_count [OF request_same] by simp_all
  obtain s2 where 2: "down Inr 4 ?q = Inr s2" "calm s2"
    by (rule down_calm [OF q(1), of 4 Inr]) (use q in simp_all)
  obtain ok s3 where w: "wait_while_busy quiet_dev 0 d s2 = (ok, s3)" by fastforce
  have "calm s3" using same_calm [OF wait_while_busy_same [of s2 quiet_dev 0 d]] 2 w by simp
  then have input_calm: "calm (input_sector quiet_dev 0 0x1000 s3)" by (simp only: input_sector_calm)
  obtain s4 s5 where up: "up 8 (input_sector quiet_dev 0 0x1000 s3) = Inr s4" "up 8 s3 = Inr s5"
    using up_calm [OF \<open>calm s3\<close>, of 8] up_calm [OF input_calm, of 8] by blast
  show ?thesis
    unfolding ide_read_def prod.case
    by (cases ok) (simp_all only: quiet_channel 1 2 w up bindE_simps Let_def prod.case calm_channels [OF q(1)]
        calm_channels [OF \<open>calm s3\<close>] calm_channels [OF input_calm] if_True if_False, blast+)
qed

theorem ide_read_transfers_witness:
  "\<exists>s'. ide_read quiet_dev Inr 0x1000 0x12345 (0, 1) quiet_machine = Inr (512, s') \<and>
    (\<forall>i<256. load16 (sys_mem s') (0x1000 + 2 * of_nat i) = 0xaa55)"
proof -
  obtain ret s' where r: "ide_read quiet_dev Inr 0x1000 0x12345 (0, 1) quiet_machine = Inr (ret, s')"
    using quiet_read_returns by blast
  obtain s2 sq where "down Inr 4 sq = Inr s2" and a: "read_answer quiet_dev 0x1000 0 s2 ret s'"
    and "\<exists>s1 req. down Inr 8 quiet_machine = Inr s1 \<and> steps_to s1 sq req"
    using ide_read_transfers [of Inr, OF _ r] by auto
  then have ch: "channels s2 = channels quiet_machine"
    by (metis down_channels Inr_inject steps_to_def)
  have "ret = 512 \<and> (\<forall>i<256. load16 (sys_mem s') (0x1000 + 2 * of_nat i) = 0xaa55)"
    using a ch quiet_ready [OF ch, of 0] by (simp add: read_answer_def Let_def reg_defs quiet_words)
  with r show ?thesis by blast
qed

lemma output_sector_calm: "calm (output_sector c buf s) = calm s" "semas (krn (output_sector c buf s)) = semas (krn s)"
  by (simp_all add: output_sector_def calm_def)

lemma quiet_write_returns: "\<exists>ret s'. ide_write quiet_dev Inr 0x1000 n (0, d) quiet_machine = Inr (ret, s')"
proof -
  obtain s1 where 1: "down Inr 8 quiet_machine = Inr s1" "calm s1"
    and o: "\<And>b. b \<noteq> 8 \<Longrightarrow> semas (krn s1) b = semas (krn quiet_machine) b"
    by (rule down_calm [OF quiet_calm, of 8 Inr]) (simp_all add: quiet_count)
  let ?q = "issue_pio_cmd 0 CMD_WRITE_SECTOR_RETRY (select_sector quiet_dev 0 d n s1)"
  obtain ok t where w: "wait_while_busy quiet_dev 0 d ?q = (ok, t)" by fastforce
  have "same_but_log s1 t"
    using same_but_log_trans [OF request_same wait_while_busy_same [of ?q quiet_dev 0 d]] w by simp
  then have t: "calm t" "count (semas (krn t) 4) = 1"
    using 1 o [of 4] quiet_count same_calm same_count by simp_all
  obtain s2 where 2: "down Inr 4 (output_sector 0 0x1000 t) = Inr s2" "calm s2"
    by (rule down_calm [of "output_sector 0 0x1000 t" 4 Inr]) (use t in \<open>simp_all add: output_sector_calm\<close>)
  obtain s3 s4 where "up 8 s2 = Inr s3" "up 8 t = Inr s4"
    using up_calm [OF 2(2), of 8] up_calm [OF t(1), of 8] by blast
  then show ?thesis
    unfolding ide_write_def prod.case
    by (cases ok) (simp_all only: quiet_channel 1 2 w bindE_simps Let_def prod.case calm_channels [OF t(1)]
        calm_channels [OF 2(2)] if_True if_False, blast+)
qed

theorem ide_write_transfers_witness:
  "\<exists>s'. ide_write quiet_dev Inr 0x1000 0x12345 (0, 1) quiet_machine = Inr (512, s')"
proof -
  obtain ret s' where r: "ide_write quiet_dev Inr 0x1000 0x12345 (0, 1) quiet_machine = Inr (ret, s')"
    using quiet_write_returns by blast
  obtain s1 sq req where 1: "down Inr 8 quiet_machine = Inr s1" "steps_to s1 sq req"
    and a: "ready_at quiet_dev 0 sq \<Longrightarrow> ret = 512"
    using ide_write_transfers [of Inr, OF _ r] by (auto split: if_splits)
  have "channels sq = channels quiet_machine"
    using down_channels [OF _ 1(1)] 1(2) by (simp add: steps_to_def)
  then show ?thesis using a quiet_ready r by blast
qed

text \<open>An identify text of four bytes, "BADC" on the disk, is "ABCD"; it ends up as "ABC".\<close>

theorem info_string_loses_last_char_witness:
  "\<exists>m'. manipulate_info_string 0x100 4 (\<lambda>a. if a = 0x100 then 66 else if a = 0x101 then 65
      else if a = 0x102 then 68 else if a = 0x103 then 67 else 0) = Some m' \<and>
    map m' [0x100, 0x101, 0x102, 0x103] = [65, 66, 67, 0]"
proof -
  define m :: memory where "m = (\<lambda>a. if a = 0x100 then 66 else if a = 0x101 then 65
      else if a = 0x102 then 68 else if a = 0x103 then 67 else 0)"
  obtain t where t: "t < 4" "manipulate_info_string 0x100 4 m = Some ((swapped 0x100 2 m)(0x100 + of_nat t := 0))"
    "\<forall>j. t < j \<and> j < 4 \<longrightarrow> swapped 0x100 2 m (0x100 + of_nat j) = 0"
    using info_string_loses_last_char [of 2 "0x100" m] by auto
  have s: "map (swapped 0x100 2 m) [0x100, 0x101, 0x102, 0x103] = [65, 66, 67, 68]"
    by (simp add: swapped_def Let_def m_def)
  have "t = 3"
  proof (rule ccontr)
    assume "t \<noteq> 3"
    then have "swapped 0x100 2 m (0x100 + of_nat 3) = 0" using t(1) \<open>t \<noteq> 3\<close> t(3) [rule_format, of 3] by simp
    moreover have "(0x100 :: u32) + of_nat 3 = 0x103" by simp
    ultimately show False using s by simp
  qed
  then show ?thesis using t(2) s unfolding m_def [symmetric] by simp
qed

end
