(* ===== verification/Switch.thy ===== *)
theory Switch
  imports Task_Create
begin

text \<open>
  The context switch, \<open>kernel/switch.S\<close> with the frame of \<open>kernel/switch.h\<close>, at the level of
  its instructions: registers, flags and byte memory. \<open>Sched\<close> abstracts it to the change of
  \<open>current\<close>; here its two routines are run. \<open>switch_to\<close> saves and restores what the calling
  convention makes it preserve, and the stack \<open>task_create\<close> builds brings the first switch to
  the task's procedure.

  The called C function of \<open>switch_initial\<close> is compiled code: its effect on the machine is a
  parameter, restricted to the calling convention where that matters.
\<close>

section \<open>Machine\<close>

datatype reg = EAX | EBX | ECX | EDX | ESI | EDI | EBP | ESP

record cpu =
  gpr :: "reg \<Rightarrow> u32"
  eip :: u32
  iflag :: bool
  cmem :: memory

datatype instr =
    Push reg
  | Pop reg
  | Load u32 reg reg           \<comment> \<open>mov disp(base), dst\<close>
  | LoadVar u32 reg            \<comment> \<open>mov variable, dst\<close>
  | StoreIdx reg reg reg       \<comment> \<open>mov src, (base, index)\<close>
  | LoadIdx reg reg reg        \<comment> \<open>mov (base, index), dst\<close>
  | AddEsp u32
  | Call u32                   \<comment> \<open>the return address\<close>
  | Sti
  | Ret

definition set_reg :: "reg \<Rightarrow> u32 \<Rightarrow> 'a cpu_scheme \<Rightarrow> 'a cpu_scheme" where
  "set_reg r v c = c\<lparr>gpr := (gpr c)(r := v)\<rparr>"

definition push :: "u32 \<Rightarrow> 'a cpu_scheme \<Rightarrow> 'a cpu_scheme" where
  "push v c = (let a = gpr c ESP - 4 in set_reg ESP a (c\<lparr>cmem := store32 a v (cmem c)\<rparr>))"

definition top :: "'a cpu_scheme \<Rightarrow> u32" where
  "top c = load32 (cmem c) (gpr c ESP)"

definition drop_top :: "'a cpu_scheme \<Rightarrow> 'a cpu_scheme" where
  "drop_top c = set_reg ESP (gpr c ESP + 4) c"

text \<open>
  A call pushes its return address, runs the callee and comes back to the next instruction;
  the callee's \<open>ret\<close> has removed the address.
\<close>

fun exec1 :: "(cpu \<Rightarrow> cpu) \<Rightarrow> instr \<Rightarrow> cpu \<Rightarrow> cpu" where
  "exec1 f (Push r) c = push (gpr c r) c"
| "exec1 f (Pop r) c = (let v = top c in set_reg r v (drop_top c))"
| "exec1 f (Load disp b r) c = set_reg r (load32 (cmem c) (gpr c b + disp)) c"
| "exec1 f (LoadVar a r) c = set_reg r (load32 (cmem c) a) c"
| "exec1 f (StoreIdx r b i) c = c\<lparr>cmem := store32 (gpr c b + gpr c i) (gpr c r) (cmem c)\<rparr>"
| "exec1 f (LoadIdx b i r) c = set_reg r (load32 (cmem c) (gpr c b + gpr c i)) c"
| "exec1 f (AddEsp n) c = set_reg ESP (gpr c ESP + n) c"
| "exec1 f (Call ra) c = drop_top (f (push ra c))"
| "exec1 f Sti c = c\<lparr>iflag := True\<rparr>"
| "exec1 f Ret c = (let a = top c in (drop_top c)\<lparr>eip := a\<rparr>)"

definition exec :: "(cpu \<Rightarrow> cpu) \<Rightarrow> instr list \<Rightarrow> cpu \<Rightarrow> cpu" where
  "exec f = fold (exec1 f)"

lemma exec_simps [simp]:
  "exec f [] c = c" "exec f (i # is) c = exec f is (exec1 f i c)"
  by (simp_all add: exec_def)

lemma exec_append: "exec f (is @ js) c = exec f js (exec f is c)"
  by (simp add: exec_def)

section \<open>The routines\<close>

abbreviation (input) OFFSET_CURR :: u32 where "OFFSET_CURR \<equiv> 20"
abbreviation (input) OFFSET_NEXT :: u32 where "OFFSET_NEXT \<equiv> 24"

text \<open>The argument is the address of \<open>saved_sp_offset\<close>, which \<open>kernel/sched.c\<close> sets to the offset of \<open>sp\<close>.\<close>

definition switch_to_code :: "u32 \<Rightarrow> instr list" where
  "switch_to_code saved_sp_offset =
     [Push EBX, Push EBP, Push ESI, Push EDI,
      Load OFFSET_CURR ESP EAX, LoadVar saved_sp_offset EDX, StoreIdx ESP EAX EDX,
      Load OFFSET_NEXT ESP ECX, LoadIdx ECX EDX ESP,
      Pop EDI, Pop ESI, Pop EBP, Pop EBX, Ret]"

definition switch_initial_code :: "u32 \<Rightarrow> instr list" where
  "switch_initial_code return_address =
     [AddEsp 8, Push EAX, Call return_address, AddEsp 4, Sti, Ret]"

abbreviation (input) sp_offset :: u32 where "sp_offset \<equiv> 24"

section \<open>What a switch does\<close>

text \<open>
  Before the switch: \<open>cur\<close>'s page holds its structure and, above it, its stack down to the
  return address and the two arguments at \<open>esp\<close>; the variable and \<open>next\<close>'s page are elsewhere,
  with \<open>next\<close>'s saved stack pointer inside its page.
\<close>

definition in_page :: "u32 \<Rightarrow> u32 \<Rightarrow> bool" where
  "in_page p a \<longleftrightarrow> unat p + 4096 < 4294967296 \<and> unat p + 28 \<le> unat a \<and> unat a + 4 \<le> unat p + 4096"

definition off_page :: "u32 \<Rightarrow> u32 \<Rightarrow> bool" where
  "off_page p a \<longleftrightarrow> unat a + 4 \<le> unat p \<or> unat p + 4096 \<le> unat a \<and> unat a + 4 < 4294967296"

definition saved_by :: "cpu \<Rightarrow> u32 \<Rightarrow> memory" where
  "saved_by c cur =
     (let stk = gpr c ESP
      in store32 (cur + sp_offset) (stk - 16)
        (store32 (stk - 16) (gpr c EDI) (store32 (stk - 12) (gpr c ESI)
          (store32 (stk - 8) (gpr c EBP) (store32 (stk - 4) (gpr c EBX) (cmem c))))))"

definition switch_ready :: "u32 \<Rightarrow> u32 \<Rightarrow> u32 \<Rightarrow> cpu \<Rightarrow> bool" where
  "switch_ready sso cur nxt c \<longleftrightarrow>
     in_page cur (gpr c ESP - 16) \<and> in_page cur (gpr c ESP + 8) \<and>
     load32 (cmem c) (gpr c ESP + 4) = cur \<and> load32 (cmem c) (gpr c ESP + 8) = nxt \<and>
     load32 (cmem c) sso = sp_offset \<and> off_page cur sso"

lemma load_off_page:
  assumes "in_page p b \<or> b = p + sp_offset \<and> unat p + 4096 < 4294967296" "off_page p a"
  shows "load32 (store32 b w m) a = load32 m a"
proof -
  have "unat (p + sp_offset) = unat p + 24" if "unat p + 4096 < 4294967296"
    using that by (simp add: unat_plus_no_wrap)
  then show ?thesis
    using assms by (intro load32_store32_other) (auto simp: in_page_def off_page_def apart_def)
qed

lemma frame_addresses:
  assumes "in_page cur b" "in_page cur (b + 24)" "k \<le> 24"
  shows "unat (b + of_nat k) = unat b + k" "in_page cur (b + of_nat k)"
proof -
  have "unat b + 24 < 4294967296"
  proof (rule ccontr)
    assume "\<not> ?thesis"
    then have "unat (b + 24) = unat b + 24 - 4294967296" by (simp add: unat_plus_if' [of b 24])
    then show False using assms(2) u32_lt [of b] unfolding in_page_def by linarith
  qed
  then have u: "unat (b + of_nat i) = unat b + i" if "i \<le> 24" for i
    using that by (subst unat_plus_no_wrap) (simp_all add: unat_of_nat)
  then show "unat (b + of_nat k) = unat b + k" using assms(3) by blast
  then show "in_page cur (b + of_nat k)"
    using assms u [of 24] by (simp add: in_page_def)
qed

text \<open>The saved registers are on the old stack, its address in the task; nothing else changes.\<close>

lemma saved_by_words:
  assumes "in_page cur (gpr c ESP - 16)" "in_page cur (gpr c ESP + 8)"
  shows "load32 (saved_by c cur) (cur + sp_offset) = gpr c ESP - 16"
    "load32 (saved_by c cur) (gpr c ESP - 16) = gpr c EDI" "load32 (saved_by c cur) (gpr c ESP - 12) = gpr c ESI"
    "load32 (saved_by c cur) (gpr c ESP - 8) = gpr c EBP" "load32 (saved_by c cur) (gpr c ESP - 4) = gpr c EBX"
    "load32 (saved_by c cur) (gpr c ESP) = load32 (cmem c) (gpr c ESP)"
    "off_page cur a \<Longrightarrow> load32 (saved_by c cur) a = load32 (cmem c) a"
    "load32 (saved_by c cur) (gpr c ESP + 4) = load32 (cmem c) (gpr c ESP + 4)"
    "load32 (saved_by c cur) (gpr c ESP + 8) = load32 (cmem c) (gpr c ESP + 8)"
proof -
  have b24: "in_page cur (gpr c ESP - 16 + 24)" using assms(2) by (simp add: add.commute)
  note F = frame_addresses [OF assms(1) b24]
  have f: "unat (gpr c ESP - 12) = unat (gpr c ESP - 16) + 4" "unat (gpr c ESP - 8) = unat (gpr c ESP - 16) + 8"
    "unat (gpr c ESP - 4) = unat (gpr c ESP - 16) + 12" "unat (gpr c ESP) = unat (gpr c ESP - 16) + 16"
    "unat (gpr c ESP + 4) = unat (gpr c ESP - 16) + 20" "unat (gpr c ESP + 8) = unat (gpr c ESP - 16) + 24"
    using F(1) [of 4] F(1) [of 8] F(1) [of 12] F(1) [of 16] F(1) [of 20] F(1) [of 24] by (simp_all add: add.commute)
  have c: "unat (cur + sp_offset) = unat cur + 24" "unat cur + 28 \<le> unat (gpr c ESP - 16)" "unat (gpr c ESP - 16) + 28 \<le> unat cur + 4096"
    "unat cur + 4096 < 4294967296"
    using assms f(6) by (auto simp: in_page_def unat_plus_no_wrap)
  show "load32 (saved_by c cur) (cur + sp_offset) = gpr c ESP - 16" by (simp add: saved_by_def Let_def)
  note other = load32_store32_other apart_def
  show "load32 (saved_by c cur) (gpr c ESP - 16) = gpr c EDI" "load32 (saved_by c cur) (gpr c ESP - 12) = gpr c ESI"
    "load32 (saved_by c cur) (gpr c ESP - 8) = gpr c EBP" "load32 (saved_by c cur) (gpr c ESP - 4) = gpr c EBX"
    "load32 (saved_by c cur) (gpr c ESP) = load32 (cmem c) (gpr c ESP)"
    "load32 (saved_by c cur) (gpr c ESP + 4) = load32 (cmem c) (gpr c ESP + 4)"
    "load32 (saved_by c cur) (gpr c ESP + 8) = load32 (cmem c) (gpr c ESP + 8)"
    unfolding saved_by_def Let_def using c f by (simp_all add: other)
  have "in_page cur (gpr c ESP - 16)" "in_page cur (gpr c ESP - 12)" "in_page cur (gpr c ESP - 8)" "in_page cur (gpr c ESP - 4)"
    using F(2) [of 0] F(2) [of 4] F(2) [of 8] F(2) [of 12] by simp_all
  then show "off_page cur a \<Longrightarrow> load32 (saved_by c cur) a = load32 (cmem c) a"
    using c(4) by (simp add: saved_by_def Let_def load_off_page [where p = cur])
qed

text \<open>The saved frame a task is resumed from: where its structure says, in its own page.\<close>

definition frame_of :: "memory \<Rightarrow> u32 \<Rightarrow> u32" where
  "frame_of m t = load32 m (t + sp_offset)"

text \<open>The state a switch to \<open>nxt\<close> arrives in.\<close>

definition resumed :: "memory \<Rightarrow> u32 \<Rightarrow> u32 \<Rightarrow> cpu \<Rightarrow> cpu" where
  "resumed m cur nxt c =
     (let n = frame_of m nxt
      in c\<lparr>gpr := (gpr c)(EAX := cur, EDX := sp_offset, ECX := nxt, EDI := load32 m n, ESI := load32 m (n + 4),
             EBP := load32 m (n + 8), EBX := load32 m (n + 12), ESP := n + 20),
           eip := load32 m (n + 16), cmem := m\<rparr>)"

lemma switch_to_exec:
  assumes "switch_ready sso cur nxt c"
  shows "exec f (switch_to_code sso) c = resumed (saved_by c cur) cur nxt c"
proof -
  have pg: "in_page cur (gpr c ESP - 16)" "in_page cur (gpr c ESP + 8)"
    and args: "load32 (cmem c) (gpr c ESP + 4) = cur" "load32 (cmem c) (gpr c ESP + 8) = nxt"
    and var: "load32 (cmem c) sso = sp_offset" "off_page cur sso"
    using assms by (auto simp: switch_ready_def)
  have b24: "in_page cur (gpr c ESP - 16 + 24)" using pg(2) by (simp add: add.commute)
  note F = frame_addresses [OF pg(1) b24]
  have f: "unat (gpr c ESP - 12) = unat (gpr c ESP - 16) + 4" "unat (gpr c ESP - 8) = unat (gpr c ESP - 16) + 8"
    "unat (gpr c ESP - 4) = unat (gpr c ESP - 16) + 12" "unat (gpr c ESP + 4) = unat (gpr c ESP - 16) + 20"
    "unat (gpr c ESP + 8) = unat (gpr c ESP - 16) + 24"
    using F(1) [of 4] F(1) [of 8] F(1) [of 12] F(1) [of 20] F(1) [of 24] by (simp_all add: add.commute)
  let ?m = "store32 (gpr c ESP - 16) (gpr c EDI) (store32 (gpr c ESP - 12) (gpr c ESI)
      (store32 (gpr c ESP - 8) (gpr c EBP) (store32 (gpr c ESP - 4) (gpr c EBX) (cmem c))))"
  have c: "unat (cur + sp_offset) = unat cur + 24" "unat cur + 28 \<le> unat (gpr c ESP - 16)"
    "unat (gpr c ESP - 16) + 28 \<le> unat cur + 4096" "unat cur + 4096 < 4294967296"
    using pg f(5) by (auto simp: in_page_def unat_plus_no_wrap)
  note other = load32_store32_other apart_def
  have m1: "load32 ?m (gpr c ESP + 4) = cur" "load32 ?m (gpr c ESP + 8) = nxt"
    using c f args by (simp_all add: other)
  have m2: "load32 (store32 (cur + sp_offset) v ?m) (gpr c ESP + 8) = nxt" for v
    using c f args by (simp add: other)
  have "in_page cur (gpr c ESP - 16)" "in_page cur (gpr c ESP - 12)" "in_page cur (gpr c ESP - 8)" "in_page cur (gpr c ESP - 4)"
    using F(2) [of 0] F(2) [of 4] F(2) [of 8] F(2) [of 12] by simp_all
  then have m3: "load32 ?m sso = sp_offset" using var by (simp add: load_off_page [where p = cur])
  let ?c1 = "c\<lparr>gpr := (gpr c)(ESP := gpr c ESP - 16), cmem := ?m\<rparr>"
  have s1: "exec f [Push EBX, Push EBP, Push ESI, Push EDI] c = ?c1"
    by (simp add: push_def set_reg_def Let_def)
  let ?m2 = "store32 (cur + sp_offset) (gpr c ESP - 16) ?m"
  let ?n = "frame_of ?m2 nxt"
  let ?c2 = "c\<lparr>gpr := (gpr c)(EAX := cur, EDX := sp_offset, ECX := nxt, ESP := ?n), cmem := ?m2\<rparr>"
  have s2: "exec f [Load OFFSET_CURR ESP EAX, LoadVar sso EDX, StoreIdx ESP EAX EDX,
      Load OFFSET_NEXT ESP ECX, LoadIdx ECX EDX ESP] ?c1 = ?c2"
    using m1(1) m2 m3 by (simp add: set_reg_def frame_of_def add.commute fun_upd_twist)
  have s3: "exec f [Pop EDI, Pop ESI, Pop EBP, Pop EBX, Ret] ?c2 = resumed ?m2 cur nxt c"
    by (simp add: set_reg_def top_def drop_top_def Let_def resumed_def fun_upd_twist add.commute)
  have "switch_to_code sso = [Push EBX, Push EBP, Push ESI, Push EDI] @
      [Load OFFSET_CURR ESP EAX, LoadVar sso EDX, StoreIdx ESP EAX EDX, Load OFFSET_NEXT ESP ECX, LoadIdx ECX EDX ESP] @
      [Pop EDI, Pop ESI, Pop EBP, Pop EBX, Ret]"
    by (simp add: switch_to_code_def)
  then show ?thesis by (simp only: exec_append s1 s2 s3 saved_by_def Let_def)
qed

section \<open>Properties\<close>

definition pages_apart :: "u32 \<Rightarrow> u32 \<Rightarrow> bool" where
  "pages_apart p q \<longleftrightarrow> unat p + 4096 \<le> unat q \<or> unat q + 4096 \<le> unat p"

lemma in_page_off: "in_page p a \<Longrightarrow> pages_apart p q \<Longrightarrow> off_page q a"
  by (auto simp: in_page_def off_page_def pages_apart_def)

lemma field_off: "unat p + 4096 < 4294967296 \<Longrightarrow> pages_apart p q \<Longrightarrow> off_page q (p + sp_offset)"
  by (auto simp: off_page_def pages_apart_def unat_plus_no_wrap)

lemma in_page_bound: "in_page p a \<Longrightarrow> unat p + 4096 < 4294967296"
  by (simp add: in_page_def)

text \<open>The words of a suspended task: its saved stack pointer and its frame.\<close>

definition frame_words :: "u32 \<Rightarrow> u32 \<Rightarrow> u32 list" where
  "frame_words t n = [t + sp_offset, n, n + 4, n + 8, n + 12, n + 16]"

lemma resumed_saved:
  assumes "in_page cur (gpr c ESP - 16)" "in_page cur (gpr c ESP + 8)"
    and same: "\<forall>a\<in>set (frame_words cur (gpr c ESP - 16)). load32 m a = load32 (saved_by c cur) a"
  shows "gpr (resumed m prev cur d) EBX = gpr c EBX" "gpr (resumed m prev cur d) EBP = gpr c EBP"
    "gpr (resumed m prev cur d) ESI = gpr c ESI" "gpr (resumed m prev cur d) EDI = gpr c EDI"
    "gpr (resumed m prev cur d) ESP = gpr c ESP + 4" "gpr (resumed m prev cur d) EAX = prev"
    "eip (resumed m prev cur d) = load32 (cmem c) (gpr c ESP)"
proof -
  note w = saved_by_words [OF assms(1,2)]
  have n: "frame_of m cur = gpr c ESP - 16" using same w(1) by (simp add: frame_of_def frame_words_def)
  show "gpr (resumed m prev cur d) EBX = gpr c EBX" "gpr (resumed m prev cur d) EBP = gpr c EBP"
    "gpr (resumed m prev cur d) ESI = gpr c ESI" "gpr (resumed m prev cur d) EDI = gpr c EDI"
    "gpr (resumed m prev cur d) ESP = gpr c ESP + 4" "gpr (resumed m prev cur d) EAX = prev"
    "eip (resumed m prev cur d) = load32 (cmem c) (gpr c ESP)"
    unfolding resumed_def n Let_def using same w by (simp_all add: frame_words_def add.commute)
qed

text \<open>
  C13: A task that is switched away and later switched back to continues where it was: when
  any other task switches to it, with its frame untouched in between, the registers the
  calling convention makes \<open>switch_to\<close> preserve and the stack pointer are what they were,
  execution returns to the caller of \<open>switch_to\<close>, and the result is the task switched away
  from.
\<close>

theorem switch_round_trip:
  assumes away: "switch_ready sso cur nxt c"
    and again: "switch_ready sso other cur d" "pages_apart cur other"
    and kept: "\<forall>a\<in>set (frame_words cur (gpr c ESP - 16)).
      load32 (cmem d) a = load32 (cmem (exec f (switch_to_code sso) c)) a"
  defines "e \<equiv> exec f (switch_to_code sso) d"
  shows "(\<forall>r\<in>{EBX, EBP, ESI, EDI}. gpr e r = gpr c r) \<and> gpr e ESP = gpr c ESP + 4 \<and>
    eip e = load32 (cmem c) (gpr c ESP) \<and> gpr e EAX = other"
proof -
  have pg: "in_page cur (gpr c ESP - 16)" "in_page cur (gpr c ESP + 8)"
    using away by (auto simp: switch_ready_def)
  have pg': "in_page other (gpr d ESP - 16)" "in_page other (gpr d ESP + 8)"
    using again(1) by (auto simp: switch_ready_def)
  have b24: "in_page cur (gpr c ESP - 16 + 24)" using pg(2) by (simp add: add.commute)
  have "in_page cur (gpr c ESP - 16 + of_nat k)" if "k \<le> 24" for k
    by (rule frame_addresses(2) [OF pg(1) b24 that])
  from this [of 0] this [of 4] this [of 8] this [of 12] this [of 16]
  have "off_page other a" if "a \<in> set (frame_words cur (gpr c ESP - 16))" for a
    using that in_page_off [OF _ again(2)] field_off [OF in_page_bound [OF pg(1)] again(2)]
    by (auto simp: frame_words_def)
  then have "\<forall>a\<in>set (frame_words cur (gpr c ESP - 16)). load32 (saved_by d other) a = load32 (saved_by c cur) a"
    using kept saved_by_words(7) [OF pg'] by (simp add: switch_to_exec [OF away] resumed_def Let_def)
  then show ?thesis
    unfolding e_def switch_to_exec [OF again(1)] using resumed_saved [OF pg] by simp
qed

section \<open>The current task and the frames\<close>

text \<open>
  \<open>current\<close> is the page the stack pointer is in (\<open>kernel/sched.h\<close>): a task's structure is at the
  bottom of the page that holds its stack. \<open>Sched\<close> keeps it as a field that \<open>switch_to\<close> sets.
\<close>

definition current_of :: "'a cpu_scheme \<Rightarrow> u32" where
  "current_of c = ROUND_DOWN (gpr c ESP) PAGE_SIZE"

lemma current_of_page:
  assumes "unat t mod 4096 = 0" "unat t \<le> unat (gpr c ESP)" "unat (gpr c ESP) < unat t + 4096"
  shows "current_of c = t"
proof -
  define k where "k = unat t div 4096"
  have t: "unat t = 4096 * k" using assms(1) by (simp add: k_def minus_mod_eq_mult_div [symmetric])
  then have "unat (gpr c ESP) div 4096 = k" using assms(2,3) by (intro div_nat_eqI) simp_all
  then show ?thesis using t by (simp add: current_of_def word_unat_eq_iff round_down_page)
qed

text \<open>The structures laid over the stack of a task: what \<open>switch_to\<close> leaves, and the frame of a task's procedure.\<close>

record switch_frame =
  sf_edi :: u32
  sf_esi :: u32
  sf_ebp :: u32
  sf_ebx :: u32
  sf_eip :: u32
  sf_cur :: u32
  sf_next :: u32

definition read_switch_frame :: "memory \<Rightarrow> u32 \<Rightarrow> switch_frame" where
  "read_switch_frame m a =
     \<lparr>sf_edi = load32 m a, sf_esi = load32 m (a + 4), sf_ebp = load32 m (a + 8), sf_ebx = load32 m (a + 12),
      sf_eip = load32 m (a + 16), sf_cur = load32 m (a + 20), sf_next = load32 m (a + 24)\<rparr>"

record kernel_proc_stack =
  kp_proc :: u32
  kernel_task_ret_eip :: u32
  kp_params :: u32

definition read_kernel_proc_stack :: "memory \<Rightarrow> u32 \<Rightarrow> kernel_proc_stack" where
  "read_kernel_proc_stack m a =
     \<lparr>kp_proc = load32 m a, kernel_task_ret_eip = load32 m (a + 4), kp_params = load32 m (a + 8)\<rparr>"

text \<open>The stack of a created task, read as the structures: one above the other, at the top of the page.\<close>

lemma created_frames:
  "read_kernel_proc_stack (mem (pages (created tsk proc params nm prio st q s))) (tsk + 4084) =
     \<lparr>kp_proc = proc, kernel_task_ret_eip = addr_task_exit s, kp_params = params\<rparr>"
  "sf_eip (read_switch_frame (mem (pages (created tsk proc params nm prio st q s))) (tsk + 4056)) = addr_switch_initial s"
  using init_stack_words [of tsk proc params "addr_task_exit s" "addr_switch_initial s" "mem q"]
  by (simp_all add: read_kernel_proc_stack_def read_switch_frame_def add.assoc)

text \<open>
  C16: A switch changes the current task as the scheduler means it to: with a task's structure
  at the bottom of the page of its stack, the page of the stack pointer before the switch is the
  task switched away from, after it the task switched to, and the frame left on the old stack,
  which that task's structure points to, holds its registers and place of return.
\<close>

theorem switch_changes_current:
  fixes f :: "cpu \<Rightarrow> cpu"
  assumes ready: "switch_ready sso cur nxt c"
    and pages: "unat cur mod 4096 = 0" "unat nxt mod 4096 = 0" "pages_apart cur nxt" "unat nxt + 4096 < 4294967296"
    and frame: "unat nxt \<le> unat (frame_of (cmem c) nxt)" "unat (frame_of (cmem c) nxt) + 20 < unat nxt + 4096"
  defines "e \<equiv> exec f (switch_to_code sso) c"
  shows "current_of c = cur \<and> current_of e = nxt \<and>
    read_switch_frame (cmem e) (frame_of (cmem e) cur) =
      \<lparr>sf_edi = gpr c EDI, sf_esi = gpr c ESI, sf_ebp = gpr c EBP, sf_ebx = gpr c EBX,
       sf_eip = load32 (cmem c) (gpr c ESP), sf_cur = cur, sf_next = nxt\<rparr>"
proof -
  have pg: "in_page cur (gpr c ESP - 16)" "in_page cur (gpr c ESP + 8)"
    and args: "load32 (cmem c) (gpr c ESP + 4) = cur" "load32 (cmem c) (gpr c ESP + 8) = nxt"
    using ready by (auto simp: switch_ready_def)
  have b24: "in_page cur (gpr c ESP - 16 + 24)" using pg(2) by (simp add: add.commute)
  note F = frame_addresses [OF pg(1) b24]
  have "in_page cur (gpr c ESP)" using F(2) [of 16] by simp
  then have before: "current_of c = cur" using pages(1) by (intro current_of_page) (auto simp: in_page_def)
  note w = saved_by_words [OF pg]
  have e: "e = resumed (saved_by c cur) cur nxt c" unfolding e_def by (rule switch_to_exec [OF ready])
  have "frame_of (saved_by c cur) nxt = frame_of (cmem c) nxt"
    using w(7) [OF field_off [of nxt cur]] pages by (simp add: frame_of_def pages_apart_def disj_commute)
  then have "gpr e ESP = frame_of (cmem c) nxt + 20" by (simp add: e resumed_def Let_def)
  moreover have "unat (frame_of (cmem c) nxt + 20) = unat (frame_of (cmem c) nxt) + 20"
    using frame pages(4) by (simp add: unat_plus_no_wrap)
  ultimately have after: "current_of e = nxt" using pages(2) frame by (intro current_of_page) auto
  have "cmem e = saved_by c cur" by (simp add: e resumed_def Let_def)
  then show ?thesis using before after w args by (simp add: frame_of_def read_switch_frame_def add.commute)
qed

text \<open>
  What the calling convention promises of \<open>task_sched_post_proc\<close>, called on the stack of task
  \<open>t\<close>: the preserved registers, the stack pointer and the stack above its argument.
\<close>

definition cdecl :: "u32 \<Rightarrow> (cpu \<Rightarrow> cpu) \<Rightarrow> bool" where
  "cdecl t f \<longleftrightarrow> (\<forall>c. (\<forall>r\<in>{EBX, EBP, ESI, EDI, ESP}. gpr (f c) r = gpr c r) \<and>
     (\<forall>a. in_page t a \<and> unat (gpr c ESP) + 8 \<le> unat a \<longrightarrow> load32 (cmem (f c)) a = load32 (cmem c) a))"

text \<open>A new task's run of \<open>switch_initial\<close>, with the words of \<open>task_create\<close> above it.\<close>

lemma switch_initial_exec:
  fixes ra :: u32
  assumes tsk: "unat tsk + 4096 < 4294967296" and esp: "gpr a ESP = tsk + 4076" and callee: "cdecl tsk f"
  defines "call \<equiv> push ra (exec f [AddEsp 8, Push EAX] a)"
  defines "b \<equiv> exec f (switch_initial_code ra) a"
  shows "top call = ra" "load32 (cmem call) (gpr call ESP + 4) = gpr a EAX" "iflag b"
    "eip b = load32 (cmem a) (tsk + 4084)" "gpr b ESP = tsk + 4088"
    "load32 (cmem b) (tsk + 4088) = load32 (cmem a) (tsk + 4088)"
    "load32 (cmem b) (tsk + 4092) = load32 (cmem a) (tsk + 4092)"
proof -
  have k: "unat (tsk + of_nat i) = unat tsk + i" if "i < 4096" for i
    using tsk that by (subst unat_plus_no_wrap) (simp_all add: unat_of_nat)
  have u: "unat (tsk + 4076) = unat tsk + 4076" "unat (tsk + 4080) = unat tsk + 4080"
    using k [of 4076] k [of 4080] by simp_all
  let ?m = "store32 (tsk + 4076) ra (store32 (tsk + 4080) (gpr a EAX) (cmem a))"
  have cl: "gpr call ESP = tsk + 4076" "cmem call = ?m"
    using esp by (simp_all add: call_def push_def set_reg_def Let_def add.commute)
  show "top call = ra" "load32 (cmem call) (gpr call ESP + 4) = gpr a EAX"
    using u tsk by (simp_all add: top_def cl add.commute load32_store32_other apart_def)
  define d where "d = f call"
  have dr: "gpr d ESP = tsk + 4076" using callee cl by (simp add: cdecl_def d_def)
  have dm: "load32 (cmem d) (tsk + of_nat i) = load32 (cmem a) (tsk + of_nat i)" if "4084 \<le> i" "i \<le> 4092" for i
  proof -
    have "in_page tsk (tsk + of_nat i)" using that tsk k [of i] by (simp add: in_page_def)
    then have "load32 (cmem d) (tsk + of_nat i) = load32 ?m (tsk + of_nat i)"
      using callee that k [of i] u(1) cl by (simp add: cdecl_def d_def)
    also have "\<dots> = load32 (cmem a) (tsk + of_nat i)"
      using that tsk k [of i] u by (simp add: load32_store32_other apart_def)
    finally show ?thesis .
  qed
  have "b = exec f [AddEsp 4, Sti, Ret] (drop_top d)"
    by (simp add: b_def switch_initial_code_def d_def call_def)
  then have "eip b = load32 (cmem d) (tsk + 4084)" "cmem b = cmem d" and b: "iflag b" "gpr b ESP = tsk + 4088"
    using dr by (simp_all add: drop_top_def set_reg_def top_def Let_def add.commute)
  then show "iflag b" "eip b = load32 (cmem a) (tsk + 4084)" "gpr b ESP = tsk + 4088"
    "load32 (cmem b) (tsk + 4088) = load32 (cmem a) (tsk + 4088)"
    "load32 (cmem b) (tsk + 4092) = load32 (cmem a) (tsk + 4092)"
    using dm [of 4084] dm [of 4088] dm [of 4092] by simp_all
qed

text \<open>
  C14: The first switch to a new task: from a task that switches to one whose stack is what
  \<open>task_create\<close> left there, execution goes to \<open>switch_initial\<close>, which calls
  \<open>task_sched_post_proc\<close> with the task switched away from and then, with interrupts on,
  enters the task's procedure as if \<open>task_exit\<close> had called it with the given parameter.
\<close>

theorem first_switch:
  fixes ra :: u32
  assumes ready: "switch_ready sso cur tsk c" "pages_apart cur tsk" "unat tsk + 4096 < 4294967296"
    and frame: "frame_of (cmem c) tsk = tsk + 4056"
    and stack: "\<forall>k\<in>{4072, 4084, 4088, 4092}.
      load32 (cmem c) (tsk + k) = load32 (init_stack tsk proc params exit_addr initial m) (tsk + k)"
    and callee: "cdecl tsk f"
  defines "a \<equiv> exec f (switch_to_code sso) c"
  defines "call \<equiv> push ra (exec f [AddEsp 8, Push EAX] a)"
  defines "b \<equiv> exec f (switch_initial_code ra) a"
  shows "eip a = initial \<and> top call = ra \<and> load32 (cmem call) (gpr call ESP + 4) = cur \<and>
    eip b = proc \<and> iflag b \<and> top b = exit_addr \<and> load32 (cmem b) (gpr b ESP + 4) = params"
proof -
  have pg: "in_page cur (gpr c ESP - 16)" "in_page cur (gpr c ESP + 8)" using ready(1) by (auto simp: switch_ready_def)
  have k: "unat (tsk + of_nat i) = unat tsk + i" if "i < 4096" for i
    using ready(3) that by (subst unat_plus_no_wrap) (simp_all add: unat_of_nat)
  have off: "off_page cur (tsk + 24)" "off_page cur (tsk + 4072)" "off_page cur (tsk + 4084)"
    "off_page cur (tsk + 4088)" "off_page cur (tsk + 4092)"
    using ready(2,3) k [of 24] k [of 4072] k [of 4084] k [of 4088] k [of 4092]
    by (auto simp: off_page_def pages_apart_def)
  define m1 where "m1 = saved_by c cur"
  note same = saved_by_words(7) [OF pg, folded m1_def]
  have n: "frame_of m1 tsk = tsk + 4056" using frame same [OF off(1)] by (simp add: frame_of_def)
  have w: "load32 m1 (tsk + 4072) = initial" "load32 m1 (tsk + 4084) = proc" "load32 m1 (tsk + 4088) = exit_addr"
    "load32 m1 (tsk + 4092) = params"
    using stack off same by (simp_all add: init_stack_words)
  have a: "a = resumed m1 cur tsk c" unfolding a_def m1_def by (rule switch_to_exec [OF ready(1)])
  have aa: "eip a = initial" "gpr a ESP = tsk + 4076" "gpr a EAX = cur" "cmem a = m1"
    using w(1) by (simp_all add: a resumed_def n Let_def add.commute)
  show ?thesis
    using switch_initial_exec [OF ready(3) aa(2) callee, of ra, folded call_def b_def] aa w
    by (simp add: top_def add.commute)
qed

section \<open>A concrete switch\<close>

definition old_task :: u32 where "old_task = 0xC0101000"
definition new_task :: u32 where "new_task = 0xC0105000"

text \<open>A task about to switch to one \<open>task_create\<close> has just made.\<close>

definition switching :: cpu where
  "switching = \<lparr>gpr = (\<lambda>r. case r of EBX \<Rightarrow> 1 | EBP \<Rightarrow> 2 | ESI \<Rightarrow> 3 | EDI \<Rightarrow> 4 | ESP \<Rightarrow> 0xC0101F00 | _ \<Rightarrow> 0),
     eip = 0, iflag = False,
     cmem = init_stack 0xC0105000 0xC0020300 7 0xC0020100 0xC0020200
       (store32 0xC0105018 0xC0105FD8 (store32 0xC0101F00 0xC0020444
         (store32 0xC0101F04 0xC0101000 (store32 0xC0101F08 0xC0105000 (store32 0xC0030000 24 (\<lambda>_. 0))))))\<rparr>"

lemma switching_ready: "switch_ready 0xC0030000 old_task new_task switching"
  by (simp add: switch_ready_def switching_def old_task_def new_task_def in_page_def off_page_def init_stack_def
      store32_def load32_def)

theorem first_switch_witness:
  "eip (exec id (switch_initial_code 0xC0020210) (exec id (switch_to_code 0xC0030000) switching)) = 0xC0020300"
proof -
  have "cdecl new_task id" by (simp add: cdecl_def)
  moreover have "frame_of (cmem switching) new_task = new_task + 4056"
    by (simp add: frame_of_def switching_def new_task_def init_stack_def store32_def load32_def)
  moreover obtain m where "cmem switching = init_stack new_task 0xC0020300 7 0xC0020100 0xC0020200 m"
    by (simp add: switching_def new_task_def)
  then have "\<forall>k\<in>{4072, 4084, 4088, 4092}. load32 (cmem switching) (new_task + k) =
      load32 (init_stack new_task 0xC0020300 7 0xC0020100 0xC0020200 m) (new_task + k)"
    by simp
  moreover have "pages_apart old_task new_task" "unat new_task + 4096 < 4294967296"
    by (simp_all add: pages_apart_def old_task_def new_task_def)
  ultimately show ?thesis
    using first_switch [OF switching_ready, of "0xC0020300" 7 "0xC0020100" "0xC0020200" m id "0xC0020210"] by blast
qed

theorem switch_changes_current_witness:
  "current_of switching = old_task \<and> current_of (exec id (switch_to_code 0xC0030000) switching) = new_task"
proof -
  have f: "frame_of (cmem switching) new_task = 0xC0105FD8"
    by (simp add: frame_of_def switching_def new_task_def init_stack_def store32_def load32_def)
  have "pages_apart old_task new_task" by (simp add: pages_apart_def old_task_def new_task_def)
  then show ?thesis
    using switch_changes_current [OF switching_ready, of id] f by (simp add: old_task_def new_task_def)
qed

text \<open>The new task switches back at once.\<close>

definition switching_back :: cpu where
  "switching_back = \<lparr>gpr = (\<lambda>r. case r of ESP \<Rightarrow> 0xC0105F00 | _ \<Rightarrow> 9), eip = 0, iflag = True,
     cmem = store32 0xC0105F00 0xC0020555 (store32 0xC0105F04 0xC0105000 (store32 0xC0105F08 0xC0101000
       (saved_by switching old_task)))\<rparr>"

lemma switching_back_ready: "switch_ready 0xC0030000 new_task old_task switching_back"
proof -
  have "load32 (saved_by switching old_task) 0xC0030000 = 24"
    by (simp add: saved_by_def switching_def old_task_def Let_def init_stack_def store32_def load32_def)
  then have "load32 (cmem switching_back) 0xC0030000 = 24"
    by (simp add: switching_back_def load32_store32_other apart_def)
  then show ?thesis
    by (simp add: switch_ready_def old_task_def new_task_def in_page_def off_page_def)
      (simp add: switching_back_def load32_store32_other apart_def)
qed

theorem switch_round_trip_witness:
  "eip (exec id (switch_to_code 0xC0030000) switching_back) = 0xC0020444 \<and>
   gpr (exec id (switch_to_code 0xC0030000) switching_back) EAX = new_task \<and>
   gpr (exec id (switch_to_code 0xC0030000) switching_back) EBX = 1"
proof -
  have e: "gpr switching ESP = 0xC0101F00" "gpr switching EBX = 1" "load32 (cmem switching) 0xC0101F00 = 0xC0020444"
    by (simp_all add: switching_def init_stack_def store32_def load32_def)
  have "\<forall>a\<in>set (frame_words old_task (gpr switching ESP - 16)). load32 (cmem switching_back) a =
      load32 (cmem (exec id (switch_to_code 0xC0030000) switching)) a"
    unfolding switch_to_exec [OF switching_ready] e(1)
    by (simp add: frame_words_def old_task_def resumed_def Let_def)
      (simp add: switching_back_def load32_store32_other apart_def old_task_def)
  moreover have "pages_apart old_task new_task" by (simp add: pages_apart_def old_task_def new_task_def)
  ultimately show ?thesis
    using switch_round_trip [OF switching_ready switching_back_ready] e by simp
qed

end
