(* ===== verification/Kbd.thy ===== *)
theory Kbd
  imports Ide
begin

text \<open>
  The keyboard driver, \<open>devices/kbd.c\<close>: the key maps, the modifier keys and the interrupt
  that turns scan codes into characters. A key map is the list of its groups up to the
  terminating entry, a group its first scan code and the bytes of its string. The character
  is printed with \<open>printk\<close>, which the machine records in the kernel log.
\<close>

section \<open>Key maps\<close>

record keymap =
  scan_code_first :: u16
  chars :: "u8 list"

definition group :: "u16 \<Rightarrow> string \<Rightarrow> keymap" where
  "group first cs = \<lparr>scan_code_first = first, chars = map of_char cs\<rparr>"

definition invariant_keymap :: "keymap list" where
  "invariant_keymap =
     [group 0x01 [CHR 0x1b], group 0x0e [CHR 0x08], group 0x0f (CHR 0x09 # ''QWERTYUIOP''),
      group 0x1c [CHR 0x0d], group 0x1e ''ASDFGHJKL'', group 0x2c ''ZXCVBNM'',
      group 0x37 ''*'', group 0x39 '' '', group 0x53 [CHR 0x7f]]"

definition unshifted_keymap :: "keymap list" where
  "unshifted_keymap =
     [group 0x02 ''1234567890-='', group 0x1a ''[]'', group 0x27 [CHR '';'', CHR 0x27, CHR 0x60],
      group 0x2b [CHR 0x5c], group 0x33 '',./'']"

definition shifted_keymap :: "keymap list" where
  "shifted_keymap =
     [group 0x02 ''!@#$%^&*()_+'', group 0x1a ''{}'', group 0x27 [CHR '':'', CHR 0x22, CHR ''~''],
      group 0x2b ''|'', group 0x33 ''<>?'']"

text \<open>\<open>map_scan_code\<close> returns the character instead of storing it.\<close>

fun map_scan_code :: "keymap list \<Rightarrow> u16 \<Rightarrow> u8 option" where
  "map_scan_code [] scan_code = None"
| "map_scan_code (km # kms) scan_code =
     (let code_group_len = length (chars km)
      in if scan_code_first km \<le> scan_code \<and> unat scan_code < unat (scan_code_first km) + code_group_len
         then Some (chars km ! (unat scan_code - unat (scan_code_first km)))
         else map_scan_code kms scan_code)"

section \<open>The interrupt\<close>

record kbd =
  left_shift :: bool
  right_shift :: bool
  left_alt :: bool
  right_alt :: bool
  left_ctrl :: bool
  right_ctrl :: bool
  caps_locks :: bool

definition special_keymap :: "(u16 \<times> (bool \<Rightarrow> kbd \<Rightarrow> kbd)) list" where
  "special_keymap =
     [(0x1d, \<lambda>b k. k\<lparr>left_ctrl := b\<rparr>), (0x2a, \<lambda>b k. k\<lparr>left_shift := b\<rparr>), (0x36, \<lambda>b k. k\<lparr>right_shift := b\<rparr>),
      (0x38, \<lambda>b k. k\<lparr>left_alt := b\<rparr>), (0xe01d, \<lambda>b k. k\<lparr>right_ctrl := b\<rparr>), (0xe038, \<lambda>b k. k\<lparr>right_alt := b\<rparr>)]"

fun special_loop :: "(u16 \<times> (bool \<Rightarrow> kbd \<Rightarrow> kbd)) list \<Rightarrow> u16 \<Rightarrow> bool \<Rightarrow> kbd \<Rightarrow> kbd" where
  "special_loop [] scan_code v k = k"
| "special_loop ((code, set_state) # sps) scan_code v k =
     (if code = scan_code then set_state v k else special_loop sps scan_code v k)"

definition DATA_REG :: u16 where "DATA_REG = 0x60"

text \<open>The scan code, one byte or the prefix and a second one.\<close>

definition read_scan_code :: "device \<Rightarrow> machine \<Rightarrow> u16 \<times> machine" where
  "read_scan_code dev s =
     (let (v, s) = sys_in dev DATA_REG s;
          scan_code = ucast v :: u16
      in if scan_code = 0xe0
         then (let (w, s) = sys_in dev DATA_REG s in (push_bit 8 scan_code OR ucast w, s))
         else (scan_code, s))"

text \<open>The character of a key that is pressed, after the modifiers.\<close>

definition modify_char :: "kbd \<Rightarrow> u8 \<Rightarrow> u8" where
  "modify_char k ch =
     (let shift = left_shift k \<or> right_shift k;
          alt = left_alt k \<or> right_alt k;
          ctrl = left_ctrl k \<or> right_alt k;
          ch = (if ctrl \<and> 0x40 \<le> sint ch \<and> sint ch < 0x60 then ch - 0x40
                else if shift = caps_locks k then ucast (tolower (scast ch))
                else ch)
      in if alt then ch + 0x80 else ch)"

definition key_char :: "kbd \<Rightarrow> u16 \<Rightarrow> u8 option" where
  "key_char k scan_code =
     (let shift = left_shift k \<or> right_shift k
      in case map_scan_code invariant_keymap scan_code of
           Some ch \<Rightarrow> Some ch
         | None \<Rightarrow> map_scan_code (if shift then shifted_keymap else unshifted_keymap) scan_code)"

definition kbd_isr :: "device \<Rightarrow> kbd \<times> machine \<Rightarrow> kbd \<times> machine" where
  "kbd_isr dev = (\<lambda>(k, s).
     let (scan_code, s) = read_scan_code dev s;
         release = (scan_code AND 0x80 \<noteq> 0);
         scan_code = scan_code AND NOT 0x80
     in if scan_code = 0x3a
        then (if \<not> release then k\<lparr>caps_locks := \<not> caps_locks k\<rparr> else k, s)
        else
          (case key_char k scan_code of
             Some ch \<Rightarrow> (k, if \<not> release then sys_log ''%c'' [scast (modify_char k ch)] s else s)
           | None \<Rightarrow> (special_loop special_keymap scan_code (\<not> release) k, s)))"

definition kbd_init :: "machine \<Rightarrow> machine" where
  "kbd_init s = s\<lparr>gates := set_interrupt_gate (0x20 + 1) kbd_interrupt (gates s)\<rparr>"

section \<open>Typing\<close>

definition no_keys :: kbd where
  "no_keys = \<lparr>left_shift = False, right_shift = False, left_alt = False, right_alt = False,
     left_ctrl = False, right_ctrl = False, caps_locks = False\<rparr>"

text \<open>The character a key types with or without shift.\<close>

definition typed :: "bool \<Rightarrow> u16 \<Rightarrow> u8 option" where
  "typed shift code = map_option (modify_char (no_keys\<lparr>left_shift := shift\<rparr>)) (key_char (no_keys\<lparr>left_shift := shift\<rparr>) code)"

lemmas keymap_defs = invariant_keymap_def unshifted_keymap_def shifted_keymap_def group_def

lemma modify_plain:
  "modify_char (no_keys\<lparr>left_shift := shift\<rparr>) ch = (if shift then ch else ucast (tolower (scast ch)))"
  by (simp add: modify_char_def no_keys_def)

lemma key_char_plain:
  "key_char (no_keys\<lparr>left_shift := shift\<rparr>) code = (case map_scan_code invariant_keymap code of
     Some ch \<Rightarrow> Some ch | None \<Rightarrow> map_scan_code (if shift then shifted_keymap else unshifted_keymap) code)"
  by (simp add: key_char_def no_keys_def cong: if_cong option.case_cong)

text \<open>For each character from 32 to 126, whether shift is held and the key that types it.\<close>

definition key_table :: "(bool \<times> u16) list" where
  "key_table =
     [(False, 57), (True, 2), (True, 40), (True, 4), (True, 5), (True, 6), (True, 8), (False, 40), (True,
      10), (True, 11), (False, 55), (True, 13), (False, 51), (False, 12), (False, 52), (False, 53),
      (False, 11), (False, 2), (False, 3), (False, 4), (False, 5), (False, 6), (False, 7), (False, 8),
      (False, 9), (False, 10), (True, 39), (False, 39), (True, 51), (False, 13), (True, 52), (True, 53),
      (True, 3), (True, 30), (True, 48), (True, 46), (True, 32), (True, 18), (True, 33), (True, 34),
      (True, 35), (True, 23), (True, 36), (True, 37), (True, 38), (True, 50), (True, 49), (True, 24),
      (True, 25), (True, 16), (True, 19), (True, 31), (True, 20), (True, 22), (True, 47), (True, 17),
      (True, 45), (True, 21), (True, 44), (False, 26), (False, 43), (False, 27), (True, 7), (True, 12),
      (False, 41), (False, 30), (False, 48), (False, 46), (False, 32), (False, 18), (False, 33), (False,
      34), (False, 35), (False, 23), (False, 36), (False, 37), (False, 38), (False, 50), (False, 49),
      (False, 24), (False, 25), (False, 16), (False, 19), (False, 31), (False, 20), (False, 22), (False,
      47), (False, 17), (False, 45), (False, 21), (False, 44), (True, 26), (True, 43), (True, 27), (True,
      41)]"

lemma key_table_types: "map (\<lambda>(sh, c). typed sh c) key_table = map (\<lambda>n. Some (of_nat n)) [32..<127]"
  unfolding key_table_def list.map prod.case typed_def modify_plain key_char_plain keymap_defs
  by (simp add: tolower_def isupper_def Let_def upt_rec_numeral)

lemma key_table_codes: "\<forall>(sh, c)\<in>set key_table. c < 0x80 \<and> c \<noteq> 0x3a"
  by (simp add: key_table_def)

lemma key_table_entry:
  assumes "32 \<le> n" "n < 127"
  obtains sh c where "typed sh c = Some (of_nat n)" "c < 0x80" "c \<noteq> 0x3a"
proof -
  obtain sh c where e: "key_table ! (n - 32) = (sh, c)" by fastforce
  have len: "length key_table = 95" by (simp add: key_table_def)
  have "map (\<lambda>(sh, c). typed sh c) key_table ! (n - 32) = Some (of_nat n)"
    using assms unfolding key_table_types using nth_upt [of 32 "n - 32" 127] by (simp del: upt_rec_numeral)
  then have "typed sh c = Some (of_nat n)" using e len assms by simp
  moreover have "(sh, c) \<in> set key_table" using nth_mem [of "n - 32" key_table] e len assms by simp
  ultimately show ?thesis using that key_table_codes by blast
qed

definition plain_keys :: "bool \<Rightarrow> kbd \<Rightarrow> bool" where
  "plain_keys shift k \<longleftrightarrow> (left_shift k \<or> right_shift k) = shift \<and> \<not> left_alt k \<and> \<not> right_alt k \<and>
     \<not> left_ctrl k \<and> \<not> caps_locks k"

lemma plain_typed:
  "plain_keys shift k \<Longrightarrow> typed shift code = map_option (modify_char k) (key_char k code)"
proof -
  assume k: "plain_keys shift k"
  have "modify_char (no_keys\<lparr>left_shift := shift\<rparr>) = modify_char k"
    by (rule ext) (use k in \<open>auto simp: plain_keys_def modify_char_def no_keys_def Let_def\<close>)
  moreover have "key_char (no_keys\<lparr>left_shift := shift\<rparr>) code = key_char k code"
    using k by (simp add: plain_keys_def key_char_def no_keys_def cong: if_cong option.case_cong)
  ultimately show ?thesis by (simp add: typed_def)
qed

lemma press_key:
  assumes "ucast (dev (hist s) 0x60) = (ucast c :: u8)" "c < 0x80" "c \<noteq> 0x3a" "key_char k c = Some ch"
  shows "kbd_isr dev (k, s) = (k, sys_log ''%c'' [scast (modify_char k ch)] (s\<lparr>hist := hist s @ [InB 0x60 (ucast c)]\<rparr>))"
proof -
  have c: "unat c < 128" using assms(2) by (simp add: word_less_nat_alt)
  have "take_bit 7 c = c"
    by (rule word_unat_eq_iff [THEN iffD2]) (use c in \<open>simp only: unsigned_take_bit_eq, simp add: take_bit_nat_eq_self\<close>)
  then have hi: "n < 7" if "bit c n" for n using that by (metis bit_take_bit_iff)
  then have "\<not> bit c 7" by blast
  have u: "ucast (ucast c :: u8) = c" by (rule bit_word_eqI) (auto simp: bit_simps dest: hi)
  have b: "c AND 0x80 = 0" using \<open>\<not> bit c 7\<close> and_exp_eq_0_iff_not_bit [of c 7] by simp
  have z: "\<not> (bit c n \<and> bit (0x80 :: u16) n)" for n using b by (metis bit_0_eq bit_and_iff bot_apply bot_bool_def)
  have b2: "c AND NOT 0x80 = c"
  proof (rule bit_word_eqI)
    fix n assume "n < LENGTH(16)"
    then show "bit (c AND NOT 0x80) n = bit c n" using z [of n] by (simp only: bit_and_iff bit_not_iff) auto
  qed
  have "c \<noteq> 0xe0" using assms(2) by auto
  then have "read_scan_code dev s = (c, s\<lparr>hist := hist s @ [InB 0x60 (ucast c)]\<rparr>)"
    using u assms(1) by (simp add: read_scan_code_def sys_in_def inb_def DATA_REG_def Let_def)
  then show ?thesis using assms(3,4) b b2 by (simp add: kbd_isr_def Let_def)
qed



text \<open>
  The right control key has no effect: whatever the keyboard sends and whatever else is
  held, what is printed does not depend on its state (the right alt key is read instead).
\<close>

theorem right_control_ignored:
  "snd (kbd_isr dev (k\<lparr>right_ctrl := b\<rparr>, s)) = snd (kbd_isr dev (k, s))"
proof -
  have "key_char (k\<lparr>right_ctrl := b\<rparr>) c = key_char k c" "modify_char (k\<lparr>right_ctrl := b\<rparr>) ch = modify_char k ch" for c ch
    by (simp add: key_char_def, auto simp: modify_char_def Let_def)
  then show ?thesis by (simp add: kbd_isr_def Let_def case_prod_beta split: option.splits)
qed

end
