(* ===== verification/Serial.thy ===== *)
theory Serial
  imports Ide_Props
begin

text \<open>
  The serial port, \<open>devices/serial.c\<close>: initialisation by polling, the interrupt that echoes what
  is received, and the blocking output. The address of the semaphore \<open>sema_write\<close> is the
  linker's. The wait for an empty transmitter has no bound: it is a partial function.

  The last section runs the initialisation against the registers of a 16550A.
\<close>

section \<open>The driver\<close>

abbreviation (input) RBR_REG :: u16 where "RBR_REG \<equiv> 0x3f8"
abbreviation (input) THR_REG :: u16 where "THR_REG \<equiv> 0x3f8"
abbreviation (input) IER_REG :: u16 where "IER_REG \<equiv> 0x3f9"
abbreviation (input) LS_REG :: u16 where "LS_REG \<equiv> 0x3f8"
abbreviation (input) MS_REG :: u16 where "MS_REG \<equiv> 0x3f9"
abbreviation (input) IIR_REG :: u16 where "IIR_REG \<equiv> 0x3fa"
abbreviation (input) FCR_REG :: u16 where "FCR_REG \<equiv> 0x3fb"
abbreviation (input) LCR_REG :: u16 where "LCR_REG \<equiv> 0x3fc"
abbreviation (input) LSR_REG :: u16 where "LSR_REG \<equiv> 0x3fe"

abbreviation (input) IER_RX :: u8 where "IER_RX \<equiv> 0x01"
abbreviation (input) LCR_WLS0 :: u8 where "LCR_WLS0 \<equiv> 0x01"
abbreviation (input) LCR_WLS1 :: u8 where "LCR_WLS1 \<equiv> 0x02"
abbreviation (input) LCR_DLAB :: u8 where "LCR_DLAB \<equiv> 0x80"
abbreviation (input) LSR_THRE :: u8 where "LSR_THRE \<equiv> 0x20"

definition serial_set_rate :: "device \<Rightarrow> u32 \<Rightarrow> machine \<Rightarrow> machine" where
  "serial_set_rate dev bps s =
     (let divisor = 115200 div bps;
          (lcr, s) = sys_in dev LCR_REG s;
          lcr = lcr OR LCR_DLAB;
          s = sys_out LCR_REG lcr s;
          s = sys_out LS_REG (ucast (divisor AND 0xff)) s;
          s = sys_out MS_REG (ucast (divisor AND 0xff)) s;
          lcr = lcr AND NOT LCR_DLAB
      in sys_out LCR_REG lcr s)"

definition serial_init_poll :: "device \<Rightarrow> machine \<Rightarrow> machine" where
  "serial_init_poll dev s =
     (let s = sys_out IER_REG 0 s;
          s = sys_out FCR_REG 0 s;
          s = sys_out LCR_REG (LCR_WLS0 OR LCR_WLS1) s
      in serial_set_rate dev 9600 s)"

partial_function (option) serial_putc_poll :: "device \<Rightarrow> u8 \<Rightarrow> machine \<Rightarrow> machine option" where
  "serial_putc_poll dev ch s =
     (let (v, s) = sys_in dev LSR_REG s
      in if v AND LSR_THRE = 0 then serial_putc_poll dev ch s else Some (sys_out THR_REG ch s))"

definition serial_putc :: "device \<Rightarrow> env \<Rightarrow> u32 \<Rightarrow> u8 \<Rightarrow> machine \<Rightarrow> machine result" where
  "serial_putc dev env sema_write ch s =
     bindE (down env sema_write s) (\<lambda>s.
     bindE (spin (serial_putc_poll dev ch s)) (\<lambda>s. up sema_write s))"

definition serial_isr :: "device \<Rightarrow> env \<Rightarrow> u32 \<Rightarrow> machine \<Rightarrow> machine result" where
  "serial_isr dev env sema_write s =
     (let (iir, s) = sys_in dev IIR_REG s;
          (rx_ch, s) = sys_in dev RBR_REG s
      in bindE (serial_putc dev env sema_write rx_ch s) (\<lambda>s.
         bindE (if rx_ch = 13 then serial_putc dev env sema_write 10 s else Inr s) (\<lambda>s.
           Inr (sys_out IER_REG IER_RX s))))"

definition set_intr :: "bool \<Rightarrow> machine \<Rightarrow> machine" where
  "set_intr b s = s\<lparr>krn := (krn s)\<lparr>intr_on := b\<rparr>\<rparr>"

definition serial_enable_intr :: "machine \<Rightarrow> machine" where
  "serial_enable_intr s =
     (let s = set_intr False s;
          s = sys_out IER_REG IER_RX s
      in set_intr True s)"

definition serial_init :: "device \<Rightarrow> u32 \<Rightarrow> machine \<Rightarrow> machine" where
  "serial_init dev sema_write s =
     (let s = serial_init_poll dev s;
          s = s\<lparr>krn := sema_init sema_write 1 (krn s)\<rparr>;
          s = s\<lparr>gates := set_interrupt_gate (0x20 + 4) serial_interrupt (gates s)\<rparr>
      in serial_enable_intr s)"

section \<open>Output\<close>

text \<open>The bytes \<open>n\<close> polls of the line status register read.\<close>

fun line_status :: "device \<Rightarrow> nat \<Rightarrow> history \<Rightarrow> u8 list" where
  "line_status dev 0 h = []"
| "line_status dev (Suc n) h = (let v = ucast (dev h LSR_REG) in v # line_status dev n (h @ [InB LSR_REG v]))"

definition thre :: "u8 \<Rightarrow> bool" where
  "thre v \<longleftrightarrow> v AND LSR_THRE \<noteq> 0"

lemma putc_poll_sends:
  assumes "\<exists>v\<in>set (line_status dev n (hist s)). thre v"
  obtains vs where "serial_putc_poll dev ch s = Some (s\<lparr>hist := hist s @ map (InB LSR_REG) vs @ [OutB THR_REG ch]\<rparr>)"
    "length vs \<le> n" "vs \<noteq> []" "thre (last vs)" "\<forall>v\<in>set (butlast vs). \<not> thre v"
    "vs = line_status dev (length vs) (hist s)"
  using assms
proof (induction n arbitrary: s thesis)
  case (Suc n)
  let ?v = "ucast (dev (hist s) LSR_REG) :: u8"
  let ?s = "s\<lparr>hist := hist s @ [InB LSR_REG ?v]\<rparr>"
  have step: "serial_putc_poll dev ch s = (if thre ?v then Some (sys_out THR_REG ch ?s) else serial_putc_poll dev ch ?s)"
    by (subst serial_putc_poll.simps) (simp add: sys_in_def inb_def thre_def Let_def)
  show ?case
  proof (cases "thre ?v")
    case True
    then show ?thesis by (intro Suc.prems(1) [of "[?v]"]) (simp_all add: step sys_out_def outb_def Let_def)
  next
    case False
    then have "\<exists>v\<in>set (line_status dev n (hist ?s)). thre v" using Suc.prems(2) by (auto simp: Let_def)
    then obtain vs where "serial_putc_poll dev ch ?s = Some (?s\<lparr>hist := hist ?s @ map (InB LSR_REG) vs @ [OutB THR_REG ch]\<rparr>)"
      "length vs \<le> n" "vs \<noteq> []" "thre (last vs)" "\<forall>v\<in>set (butlast vs). \<not> thre v"
      "vs = line_status dev (length vs) (hist ?s)"
      using Suc.IH [of ?s] by blast
    then show ?thesis using False by (intro Suc.prems(1) [of "?v # vs"]) (simp_all add: step Let_def)
  qed
qed simp

text \<open>Conversely an output that returns has read a ready status.\<close>

definition will_be_ready :: "device \<Rightarrow> machine \<Rightarrow> bool" where
  "will_be_ready dev s \<longleftrightarrow> (\<exists>n. \<exists>v\<in>set (line_status dev n (hist s)). thre v)"

lemma will_be_ready_poll:
  assumes "thre (fst (sys_in dev LSR_REG s)) \<or> will_be_ready dev (snd (sys_in dev LSR_REG s))"
  shows "will_be_ready dev s"
proof -
  obtain n where "\<exists>v\<in>set (line_status dev (Suc n) (hist s)). thre v"
    using assms by (fastforce simp: will_be_ready_def sys_in_eq Let_def)
  then show ?thesis unfolding will_be_ready_def by blast
qed

lemma putc_poll_ready: "serial_putc_poll dev ch s = Some t \<Longrightarrow> will_be_ready dev s"
proof (erule serial_putc_poll.raw_induct [rotated, where P = "\<lambda>dev ch s t. will_be_ready dev s"])
  fix f dev ch s t
  assume IH: "\<And>dev ch s t. f dev ch s = Some t \<Longrightarrow> will_be_ready dev s"
    and r: "(let (v, s) = sys_in dev LSR_REG s in if v AND LSR_THRE = 0 then f dev ch s else Some (sys_out THR_REG ch s)) = Some t"
  show "will_be_ready dev s"
    by (rule will_be_ready_poll) (use IH r in \<open>auto simp: thre_def split: prod.splits if_splits\<close>)
qed

text \<open>
  C35: The polled output returns exactly when the transmitter reports empty at some poll, and
  then it has read the line status up to the first such answer and written the character,
  once, to the transmitter; otherwise it polls for ever.
\<close>

theorem putc_poll_terminates_iff:
  "case serial_putc_poll dev ch s of
     None \<Rightarrow> \<forall>n. filter thre (line_status dev n (hist s)) = []
   | Some t \<Rightarrow> \<exists>vs. t = s\<lparr>hist := hist s @ map (InB LSR_REG) vs @ [OutB THR_REG ch]\<rparr> \<and>
       vs = line_status dev (length vs) (hist s) \<and> vs \<noteq> [] \<and> thre (last vs) \<and> filter thre (butlast vs) = []"
proof (cases "serial_putc_poll dev ch s")
  case None
  have "filter thre (line_status dev n (hist s)) = []" for n
  proof (rule ccontr)
    assume "filter thre (line_status dev n (hist s)) \<noteq> []"
    then have "\<exists>v\<in>set (line_status dev n (hist s)). thre v" by (auto simp: filter_empty_conv)
    then show False using None by (elim putc_poll_sends [where ch = ch]) simp
  qed
  then show ?thesis using None by simp
next
  case (Some t)
  then obtain n where "\<exists>v\<in>set (line_status dev n (hist s)). thre v"
    using putc_poll_ready unfolding will_be_ready_def by blast
  then obtain vs where "serial_putc_poll dev ch s = Some (s\<lparr>hist := hist s @ map (InB LSR_REG) vs @ [OutB THR_REG ch]\<rparr>)"
    "vs \<noteq> []" "thre (last vs)" "\<forall>v\<in>set (butlast vs). \<not> thre v" "vs = line_status dev (length vs) (hist s)"
    by (rule putc_poll_sends)
  then show ?thesis using Some by (auto simp: filter_empty_conv)
qed

section \<open>The chip\<close>

text \<open>
  The registers of a 16550A at its base address, from its data sheet: 0 is the transmitter or,
  while bit 7 of the line control register is set, the low divisor latch; 1 is the interrupt
  enable register or the high latch; 2, 3 and 4 are the FIFO, line and modem control registers.
\<close>

record uart =
  dll :: u8
  dlm :: u8
  ier :: u8
  fcr :: u8
  lcr :: u8
  mcr :: u8
  sent :: "u8 list"

fun uart_event :: "u16 \<Rightarrow> io_event \<Rightarrow> uart \<Rightarrow> uart" where
  "uart_event b (OutB p v) u =
     (if p = b then (if bit (lcr u) 7 then u\<lparr>dll := v\<rparr> else u\<lparr>sent := sent u @ [v]\<rparr>)
      else if p = b + 1 then (if bit (lcr u) 7 then u\<lparr>dlm := v\<rparr> else u\<lparr>ier := v\<rparr>)
      else if p = b + 2 then u\<lparr>fcr := v\<rparr> else if p = b + 3 then u\<lparr>lcr := v\<rparr>
      else if p = b + 4 then u\<lparr>mcr := v\<rparr> else u)"
| "uart_event b _ u = u"

lemma serial_init_poll_events:
  "\<exists>l. hist (serial_init_poll dev s) = hist s @
    [OutB 0x3f9 0, OutB 0x3fb 0, OutB 0x3fc 3, InB 0x3fc l, OutB 0x3fc (l OR 0x80), OutB 0x3f8 12, OutB 0x3f9 12,
     OutB 0x3fc ((l OR 0x80) AND NOT 0x80)]"
  by (simp add: serial_init_poll_def serial_set_rate_def sys_out_def outb_def sys_in_def inb_def Let_def)

text \<open>
  The port is not set up as intended. On a 16550A that is out of divisor-latch mode the
  initialisation does not set a divisor at all, selects 5-bit words and sends a stray byte
  12, because the control registers are addressed one too high; and were the latches
  selected, both halves would get the low byte of the divisor, 257 times the intended 12.
\<close>

theorem serial_misprogrammed:
  assumes "\<not> bit (lcr u) 7"
  shows "\<exists>evs. hist (serial_init_poll dev s) = hist s @ evs \<and>
    (let v = fold (uart_event 0x3f8) evs u
     in dll v = dll u \<and> dlm v = dlm u \<and> lcr v = 0 \<and> sent v = sent u @ [12]) \<and>
    (\<exists>pre l h post. evs = pre @ [OutB LS_REG l, OutB MS_REG h] @ post \<and> unat l + 256 * unat h = 257 * (115200 div 9600))"
proof -
  obtain l where e: "hist (serial_init_poll dev s) = hist s @ ([OutB 0x3f9 0, OutB 0x3fb 0, OutB 0x3fc 3, InB 0x3fc l,
      OutB 0x3fc (l OR 0x80)] @ [OutB LS_REG 12, OutB MS_REG 12] @ [OutB 0x3fc ((l OR 0x80) AND NOT 0x80)])"
    (is "_ = _ @ ?evs")
    using serial_init_poll_events [of dev s] by auto
  have "let v = fold (uart_event 0x3f8) ?evs u in dll v = dll u \<and> dlm v = dlm u \<and> lcr v = 0 \<and> sent v = sent u @ [12]"
    using assms by (simp add: Let_def)
  moreover have "unat (12 :: u8) + 256 * unat (12 :: u8) = 257 * (115200 div 9600)" by simp
  ultimately show ?thesis using e by blast
qed

theorem serial_misprogrammed_witness:
  "let v = fold (uart_event 0x3f8) (hist (serial_init_poll quiet_dev quiet_machine))
     \<lparr>dll = 1, dlm = 0, ier = 0, fcr = 0, lcr = 3, mcr = 0, sent = []\<rparr>
   in dll v = 1 \<and> dlm v = 0 \<and> lcr v = 0 \<and> sent v = [12]"
proof -
  let ?u = "\<lparr>dll = 1, dlm = 0, ier = 0, fcr = 0, lcr = 3, mcr = 0, sent = []\<rparr>"
  have "\<not> bit (lcr ?u) 7" "hist quiet_machine = []" by (simp_all add: quiet_machine_def)
  then show ?thesis using serial_misprogrammed [of ?u quiet_dev quiet_machine] by (auto simp: Let_def)
qed

end
