(* ===== verification/Paging.thy ===== *)
theory Paging
  imports Kernel_Props
begin

text \<open>
  The kernel's page tables: \<open>kernel_pg_dir_init\<close> of \<open>kernel/init.c\<close>, on the page allocator and
  the byte memory. The addresses of the kernel's text are the linker's and are arguments; the
  value loaded into \<open>cr3\<close> is the result.

  \<open>walk\<close> is the translation of the memory management unit. The tables are shown to translate
  every address of the linear mapping to its physical address, to protect the kernel's text,
  and to map nothing else.
\<close>

section \<open>The operation\<close>

definition entry_addr :: "u32 \<Rightarrow> u32 \<Rightarrow> u32" where
  "entry_addr table idx = table + 4 * idx"

definition map_page :: "u32 \<Rightarrow> u32 \<Rightarrow> u32 \<Rightarrow> u32 \<Rightarrow> (u32 \<times> mm) result \<Rightarrow> (u32 \<times> mm) result" where
  "map_page start end_kernel_text pd i r = bindE r (\<lambda>(pt, s).
     let flags = PTE_P OR PTE_W;
         paddr = push_bit PAGE_BITS i;
         vaddr = ptov paddr;
         pd_idx = virt_to_pd_idx vaddr
     in bindE
       (if load32 (mem s) (entry_addr pd pd_idx) = 0
        then bindE (mm_kget_page (PF_ZERO OR PF_ATOMIC) s) (\<lambda>(pt, s).
          Inr (pt, s\<lparr>mem := store32 (entry_addr pd pd_idx) (mk_pde (vtop pt) flags) (mem s)\<rparr>))
        else Inr (pt, s))
       (\<lambda>(pt, s).
         let pt_idx = virt_to_pt_idx vaddr;
             flags = (if start \<le> vaddr \<and> vaddr < end_kernel_text then flags AND NOT PTE_W else flags)
         in Inr (pt, s\<lparr>mem := store32 (entry_addr pt pt_idx) (mk_pte (vtop vaddr) flags) (mem s)\<rparr>)))"

definition kernel_pg_dir_init :: "u32 \<Rightarrow> u32 \<Rightarrow> u32 \<Rightarrow> mm \<Rightarrow> (u32 \<times> mm) result" where
  "kernel_pg_dir_init start end_kernel_text init_ram_pages s =
     bindE (mm_kget_page (PF_ZERO OR PF_ATOMIC) s) (\<lambda>(pd, s).
       bindE (for_loop 0 init_ram_pages (map_page start end_kernel_text pd) (Inr (NULL, s)))
         (\<lambda>(pt, s). Inr (vtop pd, s)))"

section \<open>Tables in memory\<close>

definition aligned :: "u32 \<Rightarrow> bool" where
  "aligned p \<longleftrightarrow> unat p mod 4096 = 0"

definition entry :: "memory \<Rightarrow> u32 \<Rightarrow> nat \<Rightarrow> u32" where
  "entry m p i = load32 m (entry_addr p (of_nat i))"

lemma aligned_multiple:
  assumes "aligned p"
  obtains d where "unat p = 4096 * d" "d \<le> 1048575"
proof
  show "unat p = 4096 * (unat p div 4096)"
    using assms div_mult_mod_eq [of "unat p" 4096] by (simp add: aligned_def)
  then show "unat p div 4096 \<le> 1048575" using u32_lt [of p] by linarith
qed

lemma unat_entry_addr:
  assumes "aligned p" "i < 1024"
  shows "unat (entry_addr p (of_nat i)) = unat p + 4 * i" "unat p + 4 * i + 3 < 4294967296"
proof -
  obtain d where "unat p = 4096 * d" "d \<le> 1048575" by (rule aligned_multiple [OF assms(1)])
  then have p: "unat p \<le> 4294963200" by linarith
  with assms(2) show "unat p + 4 * i + 3 < 4294967296" by linarith
  have "unat (4 * of_nat i :: u32) = 4 * i" using assms(2) by (simp add: unat_word_ariths unat_of_nat)
  then show "unat (entry_addr p (of_nat i)) = unat p + 4 * i"
    using p assms(2) unfolding entry_addr_def by (subst unat_plus_no_wrap) simp_all
qed

lemma aligned_apart:
  assumes "aligned p" "aligned q" "p \<noteq> q"
  shows "unat p + 4096 \<le> unat q \<or> unat q + 4096 \<le> unat p"
proof -
  obtain d e where d: "unat p = 4096 * d" and e: "unat q = 4096 * e"
    using aligned_multiple [OF assms(1)] aligned_multiple [OF assms(2)] by metis
  have "unat p \<noteq> unat q" using assms(3) by (simp add: unat_inj_iff)
  then have "d < e \<or> e < d" unfolding d e by auto
  then show ?thesis unfolding d e by linarith
qed

lemma entry_store:
  assumes "aligned p" "aligned q" "i < 1024" "j < 1024"
  shows "entry (store32 (entry_addr p (of_nat i)) w m) q j = (if p = q \<and> i = j then w else entry m q j)"
proof (cases "p = q \<and> i = j")
  case False
  have "apart (entry_addr p (of_nat i)) (entry_addr q (of_nat j))"
    unfolding apart_def unat_entry_addr(1) [OF assms(1,3)] unat_entry_addr(1) [OF assms(2,4)]
    using False aligned_apart [OF assms(1,2)] assms(3,4) by (cases "p = q") auto
  then have "entry (store32 (entry_addr p (of_nat i)) w m) q j = entry m q j"
    using unat_entry_addr [OF assms(1,3)] unat_entry_addr [OF assms(2,4)]
    by (simp add: entry_def load32_store32_other)
  then show ?thesis using False by auto
qed (simp add: entry_def)

text \<open>A fresh table: all its entries are 0, and no other table changes.\<close>

lemma load32_cong_range:
  assumes "unat a + 3 < 4294967296" "\<And>x. unat a \<le> unat x \<Longrightarrow> unat x \<le> unat a + 3 \<Longrightarrow> m x = m' x"
  shows "load32 m a = load32 m' a"
proof -
  have "unat (a + 1) = unat a + 1" "unat (a + 2) = unat a + 2" "unat (a + 3) = unat a + 3"
    using assms(1) by (simp_all add: unat_plus_no_wrap)
  then show ?thesis by (intro load32_cong assms(2)) simp_all
qed

lemma load32_zero: "load32 (\<lambda>_. 0) a = 0"
  by (simp add: load32_def)

lemma new_table:
  assumes inv: "pool_inv s" and free: "1 \<le> free_pages s"
  obtains p t where "mm_kget_page (PF_ZERO OR PF_ATOMIC) s = Inr (p, t)" "pool_inv t" "aligned p"
    "unat p div 4096 \<notin> taken s" "taken t = insert (unat p div 4096) (taken s)"
    "free_pages s \<le> free_pages t + 1" "\<forall>i<1024. entry (mem t) p i = 0"
    "\<forall>q i. aligned q \<longrightarrow> q \<noteq> p \<longrightarrow> i < 1024 \<longrightarrow> entry (mem t) q i = entry (mem s) q i" "p \<noteq> NULL"
proof -
  obtain p t where get: "mm_kget_page (PF_ZERO OR PF_ATOMIC) s = Inr (p, t)" and p: "p \<noteq> NULL"
    by (rule free_page_left [OF inv free])
  have get': "mm_kget_pages (PF_ZERO OR PF_ATOMIC) 1 s = Inr (p, t)" using get by (simp add: mm_kget_page_def)
  note fresh = kget_fresh [OF inv get' p] and m = kget_mem [OF inv get' p]
  have at: "pages_at p 1 = {unat p div 4096}" by (auto simp: pages_at_def)
  have al: "aligned p" using fresh(2) by (simp add: aligned_def)
  have "entry (mem t) p i = 0" if "i < 1024" for i
  proof -
    have "entry (mem t) p i = load32 (\<lambda>_. 0) (entry_addr p (of_nat i))"
      unfolding entry_def using unat_entry_addr [OF al that] that
      by (intro load32_cong_range) (simp_all add: m)
    then show ?thesis by (simp add: load32_zero)
  qed
  moreover have "entry (mem t) q i = entry (mem s) q i" if "aligned q" "q \<noteq> p" "i < 1024" for q i
    unfolding entry_def using unat_entry_addr [OF that(1,3)] that aligned_apart [OF that(1) al that(2)]
    by (intro load32_cong_range) (auto simp: m)
  ultimately show ?thesis
    using that [OF get fresh(1) al] fresh(3,4) free_pages_after [OF inv get p] p unfolding at by simp
qed

section \<open>Growth of the pool\<close>

text \<open>
  Allocation only adds pages, the lowest free one each time, and memory outside the pages taken
  keeps its contents.
\<close>

definition packed :: "mm \<Rightarrow> bool" where
  "packed s \<longleftrightarrow> taken s = {pool_base_page s ..< pool_base_page s + card (taken s)}"

definition grows :: "mm \<Rightarrow> mm \<Rightarrow> bool" where
  "grows s t \<longleftrightarrow> pool_base_page t = pool_base_page s \<and> pool_pages t = pool_pages s \<and> taken s \<subseteq> taken t \<and>
     (\<forall>a. unat a div 4096 \<notin> taken t \<longrightarrow> mem t a = mem s a) \<and> (packed s \<longrightarrow> packed t) \<and> klog t = klog s"

lemma grows_refl [simp]: "grows s s"
  by (simp add: grows_def)

lemma grows_trans: "grows s t \<Longrightarrow> grows t u \<Longrightarrow> grows s u"
  unfolding grows_def by (metis subset_iff)

lemma growsD: "grows s t \<Longrightarrow> taken s \<subseteq> taken t" "grows s t \<Longrightarrow> klog t = klog s"
  by (simp_all add: grows_def)

lemma new_page_grows:
  assumes inv: "pool_inv s" and get: "mm_kget_page pf s = Inr (p, t)" and p: "p \<noteq> NULL"
  shows "grows s t"
proof -
  have get': "mm_kget_pages pf 1 s = Inr (p, t)" using get by (simp add: mm_kget_page_def)
  note fresh = kget_fresh [OF inv get' p] and m = kget_mem [OF inv get' p]
  obtain r where r: "t = claim pf r 1 s" "bitmap_find_first_bits_group (bm (kernel_pool s)) 0 1 False = r"
    "unat r + unat (1 :: u32) \<le> pool_pages s" "unat p div 4096 = pool_base_page s + unat r"
    by (rule kget_block [OF inv get' p])
  have dims: "pool_base_page t = pool_base_page s" "pool_pages t = pool_pages s" by (simp_all add: r(1))
  have at: "pages_at p 1 = {pool_base_page s + unat r}" by (auto simp: pages_at_def r(4))
  have tk: "taken t = insert (pool_base_page s + unat r) (taken s)" "pool_base_page s + unat r \<notin> taken s"
    using fresh(3,4) by (auto simp: at)
  have "unat (1 :: u32) = 1" by simp
  then have "unat r < 4294967295"
    using r(3) u32_lt [of "bit_count (bm (kernel_pool s))"] unfolding pool_pages_def by linarith
  then have "r \<noteq> BITMAP_ERR" by auto
  then have lowest: "pool_base_page s + i \<in> taken s" if "i < unat r" for i
  proof -
    have "\<not> run_at (bm (kernel_pool s)) False i 1"
      using find_group_spec [of 1 "bm (kernel_pool s)" 0 False] \<open>r \<noteq> BITMAP_ERR\<close> that
      by (simp add: first_run_def r(2) del: One_nat_def)
    then have "bit_at (bm (kernel_pool s)) i"
      unfolding run_at_def by (metis Suc_eq_plus1 le_antisym less_Suc_eq_le)
    then show ?thesis using r(3) that by (simp add: taken_iff)
  qed
  have card: "card (taken t) = Suc (card (taken s))"
    using tk by (simp add: taken_def)
  have "packed t" if "packed s"
  proof -
    let ?b = "pool_base_page s"
    define n where "n = card (taken s)"
    have k: "taken s = {?b ..< ?b + n}" using that unfolding packed_def n_def .
    have r1: "\<not> unat r < n" using tk(2) unfolding k by simp
    have "?b + n \<notin> taken s" unfolding k by simp
    then have "\<not> n < unat r" using lowest by blast
    then have "unat r = n" using r1 by linarith
    then have "taken t = insert (?b + n) {?b ..< ?b + n}" using tk(1) unfolding k by simp
    moreover have "insert (?b + n) {?b ..< ?b + n} = {?b ..< ?b + Suc n}" by auto
    ultimately have "taken t = {?b ..< ?b + Suc n}" by (rule trans)
    then show ?thesis unfolding packed_def dims card n_def .
  qed
  moreover have "mem t a = mem s a" if "unat a div 4096 \<notin> taken t" for a
  proof -
    have "unat p div 4096 \<in> taken t" by (simp add: tk(1) r(4))
    then have "unat a div 4096 \<noteq> unat p div 4096" using that by auto
    moreover have "unat a div 4096 = unat p div 4096" if "unat p \<le> unat a" "unat a < unat p + 4096"
      using that fresh(2) by (intro same_page) simp_all
    ultimately have "\<not> (unat p \<le> unat a \<and> unat a < unat p + 4096)" by blast
    then show ?thesis by (auto simp: m)
  qed
  moreover have "klog t = klog s" by (simp add: r(1) claim_def Let_def)
  ultimately show ?thesis using dims tk(1) by (auto simp: grows_def)
qed

text \<open>A store into a table that is a page of the pool.\<close>

lemma entry_grows:
  assumes "aligned p" "unat p div 4096 \<in> taken s" "i < 1024"
  shows "grows s (s\<lparr>mem := store32 (entry_addr p (of_nat i)) w (mem s)\<rparr>)"
proof -
  note e = unat_entry_addr [OF assms(1,3)]
  have "store32 (entry_addr p (of_nat i)) w (mem s) a = mem s a" if "unat a div 4096 \<notin> taken s" for a
  proof (rule store32_other)
    show "unat (entry_addr p (of_nat i)) + 3 < 4294967296" using e by simp
    show "unat a < unat (entry_addr p (of_nat i)) \<or> unat (entry_addr p (of_nat i)) + 3 < unat a"
    proof (rule ccontr)
      assume "\<not> ?thesis"
      then have "unat a div 4096 = unat p div 4096"
        using assms(1,3) unfolding e(1) aligned_def by (intro same_page) simp_all
      then show False using assms(2) that by simp
    qed
  qed
  then show ?thesis by (simp add: grows_def packed_def)
qed

section \<open>The loop\<close>

text \<open>The entry of physical page \<open>n\<close>: present, and writable outside the kernel's text.\<close>

definition page_entry :: "u32 \<Rightarrow> u32 \<Rightarrow> nat \<Rightarrow> u32" where
  "page_entry start end_kernel_text n =
     (let p = push_bit 12 (of_nat n)
      in mk_pte p (if start \<le> ptov p \<and> ptov p < end_kernel_text then PTE_P else PTE_P OR PTE_W))"

text \<open>After \<open>k\<close> pages: \<open>ts\<close> are the \<open>n\<close> page tables so far, \<open>pt\<close> the last of them.\<close>

definition tables :: "u32 \<Rightarrow> u32 \<Rightarrow> u32 \<Rightarrow> nat \<Rightarrow> nat \<Rightarrow> u32 list \<Rightarrow> u32 \<Rightarrow> mm \<Rightarrow> bool" where
  "tables start end_kernel_text pd n k ts pt s \<longleftrightarrow>
     pool_inv s \<and> length ts = n \<and> (\<forall>p\<in>set (pd # ts). aligned p \<and> unat p div 4096 \<in> taken s) \<and>
     distinct (pd # ts) \<and> (ts \<noteq> [] \<longrightarrow> pt = last ts) \<and>
     (\<forall>i<1024. entry (mem s) pd i =
        (if 768 \<le> i \<and> i < 768 + length ts then mk_pde (vtop (ts ! (i - 768))) (PTE_P OR PTE_W) else 0)) \<and>
     (\<forall>j<length ts. \<forall>i<1024. entry (mem s) (ts ! j) i =
        (if j * 1024 + i < k then page_entry start end_kernel_text (j * 1024 + i) else 0))"

lemma page_indices:
  assumes "k < 262144"
  shows "virt_to_pd_idx (ptov (push_bit 12 (of_nat k))) = of_nat (768 + k div 1024)"
    "virt_to_pt_idx (ptov (push_bit 12 (of_nat k))) = of_nat (k mod 1024)"
    "768 + k div 1024 < 1024"
proof -
  have "unat (push_bit 12 (of_nat k) :: u32) = k * 4096"
    using assms by (simp add: push_bit_eq_mult unat_word_ariths unat_of_nat)
  then have v: "unat (ptov (push_bit 12 (of_nat k))) = k * 4096 + 3221225472"
    using assms by (subst unat_ptov) simp_all
  have "k * 4096 + 3221225472 = (k + 768 * 1024) * 4096" by simp
  then have pn: "(k * 4096 + 3221225472) div 4096 = k + 768 * 1024" by (metis nonzero_mult_div_cancel_right zero_neq_numeral)
  have "(k * 4096 + 3221225472) div 4194304 = (k * 4096 + 3221225472) div 4096 div 1024"
    by (simp only: div_mult2_eq [symmetric]) simp
  then have d: "unat (virt_to_pd_idx (ptov (push_bit 12 (of_nat k)))) = 768 + k div 1024"
    unfolding unat_pd_idx v pn by (simp only: div_mult_self1 zero_neq_numeral not_False_eq_True add.commute)
  have m: "unat (virt_to_pt_idx (ptov (push_bit 12 (of_nat k)))) = k mod 1024"
    unfolding unat_pt_idx v pn by (rule mod_mult_self1)
  show b: "768 + k div 1024 < 1024" using assms by linarith
  show "virt_to_pd_idx (ptov (push_bit 12 (of_nat k))) = of_nat (768 + k div 1024)"
    by (simp only: d [symmetric]) simp
  show "virt_to_pt_idx (ptov (push_bit 12 (of_nat k))) = of_nat (k mod 1024)"
    by (simp only: m [symmetric]) simp
qed

text \<open>The directory entry is there once its table is; a new table is needed every 1024 pages.\<close>

lemma aligned_vtop: "aligned p \<Longrightarrow> unat (vtop p) mod 4096 = 0"
proof -
  assume "aligned p"
  then obtain d where d: "unat p = 4096 * d" by (rule aligned_multiple)
  have "vtop p = p + 0x40000000" by (simp add: vtop_def)
  then have "unat (vtop p) = (unat p + 1073741824) mod 4294967296" by (simp add: unat_word_ariths)
  also have "\<dots> = (4096 * (d + 262144)) mod 4294967296" by (simp add: d)
  also have "\<dots> mod 4096 = (4096 * (d + 262144)) mod 4096" by (rule mod_mod_cancel) simp
  finally show ?thesis by (simp only: mod_mult_self1_is_0)
qed

lemma pde_present:
  assumes "aligned p"
  shows "mk_pde (vtop p) (PTE_P OR PTE_W) \<noteq> 0"
proof
  assume "mk_pde (vtop p) (PTE_P OR PTE_W) = 0"
  then have "(PTE_P OR PTE_W) AND mask 12 = (0 :: u32)"
    using mk_pde_parts(2) [OF aligned_vtop [OF assms], of "PTE_P OR PTE_W"] by simp
  then show False by (simp add: mask_eq_exp_minus_1)
qed

lemma last_table:
  assumes "length ts = (k + 1023) div 1024" "k mod 1024 \<noteq> 0"
  shows "ts \<noteq> []" "last ts = ts ! (k div 1024)" "length ts = k div 1024 + 1"
proof -
  define q r where "q = k div 1024" and "r = k mod 1024"
  then have k: "k = 1024 * q + r" and r: "0 < r" "r < 1024" using assms(2) by simp_all
  have "(k + 1023) div 1024 = Suc q" unfolding k using r by (intro div_nat_eqI) simp_all
  then have "(k + 1023) div 1024 = Suc (k div 1024)" by (simp add: q_def)
  then show l: "length ts = k div 1024 + 1" using assms(1) by simp
  then show ne: "ts \<noteq> []" by auto
  show "last ts = ts ! (k div 1024)" using l ne by (simp add: last_conv_nth)
qed

lemma tablesD:
  assumes "tables st en pd n k ts pt s"
  shows "pool_inv s" "length ts = n" "aligned pd" "unat pd div 4096 \<in> taken s"
    "\<And>p. p \<in> set ts \<Longrightarrow> aligned p \<and> unat p div 4096 \<in> taken s \<and> p \<noteq> pd" "distinct ts" "ts \<noteq> [] \<Longrightarrow> pt = last ts"
    "\<And>i. i < 1024 \<Longrightarrow> entry (mem s) pd i =
        (if 768 \<le> i \<and> i < 768 + n then mk_pde (vtop (ts ! (i - 768))) (PTE_P OR PTE_W) else 0)"
    "\<And>j i. j < n \<Longrightarrow> i < 1024 \<Longrightarrow> entry (mem s) (ts ! j) i =
        (if j * 1024 + i < k then page_entry st en (j * 1024 + i) else 0)"
  using assms by (auto simp: tables_def)

lemma add_table:
  assumes T: "tables st en pd n k ts pt s" and k: "k \<le> n * 1024" and n: "768 + n < 1024"
    and get: "pool_inv t" "aligned p" "unat p div 4096 \<notin> taken s" "taken t = insert (unat p div 4096) (taken s)"
      "\<And>i. i < 1024 \<Longrightarrow> entry (mem t) p i = 0"
      "\<And>q i. aligned q \<Longrightarrow> q \<noteq> p \<Longrightarrow> i < 1024 \<Longrightarrow> entry (mem t) q i = entry (mem s) q i"
  shows "tables st en pd (Suc n) k (ts @ [p]) p
    (t\<lparr>mem := store32 (entry_addr pd (of_nat (768 + n))) (mk_pde (vtop p) (PTE_P OR PTE_W)) (mem t)\<rparr>)"
proof -
  note D = tablesD [OF T]
  have new: "p \<noteq> pd" "p \<notin> set ts" using D(4,5) get(3) by auto
  let ?m = "store32 (entry_addr pd (of_nat (768 + n))) (mk_pde (vtop p) (PTE_P OR PTE_W)) (mem t)"
  have pd: "entry ?m pd i = (if 768 \<le> i \<and> i < 768 + Suc n then mk_pde (vtop ((ts @ [p]) ! (i - 768))) (PTE_P OR PTE_W) else 0)"
    if "i < 1024" for i
    using that n D(2) D(8) [OF that] get(6) [OF D(3) new(1) [symmetric] that]
    by (subst entry_store [OF D(3) D(3) n that]) (auto simp: nth_append less_Suc_eq)
  have tb: "entry ?m q i = entry (mem t) q i" if "aligned q" "q \<noteq> pd" "i < 1024" for q i
    using that by (subst entry_store [OF D(3) that(1) n that(3)]) simp
  have "entry ?m ((ts @ [p]) ! j) i = (if j * 1024 + i < k then page_entry st en (j * 1024 + i) else 0)"
    if "j < Suc n" "i < 1024" for j i
  proof (cases "j < n")
    case True
    then have m: "ts ! j \<in> set ts" using D(2) by simp
    then have "ts ! j \<noteq> p" using new(2) by auto
    then show ?thesis
      using True D(2,5) m D(9) [OF True that(2)] tb [of "ts ! j" i] get(6) [of "ts ! j" i] that(2)
      by (simp add: nth_append)
  next
    case False
    then have j: "j = n" using that(1) by simp
    then have "\<not> j * 1024 + i < k" using k by simp
    then show ?thesis using j D(2) tb [OF get(2) new(1) that(2)] get(5) [OF that(2)] by (simp add: nth_append)
  qed
  then show ?thesis
    using get(1,2,4) D new pd by (auto simp: tables_def simp del: of_nat_add)
qed

lemma free_pages_mem [simp]: "free_pages (m\<lparr>mem := x\<rparr>) = free_pages m"
  by (simp add: free_pages_def)

lemma ensure_table:
  assumes T: "tables st en pd ((k + 1023) div 1024) k ts pt s" and k: "k < 262144"
    and free: "k mod 1024 = 0 \<Longrightarrow> 1 \<le> free_pages s"
  obtains ts' pt' s' where
    "(if load32 (mem s) (entry_addr pd (of_nat (768 + k div 1024))) = 0
      then bindE (mm_kget_page (PF_ZERO OR PF_ATOMIC) s) (\<lambda>(pt, s).
        Inr (pt, s\<lparr>mem := store32 (entry_addr pd (of_nat (768 + k div 1024))) (mk_pde (vtop pt) (PTE_P OR PTE_W)) (mem s)\<rparr>))
      else Inr (pt, s)) = Inr (pt', s')"
    "tables st en pd (k div 1024 + 1) k ts' pt' s'" "grows s s'"
    "free_pages s + length ts \<le> free_pages s' + length ts'"
proof -
  note D = tablesD [OF T]
  have n: "768 + k div 1024 < 1024" using k by linarith
  have e: "load32 (mem s) (entry_addr pd (of_nat (768 + k div 1024))) = entry (mem s) pd (768 + k div 1024)"
    by (simp add: entry_def)
  show ?thesis
  proof (cases "k mod 1024 = 0")
    case True
    then have nk: "(k + 1023) div 1024 = k div 1024" "k \<le> k div 1024 * 1024" by auto
    have "load32 (mem s) (entry_addr pd (of_nat (768 + k div 1024))) = 0"
      unfolding e using D(8) [OF n] nk(1) by simp
    moreover obtain p t where g: "mm_kget_page (PF_ZERO OR PF_ATOMIC) s = Inr (p, t)" "pool_inv t" "aligned p"
      "unat p div 4096 \<notin> taken s" "taken t = insert (unat p div 4096) (taken s)" "free_pages s \<le> free_pages t + 1"
      "\<forall>i<1024. entry (mem t) p i = 0"
      "\<forall>q i. aligned q \<longrightarrow> q \<noteq> p \<longrightarrow> i < 1024 \<longrightarrow> entry (mem t) q i = entry (mem s) q i" "p \<noteq> NULL"
      by (rule new_table [OF D(1) free [OF True]])
    moreover note add_table [OF T [unfolded nk(1)] nk(2) n g(2-5) g(7,8) [rule_format]]
    moreover have "unat pd div 4096 \<in> taken t" using D(4) g(5) by simp
    note grows_trans [OF new_page_grows [OF D(1) g(1,9)] entry_grows [OF D(3) this n]]
    ultimately show ?thesis
      by (intro that) (auto simp: free_pages_def simp del: of_nat_add)
  next
    case False
    note l = last_table [OF D(2) False]
    have nk: "(k + 1023) div 1024 = k div 1024 + 1" using D(2) l(3) by simp
    have "entry (mem s) pd (768 + k div 1024) = mk_pde (vtop (ts ! (k div 1024))) (PTE_P OR PTE_W)"
      using D(8) [OF n] nk by simp
    then have "entry (mem s) pd (768 + k div 1024) \<noteq> 0"
      using pde_present D(5) [of "ts ! (k div 1024)"] l(3) by auto
    then show ?thesis using T nk unfolding e [symmetric] by (intro that) (auto simp del: of_nat_add)
  qed
qed

lemma write_entry:
  assumes T: "tables st en pd (k div 1024 + 1) k ts pt s" and k: "k < 262144"
  shows "tables st en pd (k div 1024 + 1) (Suc k) ts pt
    (s\<lparr>mem := store32 (entry_addr pt (of_nat (k mod 1024))) (page_entry st en k) (mem s)\<rparr>)"
proof -
  note D = tablesD [OF T]
  have ne: "ts \<noteq> []" using D(2) by auto
  have pt: "pt = ts ! (k div 1024)" using D(2) D(7) [OF ne] ne by (simp add: last_conv_nth)
  have mem: "pt \<in> set ts" using D(2) by (simp add: pt)
  have al: "aligned pt" "pt \<noteq> pd" using D(5) [OF mem] by auto
  have r: "k mod 1024 < 1024" by simp
  let ?m = "store32 (entry_addr pt (of_nat (k mod 1024))) (page_entry st en k) (mem s)"
  have "entry ?m pd i = entry (mem s) pd i" if "i < 1024" for i
    using al by (simp add: entry_store [OF al(1) D(3) r that])
  moreover have "entry ?m (ts ! j) i = (if j * 1024 + i < Suc k then page_entry st en (j * 1024 + i) else 0)"
    if j: "j < k div 1024 + 1" and i: "i < 1024" for j i
  proof -
    have "ts ! j \<in> set ts" using D(2) j by simp
    then have aj: "aligned (ts ! j)" using D(5) by blast
    have "pt = ts ! j \<longleftrightarrow> j = k div 1024" unfolding pt using D(2,6) j nth_eq_iff_index_eq by fastforce
    moreover have "j = k div 1024 \<and> k mod 1024 = i \<longleftrightarrow> j * 1024 + i = k"
      using i by (metis div_mult_mod_eq div_mult_self3 mod_mult_self3 mod_less div_less add.right_neutral zero_neq_numeral)
    ultimately show ?thesis
      using D(9) [OF j i] by (auto simp: entry_store [OF al(1) aj r i] less_Suc_eq)
  qed
  ultimately show ?thesis using D T by (auto simp: tables_def)
qed

lemma map_page_step:
  assumes T: "tables st en pd ((k + 1023) div 1024) k ts pt s" and k: "k < 262144"
    and free: "k mod 1024 = 0 \<Longrightarrow> 1 \<le> free_pages s"
  obtains ts' pt' s' where "map_page st en pd (of_nat k) (Inr (pt, s)) = Inr (pt', s')"
    "tables st en pd ((Suc k + 1023) div 1024) (Suc k) ts' pt' s'" "grows s s'"
    "free_pages s + length ts \<le> free_pages s' + length ts'"
proof -
  have n: "(Suc k + 1023) div 1024 = k div 1024 + 1" by simp
  obtain ts1 pt1 s1 where e:
    "(if load32 (mem s) (entry_addr pd (of_nat (768 + k div 1024))) = 0
      then bindE (mm_kget_page (PF_ZERO OR PF_ATOMIC) s) (\<lambda>(pt, s).
        Inr (pt, s\<lparr>mem := store32 (entry_addr pd (of_nat (768 + k div 1024))) (mk_pde (vtop pt) (PTE_P OR PTE_W)) (mem s)\<rparr>))
      else Inr (pt, s)) = Inr (pt1, s1)"
    "tables st en pd (k div 1024 + 1) k ts1 pt1 s1" "grows s s1"
    "free_pages s + length ts \<le> free_pages s1 + length ts1"
    by (rule ensure_table [OF T k free])
  let ?v = "ptov (push_bit 12 (of_nat k))"
  have fl: "(PTE_P OR PTE_W) AND NOT PTE_W = PTE_P" by simp
  have pe: "mk_pte (vtop ?v) (if st \<le> ?v \<and> ?v < en then (PTE_P OR PTE_W) AND NOT PTE_W else PTE_P OR PTE_W) =
      page_entry st en k"
    unfolding fl by (simp add: page_entry_def Let_def)
  have "map_page st en pd (of_nat k) (Inr (pt, s)) =
      Inr (pt1, s1\<lparr>mem := store32 (entry_addr pt1 (of_nat (k mod 1024))) (page_entry st en k) (mem s1)\<rparr>)"
    unfolding map_page_def bindE_simps(2) prod.case Let_def page_indices(1,2) [OF k] e(1) pe ..
  moreover have "grows s (s1\<lparr>mem := store32 (entry_addr pt1 (of_nat (k mod 1024))) (page_entry st en k) (mem s1)\<rparr>)"
  proof -
    note D = tablesD [OF e(2)]
    have "ts1 \<noteq> []" using D(2) by auto
    then have "pt1 \<in> set ts1" using D(7) by simp
    then show ?thesis using D(5) grows_trans [OF e(3) entry_grows] by simp
  qed
  ultimately show ?thesis
    by (intro that [OF _ write_entry [OF e(2) k, folded n]]) (use e(4) in simp_all)
qed

lemma map_pages:
  assumes inv: "pool_inv s" and pd: "aligned pd" "unat pd div 4096 \<in> taken s" "\<And>i. i < 1024 \<Longrightarrow> entry (mem s) pd i = 0"
    and ram: "unat ram \<le> 262144" and free: "(unat ram + 1023) div 1024 \<le> free_pages s"
  obtains ts pt t where "for_loop 0 ram (map_page st en pd) (Inr (NULL, s)) = Inr (pt, t)"
    "tables st en pd ((unat ram + 1023) div 1024) (unat ram) ts pt t" "grows s t"
    "free_pages s \<le> free_pages t + (unat ram + 1023) div 1024"
proof -
  define P where "P k r \<longleftrightarrow> (\<exists>ts pt t. r = Inr (pt, t) \<and> tables st en pd ((k + 1023) div 1024) k ts pt t \<and>
    grows s t \<and> free_pages s \<le> free_pages t + length ts)" for k and r :: "(u32 \<times> mm) result"
  have "P (unat ram) (for_loop 0 ram (map_page st en pd) (Inr (NULL, s)))"
  proof (rule for_loop_inv)
    show "P (unat (0 :: u32)) (Inr (NULL, s))" using inv pd by (auto simp: P_def tables_def)
  next
    fix k r assume k: "k < unat ram" and "P k r"
    then obtain ts pt t where r: "r = Inr (pt, t)" and T: "tables st en pd ((k + 1023) div 1024) k ts pt t"
      and tk: "grows s t" "free_pages s \<le> free_pages t + length ts"
      by (auto simp: P_def)
    have k': "k < 262144" using k ram by simp
    have fr: "1 \<le> free_pages t" if "k mod 1024 = 0"
    proof -
      have "(k + 1023) div 1024 = k div 1024" using that by auto
      moreover have "k div 1024 + 1 \<le> (unat ram + 1023) div 1024"
        using div_le_mono [of "k + 1024" "unat ram + 1023" 1024] k by simp
      ultimately show ?thesis using tk(2) free tablesD(2) [OF T] by simp
    qed
    obtain ts' pt' s' where "map_page st en pd (of_nat k) (Inr (pt, t)) = Inr (pt', s')"
      "tables st en pd ((Suc k + 1023) div 1024) (Suc k) ts' pt' s'" "grows t s'"
      "free_pages t + length ts \<le> free_pages s' + length ts'"
      by (rule map_page_step [OF T k' fr])
    then show "P (Suc k) (map_page st en pd (of_nat k) r)" unfolding P_def r using tk grows_trans by fastforce
  qed simp
  then show ?thesis using that tablesD(2) by (fastforce simp: P_def)
qed

text \<open>The whole operation, and what keeps its tables.\<close>

lemma pg_dir_init_grows:
  assumes "pool_inv s" "unat ram \<le> 262144" "(unat ram + 1023) div 1024 + 1 \<le> free_pages s"
  obtains pd ts pt t where "kernel_pg_dir_init st en ram s = Inr (vtop pd, t)"
    "tables st en pd ((unat ram + 1023) div 1024) (unat ram) ts pt t" "grows s t"
    "free_pages s \<le> free_pages t + (unat ram + 1023) div 1024 + 1"
proof -
  have "1 \<le> free_pages s" using assms(3) by linarith
  then obtain pd t where pd: "mm_kget_page (PF_ZERO OR PF_ATOMIC) s = Inr (pd, t)" "pool_inv t" "aligned pd"
    "taken t = insert (unat pd div 4096) (taken s)" "free_pages s \<le> free_pages t + 1"
    "\<forall>i<1024. entry (mem t) pd i = 0" "pd \<noteq> NULL"
    by (rule new_table [OF assms(1)])
  have p: "unat pd div 4096 \<in> taken t" "(unat ram + 1023) div 1024 \<le> free_pages t"
    using pd(4,5) assms(3) by auto
  obtain ts pt u where m: "for_loop 0 ram (map_page st en pd) (Inr (NULL, t)) = Inr (pt, u)"
    "tables st en pd ((unat ram + 1023) div 1024) (unat ram) ts pt u" "grows t u"
    "free_pages t \<le> free_pages u + (unat ram + 1023) div 1024"
    by (rule map_pages [OF pd(2,3) p(1) pd(6) [rule_format] assms(2) p(2)])
  have "kernel_pg_dir_init st en ram s = Inr (vtop pd, u)"
    unfolding kernel_pg_dir_init_def pd(1) bindE_simps(2) prod.case m(1) ..
  moreover have "grows s u" by (rule grows_trans [OF new_page_grows [OF assms(1) pd(1,7)] m(3)])
  ultimately show ?thesis using m(2,4) pd(5) by (intro that) auto
qed

lemma pg_dir_init_tables:
  assumes "pool_inv s" "unat ram \<le> 262144" "(unat ram + 1023) div 1024 + 1 \<le> free_pages s"
  obtains pd ts pt t where "kernel_pg_dir_init st en ram s = Inr (vtop pd, t)"
    "tables st en pd ((unat ram + 1023) div 1024) (unat ram) ts pt t" "taken s \<subseteq> taken t"
    "free_pages s \<le> free_pages t + (unat ram + 1023) div 1024 + 1" "klog t = klog s"
proof -
  obtain pd ts pt t where t: "kernel_pg_dir_init st en ram s = Inr (vtop pd, t)"
    "tables st en pd ((unat ram + 1023) div 1024) (unat ram) ts pt t" "grows s t"
    "free_pages s \<le> free_pages t + (unat ram + 1023) div 1024 + 1"
    by (rule pg_dir_init_grows [OF assms, of st en])
  show ?thesis by (rule that [OF t(1,2) growsD(1) [OF t(3)] t(4) growsD(2) [OF t(3)]])
qed

lemma entry_keeps:
  fixes m t :: mm and p :: u32
  assumes "aligned p" "unat p div 4096 \<in> taken m" "keeps m t" "i < 1024"
  shows "entry (mem t) p i = entry (mem m) p i"
  unfolding entry_def
proof (rule load32_cong_range)
  note e = unat_entry_addr [OF assms(1,4)]
  show "unat (entry_addr p (of_nat i)) + 3 < 4294967296" using e by simp
  fix x :: u32 assume "unat (entry_addr p (of_nat i)) \<le> unat x" "unat x \<le> unat (entry_addr p (of_nat i)) + 3"
  then have "unat x div 4096 = unat p div 4096"
    using assms(1,4) unfolding e(1) aligned_def by (intro same_page) simp_all
  then show "mem t x = mem m x" using assms(2,3) by (simp add: keeps_def)
qed

lemma tables_keeps:
  assumes "tables st en pd n k ts pt m" "keeps m t" "pool_inv t"
  shows "tables st en pd n k ts pt t"
proof -
  note D = tablesD [OF assms(1)]
  have "entry (mem t) pd i = entry (mem m) pd i" if "i < 1024" for i
    by (rule entry_keeps [OF D(3,4) assms(2) that])
  moreover have "entry (mem t) (ts ! j) i = entry (mem m) (ts ! j) i" if "i < 1024" "j < length ts" for i j
    using entry_keeps [OF _ _ assms(2) that(1)] D(5) nth_mem [OF that(2)] by blast
  moreover have "taken m \<subseteq> taken t" using assms(2) by (simp add: keeps_def)
  ultimately show ?thesis using assms(1,3) by (auto simp: tables_def)
qed

section \<open>Translation\<close>

text \<open>
  The table walk of the processor without large pages. Its loads are physical; the kernel sees
  physical memory at \<open>ptov\<close>. The result is the physical address and whether the page may be
  written and be used in user mode.
\<close>

definition walk :: "memory \<Rightarrow> u32 \<Rightarrow> u32 \<Rightarrow> (u32 \<times> bool \<times> bool) option" where
  "walk m cr3 v =
     (let pde = load32 m (ptov (cr3 AND 0xfffff000) + 4 * drop_bit 22 v)
      in if \<not> bit pde 0 then None
         else
           (let pte = load32 m (ptov (pde AND 0xfffff000) + 4 * take_bit 10 (drop_bit 12 v))
            in if \<not> bit pte 0 then None
               else Some ((pte AND 0xfffff000) OR (v AND 0xfff), bit pde 1 \<and> bit pte 1, bit pde 2 \<and> bit pte 2)))"

lemma word_split_page: "(w AND NOT (mask 12)) OR take_bit 12 w = (w :: u32)"
  by (rule bit_word_eqI) (auto simp: bit_simps)

lemma walk_entries:
  assumes "aligned pd"
  shows "walk m (vtop pd) v =
    (let pde = entry m pd (unat v div 4194304)
     in if \<not> bit pde 0 then None
        else
          (let pte = entry m (ptov (pde AND NOT (mask 12))) (unat v div 4096 mod 1024)
           in if \<not> bit pte 0 then None
              else Some ((pte AND NOT (mask 12)) OR take_bit 12 v, bit pde 1 \<and> bit pte 1, bit pde 2 \<and> bit pte 2)))"
proof -
  have i: "drop_bit 22 v = of_nat (unat v div 4194304)" "take_bit 10 (drop_bit 12 v) = of_nat (unat v div 4096 mod 1024)"
    by (simp_all only: unat_pd_idx [symmetric] unat_pt_idx [symmetric] virt_to_pd_idx_def pt_idx_eq) simp_all
  have "take_bit 12 (vtop pd) = 0" using aligned_vtop [OF assms] by (simp add: page_aligned_iff)
  then have "vtop pd AND NOT (mask 12) = vtop pd" using word_split_page [of "vtop pd"] by simp
  then show ?thesis
    unfolding walk_def entry_def entry_addr_def mask_high20 mask_low12 and_low12 i by simp
qed

lemma flag_bits:
  assumes "aligned p" "fl = PTE_P \<or> fl = PTE_P OR PTE_W"
  shows "bit (mk_pde (vtop p) fl) 0" "bit (mk_pde (vtop p) fl) 1 \<longleftrightarrow> fl = PTE_P OR PTE_W"
    "\<not> bit (mk_pde (vtop p) fl) 2" "mk_pde (vtop p) fl AND NOT (mask 12) = vtop p"
proof -
  note m = mk_pde_parts [OF aligned_vtop [OF assms(1)], of fl]
  have "bit (mk_pde (vtop p) fl) i \<longleftrightarrow> bit fl i" if "i < 12" for i
  proof -
    have "bit (mk_pde (vtop p) fl AND mask 12) i = bit (fl AND mask 12) i" by (simp only: m(2))
    then show ?thesis using that by (simp add: bit_and_iff bit_mask_iff)
  qed
  note b = this [of 0] this [of 1] this [of 2]
  have "bit fl 0" "bit fl 1 \<longleftrightarrow> fl = PTE_P OR PTE_W" "\<not> bit fl 2"
    using assms(2) by (elim disjE; simp)+
  then show "bit (mk_pde (vtop p) fl) 0" "bit (mk_pde (vtop p) fl) 1 \<longleftrightarrow> fl = PTE_P OR PTE_W"
    "\<not> bit (mk_pde (vtop p) fl) 2"
    using b by simp_all
  show "mk_pde (vtop p) fl AND NOT (mask 12) = vtop p" by (rule m(1))
qed

text \<open>A finished set of tables, read by the walk.\<close>

lemma kernel_vaddr_iff: "KERNEL_VADDR_BASE \<le> v \<longleftrightarrow> 3221225472 \<le> unat v"
proof -
  have "unat KERNEL_VADDR_BASE = 3221225472" by simp
  then show ?thesis by (simp only: word_le_nat_alt)
qed

lemma kernel_page_addr:
  assumes "KERNEL_VADDR_BASE \<le> v"
  defines "n \<equiv> unat (vtop v) div 4096"
  shows "unat (vtop v) = unat v - 3221225472" "unat v div 4194304 = 768 + n div 1024"
    "unat v div 4096 mod 1024 = n mod 1024" "push_bit 12 (of_nat n) = vtop v AND NOT (mask 12)"
    "ptov (push_bit 12 (of_nat n)) = ROUND_DOWN v PAGE_SIZE" "take_bit 12 v = take_bit 12 (vtop v)"
proof -
  have le: "3221225472 \<le> unat v" using assms(1) by (simp only: kernel_vaddr_iff)
  show u: "unat (vtop v) = unat v - 3221225472" unfolding vtop_def using le by (subst unat_sub_if') simp
  have v: "unat v = unat (vtop v) + 786432 * 4096" using le u by simp
  have q: "unat v div 4096 = n + 768 * 1024" unfolding v n_def by (subst div_mult_self1) simp_all
  have "unat v div 4194304 = unat v div 4096 div 1024" by (simp only: div_mult2_eq [symmetric]) simp
  then show "unat v div 4194304 = 768 + n div 1024" unfolding q by (simp only: div_mult_self1 zero_neq_numeral not_False_eq_True add.commute)
  show "unat v div 4096 mod 1024 = n mod 1024" unfolding q by (rule mod_mult_self1)
  have "unat (drop_bit 12 (vtop v)) = n" unfolding unat_drop n_def by simp
  then have d: "(of_nat n :: u32) = drop_bit 12 (vtop v)" by (simp only: flip: \<open>unat _ = n\<close>) simp
  then show p: "push_bit 12 (of_nat n) = vtop v AND NOT (mask 12)"
    by (simp only: d) (rule bit_word_eqI, auto simp: bit_simps)
  have p12: "(2 :: nat) ^ 12 = 4096" by simp
  show "take_bit 12 v = take_bit 12 (vtop v)"
    unfolding word_unat_eq_iff unat_take v p12 by (rule mod_mult_self1)
  have n: "n < 262144" using u u32_lt [of v] unfolding n_def by linarith
  then have "unat (push_bit 12 (of_nat n) :: u32) = n * 4096"
    by (simp add: push_bit_eq_mult unat_word_ariths unat_of_nat)
  then have "unat (ptov (push_bit 12 (of_nat n))) = n * 4096 + 3221225472"
    using n by (subst unat_ptov) simp_all
  also have "\<dots> = unat v div 4096 * 4096" unfolding q by simp
  finally show "ptov (push_bit 12 (of_nat n)) = ROUND_DOWN v PAGE_SIZE"
    by (simp only: word_unat_eq_iff round_down_page)
qed

lemma walk_tables:
  assumes T: "tables st en pd ((k + 1023) div 1024) k ts pt s" and k: "k \<le> 262144"
  shows "walk (mem s) (vtop pd) v =
    (if KERNEL_VADDR_BASE \<le> v \<and> unat (vtop v) < k * 4096
     then Some (vtop v, \<not> (st \<le> ROUND_DOWN v PAGE_SIZE \<and> ROUND_DOWN v PAGE_SIZE < en), False) else None)"
proof -
  note D = tablesD [OF T]
  let ?i = "unat v div 4194304"
  have i: "?i < 1024" using u32_lt [of v] by linarith
  note W = walk_entries [OF D(3), of "mem s" v] D(8) [OF i]
  show ?thesis
  proof (cases "KERNEL_VADDR_BASE \<le> v")
    case False
    then have "unat v < 3221225472" by (simp only: kernel_vaddr_iff not_le)
    then have "?i < 768" by linarith
    then show ?thesis using False W by (simp add: Let_def)
  next
    case True
    define n where "n = unat (vtop v) div 4096"
    note A = kernel_page_addr [OF True, folded n_def]
    have lt: "unat (vtop v) < k * 4096 \<longleftrightarrow> n < k" unfolding n_def by (simp add: div_less_iff_less_mult)
    have nn: "n div 1024 * 1024 + n mod 1024 = n" by simp
    show ?thesis
    proof (cases "n div 1024 < (k + 1023) div 1024")
      case False
      then have "\<not> n < k" using div_le_mono [of "n + 1024" "k + 1023" 1024] by fastforce
      then show ?thesis using False W lt A(2) by (simp add: Let_def)
    next
      case j: True
      let ?t = "ts ! (n div 1024)"
      have al: "aligned ?t" using D(2,5) j by auto
      have pde: "entry (mem s) pd ?i = mk_pde (vtop ?t) (PTE_P OR PTE_W)" using W(2) A(2) j by simp
      note fd = flag_bits [OF al, of "PTE_P OR PTE_W"]
      have pte: "entry (mem s) ?t (n mod 1024) = (if n < k then page_entry st en n else 0)"
        using D(9) [OF j, of "n mod 1024"] nn by simp
      show ?thesis
      proof (cases "n < k")
        case False
        then show ?thesis using W(1) pde fd pte lt A(3) by (simp add: Let_def)
      next
        case nk: True
        define p where "p = ptov (push_bit 12 (of_nat n))"
        have ap: "aligned p" unfolding p_def A(5) by (simp add: aligned_def round_down_page)
        define fl where "fl = (if st \<le> p \<and> p < en then PTE_P else PTE_P OR PTE_W)"
        have "page_entry st en n = mk_pde (vtop p) fl" by (simp add: page_entry_def mk_pte_def p_def fl_def Let_def)
        moreover note fp = flag_bits [OF ap, of fl]
        moreover have "(vtop p) OR take_bit 12 v = vtop v"
          unfolding p_def A(6) ptov_vtop A(4) by (rule word_split_page)
        ultimately show ?thesis
          using W(1) pde fd pte lt A(3) nk True fl_def p_def A(5) by (auto simp: Let_def)
      qed
    qed
  qed
qed

section \<open>The kernel's mapping\<close>

text \<open>
  C10: \<open>kernel_pg_dir_init\<close> maps the machine: with at most 1 GB of memory and a free page for
  the directory and for each started 4 MB, it returns, and the tables it loads translate
  exactly the addresses from 3 GB up to the end of memory, each to the physical address
  3 GB below, as supervisor pages that are writable unless the page starts inside the
  kernel's text; everything else faults.
\<close>

theorem kernel_mapping:
  assumes "pool_inv s" "unat ram \<le> 262144" "(unat ram + 1023) div 1024 + 1 \<le> free_pages s"
  shows "\<exists>cr3 t. kernel_pg_dir_init start end_kernel_text ram s = Inr (cr3, t) \<and> pool_inv t \<and> taken s \<subseteq> taken t \<and>
    (\<forall>v. walk (mem t) cr3 v =
      (if KERNEL_VADDR_BASE \<le> v \<and> unat (vtop v) < unat ram * 4096
       then Some (vtop v, \<not> (start \<le> ROUND_DOWN v PAGE_SIZE \<and> ROUND_DOWN v PAGE_SIZE < end_kernel_text), False)
       else None))"
proof -
  obtain pd ts pt t where "kernel_pg_dir_init start end_kernel_text ram s = Inr (vtop pd, t)"
    "tables start end_kernel_text pd ((unat ram + 1023) div 1024) (unat ram) ts pt t" "taken s \<subseteq> taken t"
    by (rule pg_dir_init_tables [OF assms])
  then show ?thesis using tablesD(1) walk_tables [OF _ assms(2)] by fastforce
qed

theorem kernel_mapping_witness:
  "\<exists>cr3 t. kernel_pg_dir_init 0xC0020000 0xC0024000 512 (pages start_kernel) = Inr (cr3, t) \<and>
    walk (mem t) cr3 0xC0020123 = Some (0x20123, False, False) \<and>
    walk (mem t) cr3 0xC0100000 = Some (0x100000, True, False) \<and> walk (mem t) cr3 0x20123 = None"
proof -
  obtain cr3 t where "kernel_pg_dir_init 0xC0020000 0xC0024000 512 (pages start_kernel) = Inr (cr3, t)"
    and w: "\<And>v. walk (mem t) cr3 v = (if KERNEL_VADDR_BASE \<le> v \<and> unat (vtop v) < 512 * 4096
       then Some (vtop v, \<not> (0xC0020000 \<le> ROUND_DOWN v PAGE_SIZE \<and> ROUND_DOWN v PAGE_SIZE < 0xC0024000), False)
       else None)"
    using kernel_mapping [OF start_pool(1), of 512 "0xC0020000" "0xC0024000"] start_pool(2) by auto
  then show ?thesis by (simp add: w vtop_def ROUND_DOWN_def)
qed

end
