(* ===== verification/Machine.thy ===== *)
theory Machine
  imports Kbd Serial Paging
begin

text \<open>
  The whole machine: the dispatch of interrupts (\<open>generic_isr\<close> of \<open>kernel/interrupt.c\<close>) to the
  handlers of the drivers, the handlers that need no driver (\<open>default_isr\<close>, \<open>systick_intr\<close>,
  \<open>divide_error\<close>), and \<open>main\<close> of \<open>kernel/init.c\<close>, which brings everything up.

  The system is the machine of \<open>Ide\<close> with the block devices, the modifier keys, the tick
  counter, the lock of \<open>divide_error\<close>, the page table register and the text console. The
  console prints the messages up to the interrupts being on, when nothing else can print;
  later messages are in the log only. Addresses the linker or the
  boot stack fixes, and the number of memory pages the loader counts, are the fields of \<open>image\<close>.
\<close>

section \<open>State\<close>

record system =
  mach :: machine
  blks :: "machine result blocks"
  kb :: kbd
  ticks :: i32
  lock :: i8
  cr3 :: u32
  con :: console

record image =
  start_bss :: u32
  end_bss :: u32
  start_text :: u32
  end_text :: u32
  init_ram_pages :: u32
  pool_buf :: bitmap
  idt_start :: u32
  sema_write :: u32
  boot_sema :: u32
  idle_addr :: u32
  divide_error_addr :: u32
  hda_addr :: u32
  sector_buf :: u32
  disks :: layout

definition upd_mach :: "(machine \<Rightarrow> machine) \<Rightarrow> system \<Rightarrow> system" where
  "upd_mach f s = s\<lparr>mach := f (mach s)\<rparr>"

definition try_mach :: "(machine \<Rightarrow> machine result) \<Rightarrow> system \<Rightarrow> system result" where
  "try_mach f s = bindE (f (mach s)) (\<lambda>m. Inr (s\<lparr>mach := m\<rparr>))"

definition upd_krn :: "(kernel \<Rightarrow> kernel) \<Rightarrow> system \<Rightarrow> system" where
  "upd_krn f = upd_mach (\<lambda>m. m\<lparr>krn := f (krn m)\<rparr>)"

definition try_krn :: "(kernel \<Rightarrow> kernel result) \<Rightarrow> system \<Rightarrow> system result" where
  "try_krn f = try_mach (\<lambda>m. bindE (f (krn m)) (\<lambda>k. Inr (m\<lparr>krn := k\<rparr>)))"

section \<open>Interrupts\<close>

definition in_interrupt :: "kernel \<Rightarrow> bool" where
  "in_interrupt s = in_interrupt_flag s"

definition default_handler :: "u32 \<Rightarrow> u32 \<Rightarrow> system \<Rightarrow> system" where
  "default_handler vec_no error_code = upd_mach (sys_log ''Interrupt no. %d, error code %x\<newline>'' [vec_no, error_code])"

definition systick :: "system \<Rightarrow> system" where
  "systick s = (let s = upd_krn task_tick s in s\<lparr>ticks := ticks s + 1\<rparr>)"

definition divide_error_handler :: "u32 \<Rightarrow> system \<Rightarrow> system result" where
  "divide_error_handler error_code s =
     bindE (spin_lock (lock s)) (\<lambda>l.
       let s = s\<lparr>lock := l\<rparr>;
           s = upd_mach (sys_log ''devide error %x\<newline>'' [error_code]) s
       in Inr (s\<lparr>lock := spin_unlock (lock s)\<rparr>))"

text \<open>The call of a handler through its entry in the table.\<close>

fun run_handler :: "image \<Rightarrow> device \<Rightarrow> env \<Rightarrow> u32 \<Rightarrow> u32 \<Rightarrow> handler \<Rightarrow> system \<Rightarrow> system result" where
  "run_handler img dev env vec_no error_code default_isr s = Inr (default_handler vec_no error_code s)"
| "run_handler img dev env vec_no error_code systick_intr s = Inr (systick s)"
| "run_handler img dev env vec_no error_code serial_interrupt s = try_mach (serial_isr dev env (sema_write img)) s"
| "run_handler img dev env vec_no error_code kbd_interrupt s =
     (let (k, m) = kbd_isr dev (kb s, mach s) in Inr (s\<lparr>kb := k, mach := m\<rparr>))"
| "run_handler img dev env vec_no error_code ide_interrupt s = try_mach (ide_isr dev vec_no) s"
| "run_handler img dev env vec_no error_code divide_error s = divide_error_handler error_code s"

text \<open>The table has 256 entries; a vector past it is a \<open>Fault\<close>.\<close>

definition generic_isr :: "image \<Rightarrow> device \<Rightarrow> env \<Rightarrow> u32 \<Rightarrow> u32 \<Rightarrow> system \<Rightarrow> system result" where
  "generic_isr img dev env vec_no error_code s =
     (let external_intr = (HARDWARE_INTR_START \<le> vec_no \<and> vec_no < INTR_COUNT);
          s = (if external_intr then upd_krn (\<lambda>k. k\<lparr>in_interrupt_flag := True, sched_on_return := False\<rparr>) s else s)
      in if \<not> vec_no < INTR_COUNT then Inl Fault
         else bindE (case isr_table (gates (mach s)) vec_no of
                       None \<Rightarrow> Inr s
                     | Some isr \<Rightarrow> run_handler img dev env vec_no error_code isr s) (\<lambda>s.
           if external_intr
           then (let s = upd_mach (\<lambda>m. m\<lparr>hist := pic_end_of_interrupt vec_no (hist m)\<rparr>) s;
                     s = upd_krn (\<lambda>k. k\<lparr>in_interrupt_flag := False\<rparr>) s
                 in if sched_on_return (krn (mach s)) then try_krn schedule s else Inr s)
           else Inr s))"

section \<open>Bringing the machine up\<close>

text \<open>
  Clearing the bss clears the raw bytes and the static variables the model keeps as fields: in
  the kernel those of the lists, the locks, the allocator, the static semaphores and the
  interrupt flags (the last pid given out is initialised data), in the driver the adaptors, whose
  semaphores stay where they are, and the block structures, and the console, the modifier keys
  and the counters. A null list link is \<open>NullNode\<close>, and \<open>BlockNode NULL\<close> in the block list.
\<close>

definition static_semas :: "image \<Rightarrow> machine \<Rightarrow> u32 list" where
  "static_semas img m = [sema_write img, sema_wait (channels m 0), sema_rw (channels m 0),
     sema_wait (channels m 1), sema_rw (channels m 1)]"

fun static_head :: "u32 list \<Rightarrow> node \<Rightarrow> bool" where
  "static_head S (ReadyHead p) \<longleftrightarrow> True"
| "static_head S AllHead \<longleftrightarrow> True"
| "static_head S (WaitHead a) \<longleftrightarrow> a \<in> set S"
| "static_head S _ \<longleftrightarrow> False"

definition clear_kernel :: "u32 list \<Rightarrow> kernel \<Rightarrow> kernel" where
  "clear_kernel S k = k
     \<lparr>links := \<lparr>lprev = (\<lambda>n. if static_head S n then NullNode else lprev (links k) n),
               lnext = (\<lambda>n. if static_head S n then NullNode else lnext (links k) n)\<rparr>,
      pid_slock := 0, list_slock := 0, init_task := NULL,
      pages := (pages k)\<lparr>kernel_pool := \<lparr>slock = 0, bm = \<lparr>bit_count = 0, bits = (\<lambda>_. 0)\<rparr>, base = 0\<rparr>\<rparr>,
      semas := (\<lambda>a. if a \<in> set S then \<lparr>sema_slock = 0, count = 0\<rparr> else semas k a),
      in_interrupt_flag := False, sched_on_return := False\<rparr>"

definition clear_adaptor :: "ata_adaptor \<Rightarrow> ata_adaptor" where
  "clear_adaptor c = c\<lparr>chan_name := [], reg_base := 0, irq := 0, chan_slock := 0,
     ata_disks := (\<lambda>_. \<lparr>disk_name = [], dev_no = 0, is_ata_disk = False, disk_sectors = 0\<rparr>)\<rparr>"

definition clear_bytes :: "image \<Rightarrow> memory \<Rightarrow> memory" where
  "clear_bytes img m = snd (memset (start_bss img) 0 (end_bss img - start_bss img) m)"

definition clear_blocks :: "image \<Rightarrow> 's blocks \<Rightarrow> 's blocks" where
  "clear_blocks img b = b
     \<lparr>bmem := clear_bytes img (bmem b),
      blinks := \<lparr>lprev = (lprev (blinks b))(BlockDevices := BlockNode NULL),
                lnext = (lnext (blinks b))(BlockDevices := BlockNode NULL)\<rparr>,
      nr_sectors := (\<lambda>_. 0), block_params := (\<lambda>_. 0)\<rparr>"

definition bss_init :: "image \<Rightarrow> system \<Rightarrow> system" where
  "bss_init img s =
     (let s = upd_mach (\<lambda>m. set_mem (clear_bytes img (sys_mem m)) m) s;
          s = upd_krn (clear_kernel (static_semas img (mach s))) s;
          s = upd_mach (\<lambda>m. m\<lparr>gates := (gates m)\<lparr>isr_table := (\<lambda>_. None), idt_table := NULL\<rparr>,
                               channels := clear_adaptor \<circ> channels m\<rparr>) s
      in s\<lparr>blks := clear_blocks img (blks s), kb := no_keys, ticks := 0, lock := 0,
           con := (con s)\<lparr>cx := 0, cy := 0, inited := False\<rparr>\<rparr>)"

definition set_pages :: "mm \<Rightarrow> system \<Rightarrow> system" where
  "set_pages p = upd_krn (\<lambda>k. k\<lparr>pages := p\<rparr>)"

text \<open>
  What the calls of \<open>printk\<close> after the first \<open>n\<close> have put on the console. Each is the
  \<open>printk\<close> of \<open>Format\<close> on its format; the messages printed this way have no string arguments.
\<close>

definition print_entry :: "device \<Rightarrow> string \<times> u32 list \<Rightarrow> console \<Rightarrow> console" where
  "print_entry dev e c =
     (case printk dev (text_at 0x1000 (map of_char (fst e))) 0x1000 (snd e) c of Some (Inr (n, c)) \<Rightarrow> c | _ \<Rightarrow> c)"

definition print_from :: "device \<Rightarrow> nat \<Rightarrow> system \<Rightarrow> system" where
  "print_from dev n s = s\<lparr>con := fold (print_entry dev) (drop n (klog (pages (krn (mach s))))) (con s)\<rparr>"

text \<open>
  \<open>serial_init\<close> turns the interrupts on while the timer is running: \<open>early\<close> ticks arrive before
  \<open>sched_init\<close> has set up the ready lists.
\<close>

fun early_ticks :: "image \<Rightarrow> device \<Rightarrow> env \<Rightarrow> nat \<Rightarrow> system \<Rightarrow> system result" where
  "early_ticks img dev env 0 s = Inr s"
| "early_ticks img dev env (Suc n) s = bindE (generic_isr img dev env 0x20 0 s) (early_ticks img dev env n)"

text \<open>
  \<open>sched_init\<close> waits for the idle task: \<open>env\<close> is what runs meanwhile.
\<close>

definition main_kernel :: "image \<Rightarrow> device \<Rightarrow> env \<Rightarrow> nat \<Rightarrow> system \<Rightarrow> system result" where
  "main_kernel img dev env early s =
     (let s = bss_init img s;
          printed = length (klog (pages (krn (mach s))))
      in bindE (mm_init (pool_buf img) (init_ram_pages img) (pages (krn (mach s)))) (\<lambda>p.
         let s = set_pages p s
         in bindE (kernel_pg_dir_init (start_text img) (end_text img) (init_ram_pages img) (pages (krn (mach s)))) (\<lambda>(pd, p).
            let s = print_from dev printed ((set_pages p s)\<lparr>cr3 := pd\<rparr>);
                s = upd_mach (\<lambda>m. let (g, h) = init_interrupt (idt_start img) (gates m, hist m) in m\<lparr>gates := g, hist := h\<rparr>) s;
                s = upd_mach (\<lambda>m. let (g, h) = hw_timer_init (gates m, hist m) in m\<lparr>gates := g, hist := h\<rparr>) s;
                s = upd_mach (serial_init dev (sema_write img)) s;
                s = upd_mach kbd_init s
            in bindE (early_ticks img dev env early s) (\<lambda>s.
               let caller = current (krn (mach s))
               in bindE (try_krn (sched_init (boot_sema img) (idle_addr img)) s) (\<lambda>s.
                  if current (krn (mach s)) = caller then Inr s else try_mach env s)))))"

definition main_drivers :: "image \<Rightarrow> device \<Rightarrow> env \<Rightarrow> system \<Rightarrow> system result" where
  "main_drivers img dev env s =
     (let s = s\<lparr>blks := block_init (blks s)\<rparr>
      in bindE (ide_init dev env (disks img) (mach s, blks s)) (\<lambda>(m, b).
         let s = s\<lparr>mach := m, blks := b\<rparr>;
             s = s\<lparr>lock := spin_lock_init (lock s)\<rparr>;
             s = upd_mach (sys_log ''isr addr %p\<newline>'' [divide_error_addr img]) s
         in Inr (upd_mach (\<lambda>m. m\<lparr>gates := set_trap_gate 0x0e divide_error (gates m)\<rparr>) s)))"

text \<open>A structure at address 0 lies in no page of the kernel's tables.\<close>

definition main_disk :: "image \<Rightarrow> system \<Rightarrow> system result" where
  "main_disk img s =
     bindE (spin (blcok_get_by_name (hda_addr img) (blks s))) (\<lambda>blk.
       if blk = NULL then Inl Fault
       else
         (let s = upd_mach (sys_log ''blk %d\<newline>'' [nr_sectors (blks s) blk]) s
          in bindE (snd (block_read blk (sector_buf img) 0 (blks s) (Inr (mach s)))) (\<lambda>m.
             let s = s\<lparr>mach := m\<rparr>;
                 s = upd_mach (sys_log ''read sector 0,  %02x\<newline>'' [ucast (sys_mem m (sector_buf img + 510))]) s
             in try_krn task_exit s)))"

definition main :: "image \<Rightarrow> device \<Rightarrow> env \<Rightarrow> nat \<Rightarrow> system \<Rightarrow> system result" where
  "main img dev env early s =
     bindE (main_kernel img dev env early s) (\<lambda>s. bindE (main_drivers img dev env s) (main_disk img))"

end
