(* ===== verification/Machine_Props.thy ===== *)
theory Machine_Props
  imports Machine
begin

text \<open>
  Properties of the whole machine: what one interrupt does from its entry to the return, and
  the boot from any memory contents to the first wait of \<open>main\<close>.
\<close>

section \<open>Interrupts\<close>

lemma kernel_inv_flags [simp]:
  "kernel_inv H Q A (s\<lparr>in_interrupt_flag := b\<rparr>) = kernel_inv H Q A s"
  "kernel_inv H Q A (s\<lparr>sched_on_return := b\<rparr>) = kernel_inv H Q A s"
  "running (s\<lparr>in_interrupt_flag := b\<rparr>) = running s" "running (s\<lparr>sched_on_return := b\<rparr>) = running s"
  by (simp_all add: kernel_inv_def task_ok_def valid_task_def running_def)

lemma upd_krn_simps [simp]:
  "krn (mach (upd_krn f s)) = f (krn (mach s))" "hist (mach (upd_krn f s)) = hist (mach s)"
  "gates (mach (upd_krn f s)) = gates (mach s)" "channels (mach (upd_krn f s)) = channels (mach s)"
  "ticks (upd_krn f s) = ticks s" "mach (upd_mach g s) = g (mach s)" "ticks (upd_mach g s) = ticks s"
  by (simp_all add: upd_krn_def upd_mach_def)

text \<open>The acknowledgements of a vector.\<close>

definition eoi :: "u32 \<Rightarrow> history" where
  "eoi vec_no = (if 0x28 \<le> vec_no \<and> vec_no \<le> 0x2f then [OutB 0x20 0x20, OutB 0xa0 0x20] else [OutB 0x20 0x20])"

lemma eoi_events:
  assumes "vec_no < 256"
  shows "pic_end_of_interrupt vec_no h = h @ eoi vec_no"
proof -
  have u: "uint vec_no < 256" using assms by (simp add: word_less_def)
  have "- 2147483648 \<le> uint vec_no" by (rule order_trans [OF _ uint_ge_0]) simp
  then have s: "sint vec_no = uint vec_no"
    unfolding sint_uint by (intro signed_take_bit_int_eq_self) (use u in simp_all)
  have "0x28 \<le> vec_no \<longleftrightarrow> 40 \<le> uint vec_no" "vec_no \<le> 0x2f \<longleftrightarrow> uint vec_no \<le> 47"
    by (simp_all add: word_le_def)
  then show ?thesis unfolding pic_end_of_interrupt_def eoi_def s by (simp add: outb_def Let_def)
qed

text \<open>An external interrupt whose handler returns, with the part after the handler.\<close>

definition entered_isr :: "system \<Rightarrow> system" where
  "entered_isr = upd_krn (\<lambda>k. k\<lparr>in_interrupt_flag := True, sched_on_return := False\<rparr>)"

definition left_isr :: "u32 \<Rightarrow> system \<Rightarrow> system" where
  "left_isr vec_no s = upd_krn (\<lambda>k. k\<lparr>in_interrupt_flag := False\<rparr>) (upd_mach (\<lambda>m. m\<lparr>hist := hist m @ eoi vec_no\<rparr>) s)"

lemma left_isr_simps [simp]:
  "krn (mach (left_isr v s)) = (krn (mach s))\<lparr>in_interrupt_flag := False\<rparr>"
  "hist (mach (left_isr v s)) = hist (mach s) @ eoi v" "ticks (left_isr v s) = ticks s"
  by (simp_all add: left_isr_def)

lemma external_interrupt:
  assumes "0x20 \<le> vec_no" "vec_no < 256" "isr_table (gates (mach s)) vec_no = Some isr"
    and "run_handler img dev env vec_no err isr (entered_isr s) = Inr t"
  shows "generic_isr img dev env vec_no err s =
    (if sched_on_return (krn (mach t)) then try_krn schedule (left_isr vec_no t) else Inr (left_isr vec_no t))"
  using assms by (simp add: generic_isr_def Let_def entered_isr_def left_isr_def eoi_events)

text \<open>
  C8: A timer interrupt, from entry to return: it is acknowledged once at the master
  controller, counts a tick, and takes one off the slice of the interrupted task. While some
  is left, that task goes on with nothing else changed in the queues. At the last one its
  slice starts again, it goes to the tail of the default level and the task at the head of
  that level returns from the interrupt instead.
\<close>

theorem timer_interrupt_preempts:
  assumes "kernel_inv H Q A (krn (mach s))" "Q RUNQ = t # ts" "running (krn (mach s))"
    and "h \<in> H" "c \<in> set (Q h)" "current (krn (mach s)) = c"
    and "isr_table (gates (mach s)) 0x20 = Some systick_intr"
    and "left = time_slice_res (tasks (krn (mach s)) c) - 1"
  shows "\<exists>s'. generic_isr img dev env 0x20 err s = Inr s' \<and>
    hist (mach s') = hist (mach s) @ [OutB 0x20 0x20] \<and> ticks s' = ticks s + 1 \<and> \<not> in_interrupt (krn (mach s')) \<and>
    running (krn (mach s')) \<and>
    (if sint left \<le> 0
     then current (krn (mach s')) = t \<and> kernel_inv H (to_tail h RUNQ c Q) A (krn (mach s')) \<and>
       time_slice_res (tasks (krn (mach s')) c) = time_slice_init (tasks (krn (mach s)) c)
     else current (krn (mach s')) = c \<and> kernel_inv H Q A (krn (mach s')) \<and>
       time_slice_res (tasks (krn (mach s')) c) = left)"
proof -
  let ?k = "krn (mach s)"
  define e where "e = (krn (mach (entered_isr s)))"
  have e: "e = ?k\<lparr>in_interrupt_flag := True, sched_on_return := False\<rparr>" by (simp add: e_def entered_isr_def)
  have "run_handler img dev env 0x20 err systick_intr (entered_isr s) = Inr (systick (entered_isr s))" by simp
  note g = external_interrupt [OF _ _ assms(7) this, simplified]
  define k where "k = (task_tick e)\<lparr>in_interrupt_flag := False\<rparr>"
  have h: "hist (mach (entered_isr s)) = hist (mach s)" "ticks (entered_isr s) = ticks s"
    by (simp_all add: entered_isr_def)
  have l: "krn (mach (left_isr 0x20 (systick (entered_isr s)))) = k"
    "hist (mach (left_isr 0x20 (systick (entered_isr s)))) = hist (mach s) @ [OutB 0x20 0x20]"
    "ticks (left_isr 0x20 (systick (entered_isr s))) = ticks s + 1"
    "krn (mach (systick (entered_isr s))) = task_tick e"
    by (simp_all add: systick_def Let_def k_def e_def eoi_def h)
  have inv: "kernel_inv H Q A (task_tick e)"
    by (rule kernel_inv_same [of H Q A e])
      (use assms(1) kernel_invD(2,3) [OF assms(1)] in \<open>simp_all add: e task_tick_eq Let_def\<close>)
  have r: "running k" "current k = c" using assms(3,6) by (simp_all add: k_def e task_tick_eq Let_def running_def)
  have nn: "c \<noteq> NULL" using kernel_invD(8) [OF assms(1) kernel_invD(5) [OF assms(1,4,5)]] .
  show ?thesis
  proof (cases "sint left \<le> 0")
    case False
    then have "\<not> sched_on_return (task_tick e)" "time_slice_res (tasks k c) = left"
      using assms(6,8) by (simp_all add: e k_def task_tick_eq Let_def)
    then show ?thesis using False g l inv r
      by (intro exI [of _ "left_isr 0x20 (systick (entered_isr s))"]) (simp add: in_interrupt_def k_def)
  next
    case True
    then have f: "sched_on_return (task_tick e)" "time_slice_res (tasks k c) = time_slice_init (tasks ?k c)"
      using assms(6,8) by (simp_all add: e k_def task_tick_eq Let_def)
    have inv': "kernel_inv H Q A k" using inv by (simp add: k_def)
    obtain g' where sc: "schedule k = Inr (switched (hd (Q RUNQ)) g' k)"
      "kernel_inv H (to_tail h RUNQ c Q) A (switched (hd (Q RUNQ)) g' k)"
      using schedule_spec [OF inv', of h] assms(2,4,5) r nn by auto
    let ?s = "left_isr 0x20 (systick (entered_isr s))"
    have "try_krn schedule ?s = Inr (?s\<lparr>mach := (mach ?s)\<lparr>krn := switched t g' k\<rparr>\<rparr>)"
      using sc(1) assms(2) unfolding try_krn_def try_mach_def l(1) by simp
    moreover have "\<not> in_interrupt_flag (switched t g' k)"
      by (simp add: switched_def upd_task_def upd_links_def k_def)
    ultimately show ?thesis using True g l f sc(2) r assms(2)
      by (intro exI [of _ "?s\<lparr>mach := (mach ?s)\<lparr>krn := switched t g' k\<rparr>\<rparr>"]) (auto simp: in_interrupt_def)
  qed
qed

definition ticking :: "kernel \<Rightarrow> system" where
  "ticking k = \<lparr>mach = quiet_machine\<lparr>krn := k, gates := set_interrupt_gate 0x20 systick_intr (empty_idt\<lparr>idt_table := 0xC0010000\<rparr>)\<rparr>,
     blks = \<lparr>bmem = (\<lambda>_. 0), blinks = \<lparr>lprev = (\<lambda>n. n), lnext = (\<lambda>n. n)\<rparr>, nr_sectors = (\<lambda>_. 0), block_ops = (\<lambda>_. \<lparr>op_read = (\<lambda>_ _ _ m. (0, m)), op_write = (\<lambda>_ _ _ m. (0, m))\<rparr>), block_params = (\<lambda>_. 0)\<rparr>, kb = no_keys, ticks = 41, lock = 1, cr3 = 0,
     con = \<lparr>cx = 5, cy = 77, inited = True, vram = (\<lambda>_. 0), chist = []\<rparr>\<rparr>"

lemma ticking_simps:
  "krn (mach (ticking k)) = k" "isr_table (gates (mach (ticking k))) 0x20 = Some systick_intr"
  "hist (mach (ticking k)) = []" "ticks (ticking k) = 41"
proof -
  have "isr_table (set_gate (idt_table s + 8 * 0x20) i d ty s) 0x20 = Some i" if "idt_table s = 0xC0010000" for s i d ty
    by (subst set_gate_index) (use that in simp_all)
  then show "isr_table (gates (mach (ticking k))) 0x20 = Some systick_intr"
    by (simp add: ticking_def set_interrupt_gate_def)
qed (simp_all add: ticking_def quiet_machine_def)

theorem timer_interrupt_preempts_witness:
  "\<forall>img. \<exists>k s' i. current k \<noteq> i \<and> generic_isr img (\<lambda>_ _. 0) Inr 0x20 0 (ticking k) = Inr s' \<and> ticks s' = 42 \<and>
     current (krn (mach s')) = i"
proof -
  let ?c = "0xC009E000 :: u32"
  obtain i1 i2 s where s:
    "kernel_inv (boot_heads 4096) ((\<lambda>_. [])(RUNQ := [?c, i1, i2])) [i2, i1, ?c] s" "current s = ?c" "running s"
    by (rule start_booted)
  have d: "distinct [i2, i1, ?c]" by (rule lists_distinct(2) [OF kernel_invD(1) [OF s(1)]])
  obtain g where inv: "kernel_inv (boot_heads 4096) ((\<lambda>_. [])(RUNQ := [i1, i2, ?c])) [i2, i1, ?c] (switched ?c g s)"
    using schedule_spec [OF s(1), of RUNQ] s(2,3) by auto
  define k where "k = upd_task ?c (\<lambda>t. t\<lparr>time_slice_res := 1\<rparr>) (switched ?c g s)"
  have inv': "kernel_inv (boot_heads 4096) ((\<lambda>_. [])(RUNQ := [i1, i2, ?c])) [i2, i1, ?c] k"
    by (rule kernel_inv_same [OF inv]) (use kernel_invD(2,3) [OF inv] in \<open>simp_all add: k_def\<close>)
  have k: "running k" "current k = ?c" "time_slice_res (tasks k ?c) = 1" by (simp_all add: k_def running_def)
  have "\<exists>k s' i. current k \<noteq> i \<and> generic_isr img (\<lambda>_ _. 0) Inr 0x20 0 (ticking k) = Inr s' \<and> ticks s' = 42 \<and>
     current (krn (mach s')) = i" for img
    using timer_interrupt_preempts [of "boot_heads 4096" "(\<lambda>_. [])(RUNQ := [i1, i2, ?c])" "[i2, i1, ?c]"
        "ticking k" i1 "[i2, ?c]" RUNQ ?c 0 img "\<lambda>_ _. 0" Inr 0] inv' k d
    by (intro exI [of _ k]) (auto simp: ticking_simps)
  then show ?thesis by blast
qed

lemma ucast_u16_inj: "(ucast (a :: u16) :: u32) = ucast b \<longleftrightarrow> a = b"
proof -
  have "ucast (ucast x :: u32) = x" for x :: u16 by (rule bit_word_eqI) (auto simp: bit_simps)
  then show ?thesis by metis
qed

text \<open>
  C19: The interrupt of a disk wakes the task that waits for it: the status register is read
  once, the first waiter of the adaptor's semaphore goes to the tail of its ready level, both
  controllers are acknowledged, and the interrupted task goes on.
\<close>

theorem disk_interrupt_wakes:
  assumes "kernel_inv H Q A (krn (mach s))" "running (krn (mach s))"
    and "c = 0 \<or> c = 1 \<and> irq (channels (mach s) 0) \<noteq> irq (channels (mach s) 1)"
    and "vec = ucast (irq (channels (mach s) c))" "vec = 0x2e \<or> vec = 0x2f"
    and "isr_table (gates (mach s)) vec = Some ide_interrupt"
    and "a = sema_wait (channels (mach s) c)" "sema_free a (krn (mach s))" "count (semas (krn (mach s)) a) = 0"
    and "WaitHead a \<in> H" "Q (WaitHead a) = t # ws" "status (tasks (krn (mach s)) t) = TASK_BLOCKED"
    and "level = ReadyHead (unat (priority (tasks (krn (mach s)) t)))"
  shows "\<exists>s'. generic_isr img dev env vec err s = Inr s' \<and>
    hist (mach s') = hist (mach s) @ [InB (reg_status (channels (mach s) c)) (ucast (dev (hist (mach s)) (reg_status (channels (mach s) c)))),
      OutB 0x20 0x20, OutB 0xa0 0x20] \<and>
    current (krn (mach s')) = current (krn (mach s)) \<and> running (krn (mach s')) \<and> \<not> in_interrupt (krn (mach s')) \<and>
    status (tasks (krn (mach s')) t) = TASK_RUNNING \<and>
    kernel_inv H (Q(WaitHead a := ws, level := Q level @ [t])) A (krn (mach s'))"
proof -
  define e where "e = krn (mach (entered_isr s))"
  have e: "e = (krn (mach s))\<lparr>in_interrupt_flag := True, sched_on_return := False\<rparr>" by (simp add: e_def entered_isr_def)
  have inv: "kernel_inv H Q A e" and free: "sema_free a e" and blk: "status (tasks e t) = TASK_BLOCKED"
    and cnt: "0 < sint (count (semas e a) + 1)"
    using assms by (simp_all add: e sema_free_def)
  obtain k g where up: "sema_up a e = Inr k"
    and inv': "kernel_inv H (Q(WaitHead a := ws, ReadyHead (unat (priority (tasks e t))) :=
        Q (ReadyHead (unat (priority (tasks e t)))) @ [t])) A k"
    and k: "k = upd_links g (upd_task t (\<lambda>t. t\<lparr>status := TASK_RUNNING\<rparr>) (upd_sema a (\<lambda>x. x\<lparr>count := count x + 1\<rparr>) e))"
    by (rule sema_up_wakes [OF inv free assms(10,11) cnt blk])
  let ?p = "reg_status (channels (mach s) c)"
  let ?m = "(mach (entered_isr s))\<lparr>hist := hist (mach s) @ [InB ?p (ucast (dev (hist (mach s)) ?p))], krn := k\<rparr>"
  have body: "ide_interrupt_body dev c (mach (entered_isr s)) = Inr ?m"
    using up assms(7) by (simp add: ide_interrupt_body_def sys_in_eq up_def e_def [symmetric])
      (simp add: entered_isr_def e_def)
  have "ide_isr dev vec (mach (entered_isr s)) = ide_interrupt_body dev c (mach (entered_isr s))"
    using assms(3,4) by (auto simp: ide_isr_def entered_isr_def ucast_u16_inj)
  then have r: "run_handler img dev env vec err ide_interrupt (entered_isr s) = Inr ((entered_isr s)\<lparr>mach := ?m\<rparr>)"
    using body by (simp add: try_mach_def)
  have v: "0x20 \<le> vec" "vec < 256" "eoi vec = [OutB 0x20 0x20, OutB 0xa0 0x20]" using assms(5) by (auto simp: eoi_def)
  have "\<not> sched_on_return k" by (simp add: k e upd_task_def upd_links_def upd_sema_def)
  then show ?thesis
    using external_interrupt [OF v(1,2) assms(6) r] inv' assms(2,13) v(3)
    by (intro exI [of _ "left_isr vec ((entered_isr s)\<lparr>mach := ?m\<rparr>)"])
      (auto simp: in_interrupt_def k e running_def)
qed

definition disk_waiting :: "kernel \<Rightarrow> system" where
  "disk_waiting k = (ticking k)\<lparr>mach := (mach (ticking k))
     \<lparr>gates := set_interrupt_gate 0x2e ide_interrupt (empty_idt\<lparr>idt_table := 0xC0010000\<rparr>),
      channels := (\<lambda>c. (channels quiet_machine c)\<lparr>sema_wait := 4096\<rparr>)\<rparr>\<rparr>"

theorem disk_interrupt_wakes_witness:
  "\<forall>img. \<exists>k s'. status (tasks k 0xC009E000) = TASK_BLOCKED \<and>
     generic_isr img quiet_dev Inr 0x2e 0 (disk_waiting k) = Inr s' \<and>
     hist (mach s') = [InB 0x1f7 0, OutB 0x20 0x20, OutB 0xa0 0x20] \<and>
     status (tasks (krn (mach s')) 0xC009E000) = TASK_RUNNING"
proof -
  obtain i1 i2 k where k: "sys {4096} i1 ((\<lambda>_. [])(RUNQ := [i1, i2], WaitHead 4096 := [0xC009E000])) [i2, i1, 0xC009E000] k"
    "count (semas k 4096) = 0" "priority (tasks k 0xC009E000) = 31"
    by (rule start_scheduled)
  note S = sysD [OF k(1)]
  have free: "sema_free 4096 k" and b: "status (tasks k 0xC009E000) = TASK_BLOCKED"
    using S(6) by (simp_all add: waits_ok_def)
  have isr: "isr_table (gates (mach (disk_waiting k))) 0x2e = Some ide_interrupt"
  proof -
    have "isr_table (set_gate (idt_table s + 8 * 0x2e) i d ty s) 0x2e = Some i" if "idt_table s = 0xC0010000" for s i d ty
      by (subst set_gate_index) (use that in simp_all)
    then show ?thesis by (simp add: disk_waiting_def set_interrupt_gate_def)
  qed
  have c: "krn (mach (disk_waiting k)) = k" "hist (mach (disk_waiting k)) = []"
    "sema_wait (channels (mach (disk_waiting k)) 0) = 4096" "irq (channels (mach (disk_waiting k)) 0) = 46"
    "reg_status (channels (mach (disk_waiting k)) 0) = 0x1f7"
    by (simp_all add: disk_waiting_def ticking_def quiet_machine_def reg_defs)
  have ready: "kernel_inv (heads {4096}) ((\<lambda>_. [])(RUNQ := [i1, i2], WaitHead 4096 := [0xC009E000])) [i2, i1, 0xC009E000] (krn (mach (disk_waiting k)))"
    "running (krn (mach (disk_waiting k)))" "sema_free 4096 (krn (mach (disk_waiting k)))"
    "count (semas (krn (mach (disk_waiting k))) 4096) = 0"
    "status (tasks (krn (mach (disk_waiting k))) 0xC009E000) = TASK_BLOCKED"
    unfolding c(1) by (rule S(1) S(2) free k(2) b)+
  have i: "(0x2e :: u32) = ucast (irq (channels (mach (disk_waiting k)) 0))" unfolding c(4) by simp
  have w: "WaitHead 4096 \<in> heads {4096}" by simp
  have q: "((\<lambda>_. [])(RUNQ := [i1, i2], WaitHead 4096 := [0xC009E000])) (WaitHead 4096) = 0xC009E000 # []" by simp
  have "\<exists>s'. generic_isr img quiet_dev Inr 0x2e 0 (disk_waiting k) = Inr s' \<and>
     hist (mach s') = [InB 0x1f7 0, OutB 0x20 0x20, OutB 0xa0 0x20] \<and>
     status (tasks (krn (mach s')) 0xC009E000) = TASK_RUNNING" for img
    using disk_interrupt_wakes [OF ready(1,2) disjI1 [OF refl] i disjI1 [OF refl] isr c(3) [symmetric] ready(3,4) w q ready(5) refl,
        of img quiet_dev Inr 0]
    unfolding c(2,5) by (elim exE conjE) (simp add: quiet_dev_def)
  then show ?thesis using b by blast
qed

section \<open>Without a disk\<close>

text \<open>No drive answers: every read from the bus gives ones.\<close>

definition floating :: "device \<Rightarrow> bool" where
  "floating dev \<longleftrightarrow> (\<forall>h p. dev h p = 0xffffffff)"

lemma select_disk_of [simp]: "disk_of c d (select_disk c' d' s) = disk_of c d s"
  by (simp add: select_disk_def Let_def)

lemma check_floating:
  assumes "floating dev"
  shows "fst (check_disk_type dev c d s)"
    and "disk_of x y (snd (check_disk_type dev c d s)) =
      (if x = c \<and> y = d then (disk_of c d s)\<lparr>is_ata_disk := False\<rparr> else disk_of x y s)"
proof -
  have f: "dev h p = 0xffffffff" for h p using assms by (simp add: floating_def)
  obtain h where "check_disk_type dev c d s = (True, upd_disk c d (\<lambda>k. k\<lparr>is_ata_disk := False\<rparr>) ((select_disk c d s)\<lparr>hist := h\<rparr>))"
    by (simp add: check_disk_type_def sys_in_eq f Let_def)
  moreover have "disk_of x y (upd_disk c d g t) = (if x = c \<and> y = d then g (disk_of c d t) else disk_of x y t)" for g t
    by (auto simp: disk_of_def upd_disk_def)
  ultimately show "fst (check_disk_type dev c d s)" "disk_of x y (snd (check_disk_type dev c d s)) =
      (if x = c \<and> y = d then (disk_of c d s)\<lparr>is_ata_disk := False\<rparr> else disk_of x y s)"
    by simp_all
qed

lemma init_disk_links: "init_disk lay c d (s, b) = (s', b') \<Longrightarrow> blinks b' = blinks b"
  by (auto simp: init_disk_def Let_def)

lemma init_adaptor_floating:
  assumes "floating dev"
  shows "\<exists>s' b'. init_adaptor dev env lay c (s, b) = Inr (s', b') \<and> blinks b' = blinks b"
proof -
  define s1 where "s1 = s\<lparr>channels := (channels s)(c := (channels s c)
               \<lparr>chan_name := format_text [Lit 105, Lit 100, Lit 101, Conv False [] None 100] [c],
                reg_base := chan_reg_bases c, irq := chan_irqs c,
                chan_slock := spin_lock_init (chan_slock (channels s c))\<rparr>)\<rparr>"
  define s2 where "s2 = s1\<lparr>krn := sema_init (sema_wait (channels s1 c)) 0 (krn s1)\<rparr>"
  define s3 where "s3 = s2\<lparr>krn := sema_init (sema_rw (channels s2 c)) 1 (krn s2)\<rparr>"
  obtain s4 b4 where i1: "init_disk lay c 0 (s3, b) = (s4, b4)" by (cases "init_disk lay c 0 (s3, b)")
  obtain s5 b5 where i2: "init_disk lay c 1 (s4, b4) = (s5, b5)" by (cases "init_disk lay c 1 (s4, b4)")
  define s6 where "s6 = reset_adaptor dev c (s5\<lparr>gates := set_interrupt_gate (ucast (chan_irqs c)) ide_interrupt (gates s5)\<rparr>)"
  define s7 where "s7 = snd (check_disk_type dev c 0 s6)"
  define s8 where "s8 = snd (check_disk_type dev c 1 s7)"
  note k = check_floating [OF assms]
  have "\<not> is_ata_disk (disk_of c 0 s8)" "\<not> is_ata_disk (disk_of c 1 s8)"
    by (simp_all add: s8_def s7_def k)
  then have reg: "register_disk dev env lay c 0 (s8, b5) = Inr (s8, b5)" "register_disk dev env lay c 1 (s8, b5) = Inr (s8, b5)"
    by (simp_all add: register_disk_def)
  have c0: "check_disk_type dev c 0 s6 = (True, s7)" using k(1) [of c 0 s6] by (simp add: s7_def prod_eq_iff)
  have "init_adaptor dev env lay c (s, b) = Inr (s8, b5)"
    unfolding init_adaptor_def prod.case s1_def [symmetric] Let_def
    unfolding s2_def [symmetric] unfolding s3_def [symmetric] i1 i2 prod.case
    unfolding s6_def [symmetric] c0 prod.case if_True s8_def [symmetric] reg bindE_simps ..
  moreover have "blinks b5 = blinks b" using init_disk_links i1 i2 by metis
  ultimately show ?thesis by blast
qed

lemma ide_init_floating:
  assumes "floating dev"
  shows "\<exists>s' b'. ide_init dev env lay (s, b) = Inr (s', b') \<and> blinks b' = blinks b"
proof -
  obtain s1 b1 where 1: "init_adaptor dev env lay 0 (s, b) = Inr (s1, b1)" "blinks b1 = blinks b"
    using init_adaptor_floating [OF assms] by blast
  obtain s2 b2 where "init_adaptor dev env lay 1 (s1, b1) = Inr (s2, b2)" "blinks b2 = blinks b1"
    using init_adaptor_floating [OF assms] by blast
  then show ?thesis using 1 by (simp add: ide_init_def)
qed

text \<open>
  Without a disk \<open>main\<close> never comes to its end: when no drive answers, no block device is
  registered, the lookup of hda gives a null pointer, and reading its size is a fault,
  whatever the memory, the image and the other tasks are.
\<close>

theorem main_without_disk:
  assumes "\<forall>h p. dev h p = 0xffffffff"
  shows "main img dev env early s = bindE (main_kernel img dev env early s) (\<lambda>_. Inl Fault)"
proof -
  have f: "floating dev" using assms by (simp add: floating_def)
  have "bindE (main_drivers img dev env s1) (main_disk img) = Inl Fault" for s1
  proof -
    define b where "b = block_init (blks s1)"
    obtain m b' where i: "ide_init dev env (disks img) (mach s1, b) = Inr (m, b')" "blinks b' = blinks b"
      using ide_init_floating [OF f] by blast
    have "lnext (blinks b') BlockDevices = BlockDevices" by (simp add: i(2) b_def block_init_def list_head_init_def)
    then have "blcok_get_by_name (hda_addr img) b' = Some NULL"
      by (simp add: blcok_get_by_name_def get_loop.simps)
    then show ?thesis
      by (simp add: main_drivers_def Let_def b_def [symmetric] i(1) main_disk_def spin_def upd_mach_def)
  qed
  then show ?thesis by (simp add: main_def)
qed

theorem main_without_disk_witness:
  "\<forall>img env early s. main img (\<lambda>_ _. 0xffffffff) env early s =
     bindE (main_kernel img (\<lambda>_ _. 0xffffffff) env early s) (\<lambda>_. Inl Fault)"
  using main_without_disk [of "\<lambda>_ _. 0xffffffff"] by blast

section \<open>The boot\<close>

lemma kget_base:
  "mm_kget_page pf s = Inr (p, t) \<Longrightarrow> base (kernel_pool t) = base (kernel_pool s)"
  by (auto simp: mm_kget_page_def mm_kget_pages_def pool_lock_def pool_unlock_def printk_mm_def Let_def
      split: if_splits sum.splits)

lemma map_page_base:
  "map_page st en pd i (Inr (pt, s)) = Inr (pt', t) \<Longrightarrow> base (kernel_pool t) = base (kernel_pool s)"
  by (auto simp: map_page_def Let_def split: if_splits dest!: kget_base elim!: bindE_InrE)

lemma pg_dir_init_base:
  assumes "kernel_pg_dir_init st en ram s = Inr (pd, t)"
  shows "base (kernel_pool t) = base (kernel_pool s)"
proof -
  obtain pd0 u where g: "mm_kget_page (PF_ZERO OR PF_ATOMIC) s = Inr (pd0, u)"
    and l: "bindE (for_loop 0 ram (map_page st en pd0) (Inr (NULL, u))) (\<lambda>(pt, s). Inr (vtop pd0, s)) = Inr (pd, t)"
    using assms unfolding kernel_pg_dir_init_def by (elim bindE_InrE) auto
  define P where "P k r \<longleftrightarrow> (\<forall>pt v. r = Inr (pt, v) \<longrightarrow> base (kernel_pool v) = base (kernel_pool u))"
    for k :: nat and r :: "(u32 \<times> mm) result"
  have "P (unat ram) (for_loop 0 ram (map_page st en pd0) (Inr (NULL, u)))"
  proof (rule for_loop_inv)
    fix k r assume P: "P k r"
    show "P (Suc k) (map_page st en pd0 (of_nat k) r)"
    proof (cases r)
      case (Inl e)
      then show ?thesis by (simp add: P_def map_page_def)
    next
      case (Inr q)
      then show ?thesis using P map_page_base by (cases q) (fastforce simp: P_def)
    qed
  qed (simp_all add: P_def)
  then show ?thesis using l kget_base [OF g] by (auto simp: P_def elim!: bindE_InrE)
qed

lemma serial_init_krn:
  "krn (serial_init dev a m) = (sema_init a 1 (krn m))\<lparr>intr_on := True\<rparr>"
  "gates (serial_init dev a m) = set_interrupt_gate 0x24 serial_interrupt (gates m)"
  by (simp_all add: serial_init_def serial_enable_intr_def set_intr_def serial_init_poll_def serial_set_rate_def
      sys_out_def outb_def sys_in_def inb_def sema_init_def upd_sema_def upd_links_def Let_def)

text \<open>The handlers of the vectors when \<open>main\<close> first waits.\<close>

definition installed :: "u32 \<Rightarrow> handler" where
  "installed n = (if n = 0x20 then systick_intr else if n = 0x21 then kbd_interrupt
     else if n = 0x24 then serial_interrupt else default_isr)"

definition good_gate :: "intr \<Rightarrow> u32 \<Rightarrow> handler \<Rightarrow> bool" where
  "good_gate s n h \<longleftrightarrow> isr_table s n = Some h \<and> gate_offset (idt s n) = isr_stubs s n \<and>
     gate_present (idt s n) \<and> gate_type (idt s n) = 14"

lemma install_gate:
  assumes "idt_mapped (idt_table s)" "m < 256" "\<forall>n<256. good_gate s n (f n)"
  shows "\<forall>n<256. good_gate (set_interrupt_gate m h s) n ((f(m := h)) n)"
    "idt_table (set_interrupt_gate m h s) = idt_table s"
proof -
  have nn: "idt_table s + 8 * m \<noteq> NULL" using assms(1,2) by (simp add: idt_mapped_def)
  note g = set_gate_spec [OF assms(2) nn, where dpl = 0 and type = GATE_TYPE_INTR and isr = h, simplified]
  show "idt_table (set_interrupt_gate m h s) = idt_table s" using g by (simp add: set_interrupt_gate_def)
  show "\<forall>n<256. good_gate (set_interrupt_gate m h s) n ((f(m := h)) n)"
    using g assms(3) by (auto simp: set_interrupt_gate_def good_gate_def)
qed

lemma installed_upd: "((((\<lambda>_. default_isr)(0x20 := systick_intr))(0x24 := serial_interrupt))(0x21 := kbd_interrupt)) = installed"
  by (rule ext) (simp add: installed_def)

definition booted_gates :: "u32 \<Rightarrow> intr \<Rightarrow> intr" where
  "booted_gates t g = set_interrupt_gate 0x21 kbd_interrupt (set_interrupt_gate 0x24 serial_interrupt
     (set_interrupt_gate 0x20 systick_intr (for_loop 0 INTR_COUNT (\<lambda>i. set_interrupt_gate i default_isr) (g\<lparr>idt_table := t\<rparr>))))"

lemma set_gates_table: "idt_table (set_interrupt_gate i h s) = idt_table s" "isr_stubs (set_interrupt_gate i h s) = isr_stubs s"
  by (simp_all add: set_interrupt_gate_def set_gate_def Let_def)

lemma booted_gates_good:
  assumes "idt_mapped t" "n < 256"
  shows "good_gate (booted_gates t g) n (installed n)"
proof -
  let ?g = "for_loop 0 INTR_COUNT (\<lambda>i. set_interrupt_gate i default_isr) (g\<lparr>idt_table := t\<rparr>)"
  have tab: "idt_table ?g = t \<and> isr_stubs ?g = isr_stubs g"
    by (rule for_loop_inv [where P = "\<lambda>_ s. idt_table s = t \<and> isr_stubs s = isr_stubs g"])
      (simp_all add: set_gates_table)
  have m: "idt_mapped (idt_table (g\<lparr>idt_table := t\<rparr>))" using assms(1) by simp
  have 0: "\<forall>n<256. good_gate ?g n ((\<lambda>_. default_isr) n)"
    using init_gates [OF m] tab by (simp add: good_gate_def)
  have m0: "idt_mapped (idt_table ?g)" using assms(1) tab by simp
  note 1 = install_gate [OF m0 _ 0, where m = "0x20" and h = systick_intr]
  note 2 = install_gate [OF _ _ 1(1), where m = "0x24" and h = serial_interrupt]
  note 3 = install_gate [OF _ _ 2(1), where m = "0x21" and h = kbd_interrupt]
  show ?thesis
    using 3(1) m0 assms(2) unfolding booted_gates_def installed_upd by (simp add: set_gates_table)
qed

lemma booted_gates_table: "idt_table (booted_gates t g) = t"
  unfolding booted_gates_def set_gates_table
  by (rule for_loop_inv [where P = "\<lambda>_ s. idt_table s = t"]) (simp_all add: set_gates_table)

text \<open>The pool \<open>mm_init\<close> makes has room for the page tables and two tasks more.\<close>

lemma boot_pool:
  assumes "512 \<le> unat n" "unat n < 262144"
  obtains p where "mm_init buf n m = Inr p" "pool_inv p" "786688 \<le> pool_base_page p"
    "(unat n + 1023) div 1024 + 3 \<le> free_pages p"
    "pool_base_page p = 786688 + bitmap_pages (unat n - 256)" "pool_pages p = unat n - 256 - bitmap_pages (unat n - 256)"
proof -
  let ?n = "unat n"
  obtain p where p: "mm_init buf n m = Inr p" "pool_inv p" "taken p = {}"
    "pool_base_page p = 786688 + bitmap_pages (?n - 256)" "pool_pages p = ?n - 256 - bitmap_pages (?n - 256)"
    using assms by (elim mm_init_ok [rotated 2]) simp_all
  have "free_pages p = ?n - 256 - bitmap_pages (?n - 256)" by (simp add: free_pages_def p(3,5))
  moreover have "bitmap_pages (?n - 256) * 4096 \<le> (?n - 256 + 7) div 8 + 4 + 4095"
    unfolding bitmap_pages_def by simp
  moreover have "(?n - 256 + 7) div 8 * 8 \<le> ?n - 256 + 7" "(?n + 1023) div 1024 * 1024 \<le> ?n + 1023" by simp_all
  ultimately have "(?n + 1023) div 1024 + 3 \<le> free_pages p" using assms(1) by linarith
  then show ?thesis using that p by simp
qed

section \<open>What the boot prints\<close>

text \<open>
  The two messages of \<open>mm_init\<close>: the pages beyond the first megabyte, those the pool is left with
  behind its own bitmap, and the address of the first of them.
\<close>

definition boot_text :: "nat \<Rightarrow> u8 list" where
  "boot_text ram =
     (let pages = ram - 256; bitmap = bitmap_pages pages
      in (map of_char ''Initial free memory pages '' @ number_text 10 False pages @ map of_char ''.\<newline>'') @
         (map of_char ''Current free kernel pages '' @ number_text 10 False (pages - bitmap) @
          map of_char '', kernel memory pool base '' @ padded True 8 (number_text 16 False ((786688 + bitmap) * 4096)) @
          map of_char ''\<newline>''))"

definition free_items :: "item list" where
  "free_items = map Lit (map of_char ''Initial free memory pages '') @ Conv False [] None 100 # map Lit (map of_char ''.\<newline>'')"

definition pool_items :: "item list" where
  "pool_items = map Lit (map of_char ''Current free kernel pages '') @ Conv False [] None 100 #
     map Lit (map of_char '', kernel memory pool base '') @ Conv True [56] None 112 # map Lit (map of_char ''\<newline>'')"

lemma items_text_lits:
  "items_text z l (map Lit s @ is) vs = map_option ((@) s) (items_text z l is vs)"
  "items_text z l (map Lit s) vs = Some s"
  by (induction s; cases "items_text z l is vs"; simp)+

lemma items_text_d:
  assumes "unat a < 2147483648"
  shows "items_text False False (Conv False [] None 100 # is) (Num a # vs) =
    map_option ((@) (number_text 10 False (unat a))) (items_text False False is vs)"
proof -
  have "int (unat a) < 2147483648" using assms by linarith
  then have u: "uint a < 2147483648" by simp
  have "- 2147483648 \<le> uint a" by (rule order_trans [OF _ uint_ge_0]) simp
  then have "sint a = uint a"
    unfolding sint_uint by (intro signed_take_bit_int_eq_self) (use u in simp_all)
  then have s: "\<not> sint a < 0" by simp
  show ?thesis using s number_args(2) [OF s, symmetric] by (simp add: padded_def)
qed

lemma items_text_p:
  "items_text False False (Conv True [56] None 112 # is) (Num a # vs) =
    map_option ((@) (padded True 8 (number_text 16 False (unat a)))) (items_text True False is vs)"
  by simp

lemma print_entry_items:
  assumes "concat (map item_bytes items) = map of_char fmt" "list_all item_ok items" "list_all width_ok items"
    and "0 \<notin> set (map of_char fmt :: u8 list)" "length fmt < 1000"
    and "items_text False False items (map Num args) = Some out"
  shows "print_entry dev (fmt, args) c = fold (fb_putc dev) out c"
proof -
  have "cstr (text_at 0x1000 (map of_char fmt)) 0x1000 (concat (map item_bytes items))"
    unfolding assms(1) by (rule text_at_cstr) (use assms(4,5) in simp_all)
  moreover have "list_all2 (arg_at m) (map Num args) args" for m
    by (simp add: list_all2_conv_all_nth)
  ultimately have "vsprintf (text_at 0x1000 (map of_char fmt)) 0x1000 args = Some (Inr out)"
    using items_run [of _ "map Num args" args items 0 out "[]"] assms(3,6)
    by (simp add: vsprintf_def vsprintf_items [OF _ assms(2)])
  then show ?thesis by (simp add: print_entry_def printk_def)
qed

lemma print_free:
  assumes "unat a < 2147483648"
  shows "print_entry dev (''Initial free memory pages %d.\<newline>'', [a]) c = fold (fb_putc dev)
    (map of_char ''Initial free memory pages '' @ number_text 10 False (unat a) @ map of_char ''.\<newline>'') c"
proof (rule print_entry_items)
  show "concat (map item_bytes free_items) = map of_char ''Initial free memory pages %d.\<newline>''"
    by (simp add: free_items_def)
  show "list_all item_ok free_items" by (simp add: free_items_def is_digit_char_def modifier_def)
  show "list_all width_ok free_items" by (simp add: free_items_def number_of_def)
  show "items_text False False free_items (map Num [a]) =
      Some (map of_char ''Initial free memory pages '' @ number_text 10 False (unat a) @ map of_char ''.\<newline>'')"
    unfolding free_items_def items_text_lits list.map(2) [of Num a "[]"] items_text_d [OF assms] option.map ..
qed simp_all

lemma print_pool:
  assumes "unat k < 2147483648"
  shows "print_entry dev (''Current free kernel pages %d, kernel memory pool base %08p\<newline>'', [k, b]) c = fold (fb_putc dev)
    (map of_char ''Current free kernel pages '' @ number_text 10 False (unat k) @
     map of_char '', kernel memory pool base '' @ padded True 8 (number_text 16 False (unat b)) @ map of_char ''\<newline>'') c"
proof (rule print_entry_items)
  show "concat (map item_bytes pool_items) = map of_char ''Current free kernel pages %d, kernel memory pool base %08p\<newline>''"
    by (simp add: pool_items_def)
  show "list_all item_ok pool_items" by (simp add: pool_items_def is_digit_char_def modifier_def)
  show "list_all width_ok pool_items" by (simp add: pool_items_def number_of_def digit_value_def)
  show "items_text False False pool_items (map Num [k, b]) =
      Some (map of_char ''Current free kernel pages '' @ number_text 10 False (unat k) @
        map of_char '', kernel memory pool base '' @ padded True 8 (number_text 16 False (unat b)) @ map of_char ''\<newline>'')"
    unfolding pool_items_def items_text_lits list.map(2) [of Num k "[b]"] list.map(2) [of Num b "[]"]
      items_text_d [OF assms] items_text_p option.map ..
qed simp_all

lemma print_boot:
  assumes "256 < unat n" "unat n < 262144" "unat k = unat n - 256 - bitmap_pages (unat n - 256)"
    "unat b = (786688 + bitmap_pages (unat n - 256)) * 4096"
  shows "fold (print_entry dev) [(''Initial free memory pages %d.\<newline>'', [n - 256]),
      (''Current free kernel pages %d, kernel memory pool base %08p\<newline>'', [k, b])] c =
    fold (fb_putc dev) (boot_text (unat n)) c"
proof -
  have n: "unat (n - 256) = unat n - 256" using assms(1) by (subst unat_sub) (simp_all add: word_le_nat_alt)
  have small: "unat (n - 256) < 2147483648" "unat k < 2147483648" using assms(2,3) n by simp_all
  show ?thesis
    unfolding fold_simps print_free [OF small(1)] print_pool [OF small(2)] boot_text_def Let_def assms(3,4) n
      fold_append [of _ "map of_char ''Initial free memory pages '' @ _"] comp_def ..
qed

lemma boot_prints:
  assumes "512 \<le> unat n" "unat n < 262144" "mm_init buf n m = Inr p"
  shows "fold (print_entry dev) (drop (length (klog m)) (klog p)) c = fold (fb_putc dev) (boot_text (unat n)) c"
proof -
  obtain p' where p': "mm_init buf n m = Inr p'" "pool_inv p'"
    "pool_base_page p' = 786688 + bitmap_pages (unat n - 256)" "pool_pages p' = unat n - 256 - bitmap_pages (unat n - 256)"
    using boot_pool [OF assms(1,2), of buf m] by metis
  then have p: "pool_inv p" "pool_base_page p = 786688 + bitmap_pages (unat n - 256)"
    "pool_pages p = unat n - 256 - bitmap_pages (unat n - 256)"
    using assms(3) by simp_all
  have "unat (base (kernel_pool p)) = (786688 + bitmap_pages (unat n - 256)) * 4096"
    using p(1,2) div_mult_mod_eq [of "unat (base (kernel_pool p))" 4096] by (simp add: pool_inv_def pool_base_page_def)
  moreover have "unat (bit_count (bm (kernel_pool p))) = unat n - 256 - bitmap_pages (unat n - 256)"
    using p(3) by (simp add: pool_pages_def)
  moreover have "256 < unat n" using assms(1) by simp
  ultimately show ?thesis using mm_init_log [OF assms(3)] print_boot [of n] assms(2) by simp
qed

text \<open>The first character printed finds the cursor of the BIOS and starts three rows below it.\<close>

lemma fb_putc_first: "fb_putc dev ch (init_cursor dev c) = fb_putc dev ch c"
proof -
  have "init_cursor dev (init_cursor dev c) = init_cursor dev c"
    by (simp add: init_cursor_def case_prod_beta Let_def)
  then show ?thesis by (simp add: fb_putc_def)
qed

lemma first_line:
  assumes "\<not> inited c" "find_cursor dev c = (x, y, c')" "unat y + 3 < 25"
  shows "cursor_ok (init_cursor dev c)"
    "abs_screen (init_cursor dev c) = \<lparr>cell = cell (abs_screen c), col = 0, row = unat y + 3\<rparr>"
proof -
  have v: "vram c' = vram c" using assms(2) by (auto simp: find_cursor_def Let_def inb_def outb_def)
  have y: "unat (y + 3) = unat y + 3" using assms(3) by (subst unat_plus_no_wrap) simp_all
  then have "y + 3 < 25" using assms(3) by (simp add: word_less_nat_alt)
  then show "cursor_ok (init_cursor dev c)"
    using assms(1,2) by (simp add: init_cursor_def Let_def cursor_ok_def move_cursor_def)
  show "abs_screen (init_cursor dev c) = \<lparr>cell = cell (abs_screen c), col = 0, row = unat y + 3\<rparr>"
    using assms(1,2) y v by (simp add: init_cursor_def Let_def abs_screen_def move_cursor_def cong: if_cong)
qed

lemma first_text:
  assumes "\<not> inited c" "find_cursor dev c = (x, y, c')" "unat y + 3 < 25" "str \<noteq> []"
  shows "cursor_ok (fold (fb_putc dev) str c)"
    "abs_screen (fold (fb_putc dev) str c) = fold scr_putc str \<lparr>cell = cell (abs_screen c), col = 0, row = unat y + 3\<rparr>"
proof -
  obtain ch s where s: "str = ch # s" using assms(4) by (cases str) auto
  have e: "fold (fb_putc dev) str c = fold (fb_putc dev) str (init_cursor dev c)"
    by (simp add: s fb_putc_first)
  note f = first_line [OF assms(1-3)]
  show "cursor_ok (fold (fb_putc dev) str c)"
    "abs_screen (fold (fb_putc dev) str c) = fold scr_putc str \<lparr>cell = cell (abs_screen c), col = 0, row = unat y + 3\<rparr>"
    using putc_string [OF f(1), of dev str] f(2) by (simp_all add: e)
qed

lemma boot_text_nonempty: "boot_text n \<noteq> []"
  by (simp add: boot_text_def Let_def)

section \<open>Ticks before the scheduler\<close>

lemma sint_minus_one: "- 2147483648 < sint (r :: i32) \<Longrightarrow> sint (r - 1) = sint r - 1"
proof -
  assume r: "- 2147483648 < sint r"
  have "sint r < 2147483648" using sint_less [of r] by simp
  then have "signed_take_bit 31 (sint r - 1) = sint r - 1"
    by (intro signed_take_bit_int_eq_self) (use r in simp_all)
  then show "sint (r - 1) = sint r - 1" by (simp add: sint_word_ariths)
qed

text \<open>One tick, with some of the slice left and with none.\<close>

lemma early_tick:
  assumes "isr_table (gates (mach b)) 0x20 = Some systick_intr" "current (krn (mach b)) = i"
    and "- 2147483648 < sint (time_slice_res (tasks (krn (mach b)) i))"
  shows "1 < sint (time_slice_res (tasks (krn (mach b)) i)) \<Longrightarrow>
      \<exists>c. generic_isr img dev env 0x20 0 b = Inr c \<and> current (krn (mach c)) = i \<and>
        time_slice_res (tasks (krn (mach c)) i) = time_slice_res (tasks (krn (mach b)) i) - 1 \<and>
        pages (krn (mach c)) = pages (krn (mach b)) \<and> links (krn (mach c)) = links (krn (mach b)) \<and>
        gates (mach c) = gates (mach b) \<and> channels (mach c) = channels (mach b) \<and>
        blks c = blks b \<and> cr3 c = cr3 b \<and> con c = con b"
    and "sint (time_slice_res (tasks (krn (mach b)) i)) \<le> 1 \<Longrightarrow> lnext (links (krn (mach b))) RUNQ = NullNode \<Longrightarrow>
      generic_isr img dev env 0x20 0 b = Inl Fault"
proof -
  let ?r = "time_slice_res (tasks (krn (mach b)) i)"
  have s: "sint (?r - 1) = sint ?r - 1" by (rule sint_minus_one [OF assms(3)])
  have "run_handler img dev env 0x20 0 systick_intr (entered_isr b) = Inr (systick (entered_isr b))" by simp
  note g = external_interrupt [OF _ _ assms(1) this, simplified]
  define e where "e = krn (mach (entered_isr b))"
  have e: "e = (krn (mach b))\<lparr>in_interrupt_flag := True, sched_on_return := False\<rparr>" by (simp add: e_def entered_isr_def)
  have k: "krn (mach (systick (entered_isr b))) = task_tick e"
    "krn (mach (left_isr 0x20 (systick (entered_isr b)))) = (task_tick e)\<lparr>in_interrupt_flag := False\<rparr>"
    by (simp_all add: systick_def Let_def e_def)
  have f: "pages (task_tick e) = pages (krn (mach b))" "current (task_tick e) = i" "links (task_tick e) = links (krn (mach b))"
    using assms(2) by (simp_all add: task_tick_eq Let_def e)
  have m: "gates (mach (left_isr 0x20 (systick (entered_isr b)))) = gates (mach b)"
    "channels (mach (left_isr 0x20 (systick (entered_isr b)))) = channels (mach b)"
    "blks (left_isr 0x20 (systick (entered_isr b))) = blks b" "cr3 (left_isr 0x20 (systick (entered_isr b))) = cr3 b"
    "con (left_isr 0x20 (systick (entered_isr b))) = con b"
    by (simp_all add: left_isr_def systick_def entered_isr_def upd_krn_def upd_mach_def Let_def)
  {
    assume "1 < sint ?r"
    then have "\<not> sched_on_return (task_tick e)" "time_slice_res (tasks (task_tick e) i) = ?r - 1"
      using s assms(2) by (simp_all add: e task_tick_eq Let_def)
    then show "\<exists>c. generic_isr img dev env 0x20 0 b = Inr c \<and> current (krn (mach c)) = i \<and>
        time_slice_res (tasks (krn (mach c)) i) = ?r - 1 \<and>
        pages (krn (mach c)) = pages (krn (mach b)) \<and> links (krn (mach c)) = links (krn (mach b)) \<and>
        gates (mach c) = gates (mach b) \<and> channels (mach c) = channels (mach b) \<and>
        blks c = blks b \<and> cr3 c = cr3 b \<and> con c = con b"
      using g f m k by (intro exI [of _ "left_isr 0x20 (systick (entered_isr b))"]) simp
  next
    assume "sint ?r \<le> 1" "lnext (links (krn (mach b))) RUNQ = NullNode"
    then have "sched_on_return (task_tick e)" "lnext (links (task_tick e)) RUNQ = NullNode"
      using s f(3) assms(2) by (simp_all add: e task_tick_eq Let_def)
    then show "generic_isr img dev env 0x20 0 b = Inl Fault"
      using g k by (simp add: try_krn_def try_mach_def schedule_def next_task_to_run_def list_entry_def Let_def)
  }
qed

lemma early_ticks_pass:
  assumes "isr_table (gates (mach b)) 0x20 = Some systick_intr" "current (krn (mach b)) = i"
    and "n = 0 \<or> int n < sint (time_slice_res (tasks (krn (mach b)) i))"
  shows "\<exists>c. (\<forall>env. early_ticks img dev env n b = Inr c) \<and> current (krn (mach c)) = i \<and>
    pages (krn (mach c)) = pages (krn (mach b)) \<and> gates (mach c) = gates (mach b) \<and>
    channels (mach c) = channels (mach b) \<and> blks c = blks b \<and> cr3 c = cr3 b \<and> con c = con b"
  using assms
proof (induction n arbitrary: b)
  case (Suc n)
  let ?r = "time_slice_res (tasks (krn (mach b)) i)"
  have r: "int n + 1 < sint ?r" using Suc.prems(3) by auto
  then have lo: "- 2147483648 < sint ?r" "1 < sint ?r" by simp_all
  have "generic_isr img dev env 0x20 0 b = generic_isr img dev Inr 0x20 0 b" for env
    using Suc.prems(1) by (simp add: generic_isr_def Let_def upd_krn_def upd_mach_def)
  then obtain c where c: "\<forall>env. generic_isr img dev env 0x20 0 b = Inr c" "current (krn (mach c)) = i"
    "time_slice_res (tasks (krn (mach c)) i) = ?r - 1" "pages (krn (mach c)) = pages (krn (mach b))"
    "gates (mach c) = gates (mach b)" "channels (mach c) = channels (mach b)" "blks c = blks b" "cr3 c = cr3 b" "con c = con b"
    using early_tick(1) [OF Suc.prems(1,2) lo, of img dev Inr] by auto
  have "isr_table (gates (mach c)) 0x20 = Some systick_intr" using Suc.prems(1) c(5) by simp
  moreover have "n = 0 \<or> int n < sint (time_slice_res (tasks (krn (mach c)) i))"
    using r by (simp add: c(3) sint_minus_one [OF lo(1)])
  ultimately show ?case using Suc.IH [of c] c by auto
qed simp

text \<open>Once the slice is used up, the tick finds the ready list empty of even its own head.\<close>

lemma early_ticks_fault:
  assumes "isr_table (gates (mach b)) 0x20 = Some systick_intr" "current (krn (mach b)) = i"
    and "lnext (links (krn (mach b))) RUNQ = NullNode"
    and "n \<noteq> 0" "- 2147483648 < sint (time_slice_res (tasks (krn (mach b)) i))"
    and "sint (time_slice_res (tasks (krn (mach b)) i)) \<le> int n"
  shows "early_ticks img dev env n b = Inl Fault"
  using assms
proof (induction n arbitrary: b)
  case (Suc n)
  let ?r = "time_slice_res (tasks (krn (mach b)) i)"
  note one = early_tick [OF Suc.prems(1,2,5), of img dev env]
  show ?case
  proof (cases "sint ?r \<le> 1")
    case True
    then show ?thesis using one(2) Suc.prems(3) by simp
  next
    case False
    then obtain c where c: "generic_isr img dev env 0x20 0 b = Inr c" "current (krn (mach c)) = i"
      "time_slice_res (tasks (krn (mach c)) i) = ?r - 1" "links (krn (mach c)) = links (krn (mach b))"
      "gates (mach c) = gates (mach b)"
      using one(1) by auto
    have s: "sint (?r - 1) = sint ?r - 1" by (rule sint_minus_one [OF Suc.prems(5)])
    have "early_ticks img dev env n c = Inl Fault"
      by (rule Suc.IH) (use c s Suc.prems False in auto)
    then show ?thesis by (simp add: c(1))
  qed
qed simp

text \<open>The state before the first early tick, from the state after \<open>bss_init\<close>, the pages and the directory.\<close>

definition brought_up :: "image \<Rightarrow> device \<Rightarrow> nat \<Rightarrow> u32 \<Rightarrow> mm \<Rightarrow> system \<Rightarrow> system" where
  "brought_up img dev n pd q s =
     upd_mach kbd_init (upd_mach (serial_init dev (sema_write img))
       (upd_mach (\<lambda>m. let (g, h) = hw_timer_init (gates m, hist m) in m\<lparr>gates := g, hist := h\<rparr>)
         (upd_mach (\<lambda>m. let (g, h) = init_interrupt (idt_start img) (gates m, hist m) in m\<lparr>gates := g, hist := h\<rparr>)
           (print_from dev n ((set_pages q s)\<lparr>cr3 := pd\<rparr>)))))"

lemma brought_up_simps:
  "krn (mach (brought_up img dev n pd q s)) = (sema_init (sema_write img) 1 ((krn (mach s))\<lparr>pages := q\<rparr>))\<lparr>intr_on := True\<rparr>"
  "gates (mach (brought_up img dev n pd q s)) = booted_gates (idt_start img) (gates (mach s))"
  "cr3 (brought_up img dev n pd q s) = pd"
  "con (brought_up img dev n pd q s) = fold (print_entry dev) (drop n (klog q)) (con s)"
  by (simp_all add: brought_up_def set_pages_def kbd_init_def serial_init_krn case_prod_beta print_from_def
      init_interrupt_def hw_timer_init_def booted_gates_def Let_def) (simp_all add: upd_mach_def upd_krn_def)

lemma brought_up_frames:
  "channels (mach (brought_up img dev n pd q s)) = channels (mach s)" "blks (brought_up img dev n pd q s) = blks s"
  by (simp_all add: brought_up_def upd_mach_def set_pages_def upd_krn_def kbd_init_def serial_init_def serial_enable_intr_def
      set_intr_def serial_init_poll_def serial_set_rate_def sys_out_def sys_in_eq case_prod_beta print_from_def Let_def)

lemma bss_init_frames:
  "channels (mach (bss_init img s)) = clear_adaptor \<circ> channels (mach s)" "blks (bss_init img s) = clear_blocks img (blks s)"
  "current (krn (mach (bss_init img s))) = current (krn (mach s))"
  "tasks (krn (mach (bss_init img s))) = tasks (krn (mach s))"
  "lnext (links (krn (mach (bss_init img s)))) RUNQ = NullNode"
  "con (bss_init img s) = (con s)\<lparr>cx := 0, cy := 0, inited := False\<rparr>"
  by (simp_all add: bss_init_def Let_def upd_krn_def upd_mach_def set_mem_def clear_kernel_def)

lemma main_kernel_steps:
  fixes dev :: device
  assumes "mm_init (pool_buf img) (init_ram_pages img) (pages (krn (mach (bss_init img s)))) = Inr p"
    and "kernel_pg_dir_init (start_text img) (end_text img) (init_ram_pages img) p = Inr (pd, q)"
  defines "b \<equiv> brought_up img dev (length (klog (pages (krn (mach (bss_init img s)))))) pd q (bss_init img s)"
  shows "main_kernel img dev env early s = bindE (early_ticks img dev env early b)
    (\<lambda>c. bindE (try_krn (sched_init (boot_sema img) (idle_addr img)) c)
      (\<lambda>t. if current (krn (mach t)) = current (krn (mach c)) then Inr t else try_mach env t))"
proof -
  have pp: "pages (krn (mach (set_pages p x))) = p" "set_pages q (set_pages p x) = set_pages q x" for x
    by (simp add: set_pages_def) (simp add: set_pages_def upd_krn_def upd_mach_def)
  show ?thesis
    unfolding main_kernel_def Let_def assms(1) bindE_simps pp assms(2) prod.case b_def brought_up_def ..
qed

text \<open>The boot up to the first wait, with all that the properties below need of the state it leaves.\<close>

lemma kernel_pages:
  fixes img :: image and s :: system and dev :: device
  assumes "512 \<le> unat (init_ram_pages img)" "unat (init_ram_pages img) < 262144"
  obtains p pd ts pt q where
    "mm_init (pool_buf img) (init_ram_pages img) (pages (krn (mach (bss_init img s)))) = Inr p"
    "kernel_pg_dir_init (start_text img) (end_text img) (init_ram_pages img) p = Inr (vtop pd, q)"
    "tables (start_text img) (end_text img) pd ((unat (init_ram_pages img) + 1023) div 1024) (unat (init_ram_pages img)) ts pt q"
    "2 \<le> free_pages q" "786688 \<le> pool_base_page q" "klog q = klog p"
proof -
  let ?n = "unat (init_ram_pages img)"
  obtain p where p: "mm_init (pool_buf img) (init_ram_pages img) (pages (krn (mach (bss_init img s)))) = Inr p" "pool_inv p"
    "786688 \<le> pool_base_page p" and free: "(?n + 1023) div 1024 + 3 \<le> free_pages p"
    by (rule boot_pool [OF assms(1,2)])
  have free1: "(?n + 1023) div 1024 + 1 \<le> free_pages p" and le: "?n \<le> 262144" using free assms(2) by linarith+
  obtain pd ts pt q where q: "kernel_pg_dir_init (start_text img) (end_text img) (init_ram_pages img) p = Inr (vtop pd, q)"
    "tables (start_text img) (end_text img) pd ((?n + 1023) div 1024) ?n ts pt q"
    "free_pages p \<le> free_pages q + (?n + 1023) div 1024 + 1" "klog q = klog p"
    by (rule pg_dir_init_tables [OF p(2) le free1])
  have "pool_base_page q = pool_base_page p"
    using pg_dir_init_base [OF q(1)] by (simp add: pool_base_page_def)
  then show ?thesis using that [OF p(1) q(1,2) _ _ q(4)] p(3) q(3) free by linarith
qed

text \<open>The early ticks that leave some of the slice the boot stack happens to hold for its task.\<close>

definition slice_lasts :: "nat \<Rightarrow> system \<Rightarrow> bool" where
  "slice_lasts early s \<longleftrightarrow> early = 0 \<or>
     int early < sint (time_slice_res (tasks (krn (mach s)) (current (krn (mach s)))))"

lemma brought_up_ticking:
  assumes "idt_mapped (idt_start img)"
  shows "isr_table (gates (mach (brought_up img dev n pd q s))) 0x20 = Some systick_intr"
  using booted_gates_good [OF assms, of "0x20"] by (simp add: brought_up_simps good_gate_def installed_def)

lemma brought_up_kernel:
  "current (krn (mach (brought_up img dev n pd q s))) = current (krn (mach s))"
  "tasks (krn (mach (brought_up img dev n pd q s))) = tasks (krn (mach s))"
  "lnext (links (krn (mach (brought_up img dev n pd q s)))) RUNQ = lnext (links (krn (mach s))) RUNQ"
  "pages (krn (mach (brought_up img dev n pd q s))) = q"
  by (simp_all add: brought_up_simps sema_init_def Let_def upd_sema_def upd_links_def list_head_init_def)

lemma kernel_up:
  fixes img :: image and s :: system and dev :: device
  assumes "512 \<le> unat (init_ram_pages img)" "unat (init_ram_pages img) < 262144"
    and "idle_addr img \<noteq> NULL" "idt_mapped (idt_start img)"
    and "i = current (krn (mach s))" "i \<noteq> NULL" "unat i mod 4096 = 0" "unat i div 4096 < 786688"
    and slice: "slice_lasts early s"
  obtains s1 t1 t2 where "\<forall>env. main_kernel img dev env early s = try_mach env s1"
    "sys {boot_sema img} t1 ((\<lambda>_. [])(RUNQ := [t1, t2], WaitHead (boot_sema img) := [i])) [t2, t1, i] (krn (mach s1))"
    "current (krn (mach s1)) = t1" "distinct [t2, t1, i]" "priority (tasks (krn (mach s1)) i) = 31"
    "count (semas (krn (mach s1)) (boot_sema img)) = 0"
    "\<forall>n<256. good_gate (gates (mach s1)) n (installed n)" "idt_table (gates (mach s1)) = idt_start img"
    "channels (mach s1) = clear_adaptor \<circ> channels (mach s)" "blks s1 = clear_blocks img (blks s)"
    "con s1 = fold (fb_putc dev) (boot_text (unat (init_ram_pages img))) ((con s)\<lparr>cx := 0, cy := 0, inited := False\<rparr>)"
    "\<forall>v. walk (sys_mem (mach s1)) (cr3 s1) v =
      (if KERNEL_VADDR_BASE \<le> v \<and> unat (vtop v) < unat (init_ram_pages img) * 4096
       then Some (vtop v, \<not> (start_text img \<le> ROUND_DOWN v PAGE_SIZE \<and> ROUND_DOWN v PAGE_SIZE < end_text img), False)
       else None)"
proof -
  let ?n = "unat (init_ram_pages img)" and ?l = "length (klog (pages (krn (mach (bss_init img s)))))"
  obtain p pd ts pt q where p: "mm_init (pool_buf img) (init_ram_pages img) (pages (krn (mach (bss_init img s)))) = Inr p"
    and q: "kernel_pg_dir_init (start_text img) (end_text img) (init_ram_pages img) p = Inr (vtop pd, q)"
    "tables (start_text img) (end_text img) pd ((?n + 1023) div 1024) ?n ts pt q"
    "2 \<le> free_pages q" "786688 \<le> pool_base_page q" "klog q = klog p"
    by (rule kernel_pages [OF assms(1,2)])
  have le: "?n \<le> 262144" using assms(2) by simp
  define b where "b = brought_up img dev ?l (vtop pd) q (bss_init img s)"
  note B = brought_up_simps [of img dev ?l "vtop pd" q "bss_init img s", folded b_def]
    brought_up_kernel [of img dev ?l "vtop pd" q "bss_init img s", folded b_def]
  note F = brought_up_frames [of img dev ?l "vtop pd" q "bss_init img s", folded b_def]
  have isr: "isr_table (gates (mach b)) 0x20 = Some systick_intr"
    unfolding b_def by (rule brought_up_ticking [OF assms(4)])
  have cur: "current (krn (mach b)) = i" by (simp add: B bss_init_frames assms(5))
  have "early = 0 \<or> int early < sint (time_slice_res (tasks (krn (mach b)) i))"
    using slice assms(5) by (simp add: B bss_init_frames slice_lasts_def)
  from early_ticks_pass [OF isr cur this, of img dev]
  obtain c where c: "\<forall>env. early_ticks img dev env early b = Inr c" "current (krn (mach c)) = i"
    "pages (krn (mach c)) = pages (krn (mach b))" "gates (mach c) = gates (mach b)"
    "channels (mach c) = channels (mach b)" "blks c = blks b" "cr3 c = cr3 b" "con c = con b" by blast
  have pg: "pages (krn (mach c)) = q" by (simp add: c(3) B)
  have ready: "boot_ready (krn (mach c))"
    using tablesD(1) [OF q(2)] assms(6-8) q(3,4) by (simp add: boot_ready_def c(2) pg)
  obtain t1 t2 k where k: "sched_init (boot_sema img) (idle_addr img) (krn (mach c)) = Inr k"
    "kernel_inv (boot_heads (boot_sema img)) ((\<lambda>_. [])(RUNQ := [t1, t2], WaitHead (boot_sema img) := [i])) [t2, t1, i] k"
    "current k = t1" "running k" "distinct [t2, t1, i]" "keeps q (pages k)"
    and wait: "init_task k = i" "status (tasks k i) = TASK_BLOCKED" "sema_free (boot_sema img) k"
      "priority (tasks k i) = 31" "count (semas k (boot_sema img)) = 0"
    using sched_init_spec [OF ready assms(3), of "boot_sema img", unfolded c(2) pg] by metis
  define s1 where "s1 = c\<lparr>mach := (mach c)\<lparr>krn := k\<rparr>\<rparr>"
  have run: "main_kernel img dev env early s = try_mach env s1" for env
    using main_kernel_steps [OF p q(1), of dev env early, folded b_def] k(3,5) c(1)
    by (simp add: try_krn_def try_mach_def k(1) c(2) s1_def)
  have "sys {boot_sema img} t1 ((\<lambda>_. [])(RUNQ := [t1, t2], WaitHead (boot_sema img) := [i])) [t2, t1, i] k"
    using k(2,3,4) wait(1-3) by (simp add: sys_def heads_boot waits_ok_def)
  moreover have "tables (start_text img) (end_text img) pd ((?n + 1023) div 1024) ?n ts pt (pages k)"
    by (rule tables_keeps [OF q(2) k(6) kernel_invD(6) [OF k(2)]])
  note walk_tables [OF this le]
  moreover have "\<forall>n<256. good_gate (gates (mach s1)) n (installed n)"
    using booted_gates_good [OF assms(4)] by (simp add: s1_def c B)
  moreover have "channels (mach s1) = clear_adaptor \<circ> channels (mach s)" "blks s1 = clear_blocks img (blks s)"
    "idt_table (gates (mach s1)) = idt_start img"
    by (simp_all add: s1_def c F B bss_init_frames booted_gates_table)
  moreover have "con s1 = fold (fb_putc dev) (boot_text ?n) ((con s)\<lparr>cx := 0, cy := 0, inited := False\<rparr>)"
    using boot_prints [OF assms(1,2) p] by (simp add: s1_def c B bss_init_frames q(5))
  ultimately show ?thesis
    using k(3,5) wait(4,5) run by (intro that [of s1 t1 t2]) (simp_all add: s1_def c(7) B sys_mem_def)
qed


definition small_image :: image where
  "small_image = \<lparr>start_bss = 0xC0030000, end_bss = 0xC0032000, start_text = 0xC0020000, end_text = 0xC0024000,
     init_ram_pages = 1024, pool_buf = \<lparr>bit_count = 1, bits = (\<lambda>_. 9)\<rparr>, idt_start = 0xC0010000,
     sema_write = 0xC0031000, boot_sema = 4096, idle_addr = 0xC0021000, divide_error_addr = 0xC0022000,
     hda_addr = 0xC0025000, sector_buf = 0xC009EE00,
     disks = \<lparr>disk_addr = (\<lambda>c d. 0xC0031100 + 128 * c + 64 * d), blk_addr = (\<lambda>k. 0xC0031200 + 64 * k), id_buf = 0xC009E800\<rparr>\<rparr>"

text \<open>A boot stack that holds a slice of five ticks, of which three pass.\<close>

definition early_kernel :: kernel where
  "early_kernel = upd_task 0xC009E000 (\<lambda>t. t\<lparr>time_slice_res := 5\<rparr>) start_kernel"

lemma small_image_simps:
  "init_ram_pages small_image = 1024" "idle_addr small_image = 0xC0021000" "idt_start small_image = 0xC0010000"
  "start_text small_image = 0xC0020000" "end_text small_image = 0xC0024000"
  by (simp_all add: small_image_def)

lemma early_image:
  "512 \<le> unat (init_ram_pages small_image)" "unat (init_ram_pages small_image) < 262144"
  "idle_addr small_image \<noteq> NULL" "idt_mapped (idt_start small_image)"
  "0xC009E000 = current (krn (mach (ticking early_kernel)))" "(0xC009E000 :: u32) \<noteq> NULL"
  "unat (0xC009E000 :: u32) mod 4096 = 0" "unat (0xC009E000 :: u32) div 4096 < 786688"
  "slice_lasts 3 (ticking early_kernel)" "\<not> slice_lasts 5 (ticking early_kernel)"
  using sample_idt by (simp_all add: small_image_simps ticking_simps early_kernel_def start_current slice_lasts_def)


text \<open>
  The interrupts are on too early: a timer tick between \<open>serial_init\<close> and \<open>sched_init\<close> that uses up
  the slice the boot stack happens to hold calls \<open>schedule\<close> while the ready lists are still null
  pointers, and the boot ends in a fault.
\<close>

theorem early_tick_faults:
  assumes "512 \<le> unat (init_ram_pages img)" "unat (init_ram_pages img) < 262144"
    and "idt_mapped (idt_start img)" "i = current (krn (mach s))"
    and "\<not> slice_lasts early s" "- 2147483648 < sint (time_slice_res (tasks (krn (mach s)) i))"
  shows "main_kernel img dev env early s = Inl Fault"
proof -
  let ?l = "length (klog (pages (krn (mach (bss_init img s)))))"
  obtain p pd ts pt q where p: "mm_init (pool_buf img) (init_ram_pages img) (pages (krn (mach (bss_init img s)))) = Inr p"
    and q: "kernel_pg_dir_init (start_text img) (end_text img) (init_ram_pages img) p = Inr (vtop pd, q)"
    "tables (start_text img) (end_text img) pd ((unat (init_ram_pages img) + 1023) div 1024) (unat (init_ram_pages img)) ts pt q"
    "2 \<le> free_pages q" "786688 \<le> pool_base_page q" "klog q = klog p"
    by (rule kernel_pages [OF assms(1,2)])
  define b where "b = brought_up img dev ?l (vtop pd) q (bss_init img s)"
  note B = brought_up_kernel [of img dev ?l "vtop pd" q "bss_init img s", folded b_def] bss_init_frames
  have "isr_table (gates (mach b)) 0x20 = Some systick_intr" unfolding b_def by (rule brought_up_ticking [OF assms(3)])
  moreover have "current (krn (mach b)) = i" "lnext (links (krn (mach b))) RUNQ = NullNode"
    "tasks (krn (mach b)) = tasks (krn (mach s))"
    by (simp_all add: B assms(4))
  ultimately have "early_ticks img dev env early b = Inl Fault"
    using assms(4-6) by (intro early_ticks_fault) (auto simp: slice_lasts_def)
  then show ?thesis using main_kernel_steps [OF p q(1), of dev env early, folded b_def] by simp
qed

theorem early_tick_faults_witness:
  "main_kernel small_image (\<lambda>_ _. 0) Inr 5 (ticking early_kernel) = Inl Fault"
  by (rule early_tick_faults [OF early_image(1,2,4,5,10)])
     (simp add: ticking_simps early_kernel_def)

end
