(* ===== verification/Isr_Stubs.thy ===== *)
theory Isr_Stubs
  imports Switch Interrupts
begin

text \<open>
  The entry and exit of interrupts, \<open>kernel/isr-stubs.S\<close> with the \<open>interrupt_stack_frame\<close> of
  \<open>kernel/interrupt.h\<close>, at the level of their instructions: the machine of \<open>Switch\<close> with segment
  registers and flags. What the processor does when it takes an interrupt in kernel mode and
  what \<open>iret\<close> does are its documentation's; \<open>generic_isr\<close> is a parameter here, restricted to
  the calling convention, and the subject of \<open>Machine\<close>.

  The properties: an interrupt is transparent to the interrupted code, and the words it leaves
  on the stack are those the C structure names, except for the fields behind \<open>cs\<close>; the stub of
  the stack fault pushes a word too many.
\<close>

section \<open>Machine\<close>

datatype sreg = CS | DS | ES | FS | GS

record trap_cpu = cpu +
  segs :: "sreg \<Rightarrow> u16"
  eflags :: u32

datatype tinstr =
    PushI u32
  | PushR reg
  | PopR reg
  | PushS sreg
  | PopS sreg
  | MovAx u16
  | MovSeg sreg                \<comment> \<open>mov ax, segment register\<close>
  | CallC u32                  \<comment> \<open>the return address\<close>
  | AddSp u32
  | Iret

definition push16 :: "u16 \<Rightarrow> 'a cpu_scheme \<Rightarrow> 'a cpu_scheme" where
  "push16 w c = (let a = gpr c ESP - 2 in set_reg ESP a (c\<lparr>cmem := store16 a w (cmem c)\<rparr>))"

text \<open>The interrupt flag is bit 9 of the flags; the machine keeps it apart.\<close>

definition flags_word :: "trap_cpu \<Rightarrow> u32" where
  "flags_word c = (if iflag c then set_bit 9 (eflags c) else unset_bit 9 (eflags c))"

definition set_flags :: "u32 \<Rightarrow> trap_cpu \<Rightarrow> trap_cpu" where
  "set_flags w c = c\<lparr>eflags := w, iflag := bit w 9\<rparr>"

text \<open>\<open>iret\<close> without a change of privilege: \<open>eip\<close>, \<open>cs\<close> in the low half of a word, the flags.\<close>

fun texec1 :: "(trap_cpu \<Rightarrow> trap_cpu) \<Rightarrow> tinstr \<Rightarrow> trap_cpu \<Rightarrow> trap_cpu" where
  "texec1 g (PushI v) c = push v c"
| "texec1 g (PushR r) c = push (gpr c r) c"
| "texec1 g (PopR r) c = (let v = top c in set_reg r v (drop_top c))"
| "texec1 g (PushS s) c = push16 (segs c s) c"
| "texec1 g (PopS s) c =
     (let v = load16 (cmem c) (gpr c ESP)
      in (set_reg ESP (gpr c ESP + 2) c)\<lparr>segs := (segs c)(s := v)\<rparr>)"
| "texec1 g (MovAx w) c = set_reg EAX ((gpr c EAX AND 0xffff0000) OR ucast w) c"
| "texec1 g (MovSeg s) c = c\<lparr>segs := (segs c)(s := ucast (gpr c EAX))\<rparr>"
| "texec1 g (CallC ra) c = drop_top (g (push ra c))"
| "texec1 g (AddSp n) c = set_reg ESP (gpr c ESP + n) c"
| "texec1 g Iret c =
     (let s = gpr c ESP
      in set_flags (load32 (cmem c) (s + 8)) (set_reg ESP (s + 12)
           (c\<lparr>eip := load32 (cmem c) s, segs := (segs c)(CS := ucast (load32 (cmem c) (s + 4)))\<rparr>)))"

definition texec :: "(trap_cpu \<Rightarrow> trap_cpu) \<Rightarrow> tinstr list \<Rightarrow> trap_cpu \<Rightarrow> trap_cpu" where
  "texec g = fold (texec1 g)"

lemma texec_simps [simp]:
  "texec g [] c = c" "texec g (i # is) c = texec g is (texec1 g i c)"
  by (simp_all add: texec_def)

lemma texec_append: "texec g (is @ js) c = texec g js (texec g is c)"
  by (simp add: texec_def)

section \<open>The stubs\<close>

abbreviation (input) SEL_KDSEG :: u16 where "SEL_KDSEG \<equiv> 0x10"

definition isr_entry_code :: "u32 \<Rightarrow> tinstr list" where
  "isr_entry_code return_address =
     [PushR EAX, PushR EBX, PushR ECX, PushR EDX, PushR ESI, PushR EDI, PushR EBP,
      PushS DS, PushS ES, PushS FS, PushS GS,
      MovAx SEL_KDSEG, MovSeg DS, MovSeg ES, MovSeg FS, MovSeg GS,
      PushR ESP, CallC return_address, AddSp 4]"

definition isr_exit_code :: "tinstr list" where
  "isr_exit_code =
     [PopS GS, PopS FS, PopS ES, PopS DS,
      PopR EBP, PopR EDI, PopR ESI, PopR EDX, PopR ECX, PopR EBX, PopR EAX,
      AddSp 8, Iret]"

text \<open>The macros, and the table: which vectors it gives the stub without a pushed zero.\<close>

definition NO_ERROR_CODE_ENTRY :: "u32 \<Rightarrow> tinstr list" where
  "NO_ERROR_CODE_ENTRY vec_no = [PushI 0, PushI vec_no]"

definition ERROR_CODE_ENTRY :: "u32 \<Rightarrow> tinstr list" where
  "ERROR_CODE_ENTRY vec_no = [PushI vec_no]"

definition isr_stub :: "u32 \<Rightarrow> tinstr list" where
  "isr_stub vec = (if vec \<in> {0x08, 0x0a, 0x0b, 0x0d, 0x0e, 0x11} then ERROR_CODE_ENTRY vec else NO_ERROR_CODE_ENTRY vec)"

text \<open>
  The processor takes an interrupt or exception in kernel mode: flags, \<open>cs\<close> (as a word whose
  upper half is not specified) and \<open>eip\<close> go to the stack, then an error code for the exceptions that have
  one; an interrupt gate turns interrupts off, a trap gate (\<open>main\<close> installs one for vector
  \<open>0x0e\<close>) leaves them as they are.
\<close>

definition has_error_code :: "u32 \<Rightarrow> bool" where
  "has_error_code vec \<longleftrightarrow> vec \<in> {8, 10, 11, 12, 13, 14, 17}"

definition trap_entry :: "bool \<Rightarrow> u16 \<Rightarrow> u32 \<Rightarrow> u32 \<Rightarrow> trap_cpu \<Rightarrow> trap_cpu" where
  "trap_entry trap_gate hi err vec c =
     (let c1 = push (eip c) (push (push_bit 16 (ucast hi) OR ucast (segs c CS)) (push (flags_word c) c));
          c2 = (if has_error_code vec then push err c1 else c1)
      in c2\<lparr>iflag := (trap_gate \<and> iflag c), segs := (segs c)(CS := SEL_KCSEG)\<rparr>)"

text \<open>What happens from the interrupt to the return from it, and the state \<open>generic_isr\<close> is called in.\<close>

definition interrupted :: "bool \<Rightarrow> (trap_cpu \<Rightarrow> trap_cpu) \<Rightarrow> u32 \<Rightarrow> u16 \<Rightarrow> u32 \<Rightarrow> u32 \<Rightarrow> trap_cpu \<Rightarrow> trap_cpu" where
  "interrupted tg g ra hi err vec c =
     texec g (isr_stub vec @ isr_entry_code ra @ isr_exit_code) (trap_entry tg hi err vec c)"

definition isr_call :: "bool \<Rightarrow> u32 \<Rightarrow> u16 \<Rightarrow> u32 \<Rightarrow> u32 \<Rightarrow> trap_cpu \<Rightarrow> trap_cpu" where
  "isr_call tg ra hi err vec c =
     push ra (texec id (isr_stub vec @ take 17 (isr_entry_code ra)) (trap_entry tg hi err vec c))"

text \<open>
  The calling convention for \<open>generic_isr\<close>, which leaves the frame it is given as it is: on
  return the stack pointer and the 56 bytes behind the argument are those of the call.
\<close>

definition keeps_frame :: "(trap_cpu \<Rightarrow> trap_cpu) \<Rightarrow> bool" where
  "keeps_frame g \<longleftrightarrow> (\<forall>c. gpr (g c) ESP = gpr c ESP \<and>
     (\<forall>k<56. cmem (g c) (gpr c ESP + 8 + of_nat k) = cmem c (gpr c ESP + 8 + of_nat k)))"

section \<open>The frame\<close>

lemma keeps_frame_esp: "keeps_frame g \<Longrightarrow> gpr (g c) ESP = gpr c ESP"
  by (simp add: keeps_frame_def)

lemma keeps_frame_loads:
  assumes "keeps_frame g"
  shows "k + 4 \<le> 56 \<Longrightarrow> load32 (cmem (g c)) (gpr c ESP + 8 + of_nat k) = load32 (cmem c) (gpr c ESP + 8 + of_nat k)"
    "k + 2 \<le> 56 \<Longrightarrow> load16 (cmem (g c)) (gpr c ESP + 8 + of_nat k) = load16 (cmem c) (gpr c ESP + 8 + of_nat k)"
proof -
  have b: "cmem (g c) (gpr c ESP + 8 + of_nat k + of_nat j) = cmem c (gpr c ESP + 8 + of_nat k + of_nat j)" if "k + j < 56" for j
  proof -
    have "cmem (g c) (gpr c ESP + 8 + of_nat (k + j)) = cmem c (gpr c ESP + 8 + of_nat (k + j))"
      using assms that unfolding keeps_frame_def by blast
    then show ?thesis by (simp add: add.assoc)
  qed
  show "load32 (cmem (g c)) (gpr c ESP + 8 + of_nat k) = load32 (cmem c) (gpr c ESP + 8 + of_nat k)" if "k + 4 \<le> 56"
    using b [of 0] b [of 1] b [of 2] b [of 3] that by (simp add: load32_def)
  show "load16 (cmem (g c)) (gpr c ESP + 8 + of_nat k) = load16 (cmem c) (gpr c ESP + 8 + of_nat k)" if "k + 2 \<le> 56"
    using b [of 0] b [of 1] that by (simp add: load16_def)
qed

text \<open>The state of a stub that has pushed its vector, run up to the call of \<open>generic_isr\<close>.\<close>

definition isr_frame_mem :: "trap_cpu \<Rightarrow> memory" where
  "isr_frame_mem d =
     (let e = gpr d ESP
      in store16 (e - 36) (segs d GS) (store16 (e - 34) (segs d FS) (store16 (e - 32) (segs d ES) (store16 (e - 30) (segs d DS)
        (store32 (e - 28) (gpr d EBP) (store32 (e - 24) (gpr d EDI) (store32 (e - 20) (gpr d ESI) (store32 (e - 16) (gpr d EDX)
          (store32 (e - 12) (gpr d ECX) (store32 (e - 8) (gpr d EBX) (store32 (e - 4) (gpr d EAX) (cmem d))))))))))))"

definition isr_call_state :: "u32 \<Rightarrow> trap_cpu \<Rightarrow> trap_cpu" where
  "isr_call_state ra d = push ra (texec id (take 17 (isr_entry_code ra)) d)"

lemma isr_call_state_simps:
  "gpr (isr_call_state ra d) ESP = gpr d ESP - 44"
  "cmem (isr_call_state ra d) = store32 (gpr d ESP - 44) ra (store32 (gpr d ESP - 40) (gpr d ESP - 36) (isr_frame_mem d))"
  "iflag (isr_call_state ra d) = iflag d"
  by (simp_all add: isr_call_state_def isr_entry_code_def push_def push16_def set_reg_def Let_def isr_frame_mem_def)

lemma isr_call_words:
  fixes d :: trap_cpu and ra :: u32
  defines "m \<equiv> cmem (isr_call_state ra d)" and "e \<equiv> gpr d ESP"
  shows "load16 m (e - 36) = segs d GS" "load16 m (e - 34) = segs d FS" "load16 m (e - 32) = segs d ES"
    "load16 m (e - 30) = segs d DS" "load32 m (e - 28) = gpr d EBP" "load32 m (e - 24) = gpr d EDI"
    "load32 m (e - 20) = gpr d ESI" "load32 m (e - 16) = gpr d EDX" "load32 m (e - 12) = gpr d ECX"
    "load32 m (e - 8) = gpr d EBX" "load32 m (e - 4) = gpr d EAX" "load32 m (e - 40) = e - 36"
    "k \<in> {0, 4, 8, 12, 14, 16} \<Longrightarrow> load32 m (e + k) = load32 (cmem d) (e + k)"
    "load16 m (e + 12) = load16 (cmem d) (e + 12)"
  unfolding m_def e_def isr_call_state_simps isr_frame_mem_def Let_def by (auto simp: load_sep)

text \<open>
  From the stub to \<open>iret\<close>: registers and segments are those of before, and the words above the
  vector are taken as \<open>iret\<close> takes them.
\<close>

definition isr_returned :: "trap_cpu \<Rightarrow> memory \<Rightarrow> trap_cpu \<Rightarrow> bool" where
  "isr_returned d m c \<longleftrightarrow>
     (\<forall>r. gpr c r = (if r = ESP then gpr d ESP + 20 else gpr d r)) \<and>
     (\<forall>s. segs c s = (if s = CS then ucast (load32 (cmem d) (gpr d ESP + 12)) else segs d s)) \<and>
     eip c = load32 (cmem d) (gpr d ESP + 8) \<and> eflags c = load32 (cmem d) (gpr d ESP + 16) \<and>
     iflag c = bit (load32 (cmem d) (gpr d ESP + 16)) 9 \<and> cmem c = m"

lemma no_other:
  "r \<noteq> EBP \<Longrightarrow> r \<noteq> EDI \<Longrightarrow> r \<noteq> ESI \<Longrightarrow> r \<noteq> EDX \<Longrightarrow> r \<noteq> ECX \<Longrightarrow> r \<noteq> EBX \<Longrightarrow> r \<noteq> EAX \<Longrightarrow> r = ESP"
  "s \<noteq> GS \<Longrightarrow> s \<noteq> FS \<Longrightarrow> s \<noteq> ES \<Longrightarrow> s \<noteq> DS \<Longrightarrow> s = CS"
  by (cases r; simp) (cases s; simp)

lemma isr_body:
  assumes "keeps_frame g"
  shows "isr_returned d (cmem (g (isr_call_state ra d))) (texec g (isr_entry_code ra @ isr_exit_code) d)"
proof -
  define K where "K = isr_call_state ra d"
  define e where "e = gpr d ESP"
  have esp: "gpr K ESP = e - 44" "gpr (g K) ESP = e - 44"
    using keeps_frame_esp [OF assms] by (simp_all add: K_def e_def isr_call_state_simps)
  note k32 = keeps_frame_loads(1) [OF assms, of _ K, unfolded esp]
  note k16 = keeps_frame_loads(2) [OF assms, of _ K, unfolded esp]
  note w = isr_call_words [where ra = ra and d = d, folded K_def e_def]
  let ?m = "cmem (g K)"
  have l: "load16 ?m (e - 36) = segs d GS" "load16 ?m (e - 34) = segs d FS" "load16 ?m (e - 32) = segs d ES"
    "load16 ?m (e - 30) = segs d DS" "load32 ?m (e - 28) = gpr d EBP" "load32 ?m (e - 24) = gpr d EDI"
    "load32 ?m (e - 20) = gpr d ESI" "load32 ?m (e - 16) = gpr d EDX" "load32 ?m (e - 12) = gpr d ECX"
    "load32 ?m (e - 8) = gpr d EBX" "load32 ?m (e - 4) = gpr d EAX"
    "load32 ?m (e + 8) = load32 (cmem d) (e + 8)" "load32 ?m (e + 12) = load32 (cmem d) (e + 12)"
    "load32 ?m (e + 16) = load32 (cmem d) (e + 16)"
    using k16 [of 0] k16 [of 2] k16 [of 4] k16 [of 6] k32 [of 8] k32 [of 12] k32 [of 16] k32 [of 20] k32 [of 24]
      k32 [of 28] k32 [of 32] k32 [of 44] k32 [of 48] k32 [of 52] w
    by (simp_all add: add.commute)
  have "texec g (isr_entry_code ra @ isr_exit_code) d = texec g (AddSp 4 # isr_exit_code) (drop_top (g K))"
    by (simp add: K_def isr_call_state_def isr_entry_code_def)
  then have c: "texec g (isr_entry_code ra @ isr_exit_code) d = texec g (AddSp 4 # isr_exit_code) (drop_top (g K))" .
  show ?thesis
    unfolding isr_returned_def K_def [symmetric] e_def [symmetric] c
    using esp(2) l
    by (simp add: isr_exit_code_def drop_top_def set_reg_def top_def Let_def set_flags_def add.commute)
      (intro conjI allI impI; insert no_other; blast)
qed

text \<open>The state in which the common entry is reached: the words of the processor, and the stub's.\<close>

lemma stub_state:
  fixes c :: trap_cpu and g :: "trap_cpu \<Rightarrow> trap_cpu" and vec err :: u32 and hi :: u16 and tg :: bool
  defines "d \<equiv> texec g (isr_stub vec) (trap_entry tg hi err vec c)" and "s \<equiv> gpr c ESP"
  assumes "vec \<noteq> 12"
  shows "gpr d = (gpr c)(ESP := s - 20)" "segs d = (segs c)(CS := SEL_KCSEG)" "iflag d \<longleftrightarrow> tg \<and> iflag c"
    "load32 (cmem d) (s - 20) = vec" "load32 (cmem d) (s - 16) = (if has_error_code vec then err else 0)"
    "load32 (cmem d) (s - 12) = eip c" "load32 (cmem d) (s - 8) = push_bit 16 (ucast hi) OR ucast (segs c CS)"
    "load32 (cmem d) (s - 4) = flags_word c"
  using assms unfolding d_def s_def
  by (auto simp: trap_entry_def isr_stub_def ERROR_CODE_ENTRY_def NO_ERROR_CODE_ENTRY_def has_error_code_def push_def
      set_reg_def Let_def load_sep)

lemma low_half_of_pair [simp]: "(ucast (push_bit 16 (ucast (hi :: u16)) OR ucast (w :: u16) :: u32) :: u16) = w"
  by (rule bit_word_eqI) (auto simp: bit_simps)

lemma bit_flags_word [simp]: "bit (flags_word c) 9 = iflag c"
  by (simp add: flags_word_def bit_simps)

lemma flags_word_again: "eflags c' = flags_word c \<Longrightarrow> iflag c' = iflag c \<Longrightarrow> flags_word c' = flags_word c"
  by (rule bit_word_eqI) (auto simp: flags_word_def bit_simps)

text \<open>Nothing is written outside the 64 bytes below the stack pointer.\<close>

lemma wraps_below:
  fixes y n k :: u32
  assumes "64 \<le> y" "1 \<le> n" "n \<le> k" "k \<le> 64"
  shows "n \<le> k - 1 - y"
proof -
  have u: "unat n \<le> unat k" "64 \<le> unat y" "unat k \<le> 64" "1 \<le> unat n" using assms by (simp_all add: word_le_nat_alt)
  have k: "unat (k - 1) = unat k - 1" using assms by (intro unat_minus_one) auto
  then have "\<not> unat y \<le> unat (k - 1)" using u by linarith
  then have "unat (k - 1 - y) = unat (k - 1) + 4294967296 - unat y" by (subst unat_sub_if') simp
  then have "unat n \<le> unat (k - 1 - y)" using k u u32_lt [of y] by linarith
  then show ?thesis by (simp add: word_le_nat_alt)
qed

lemma outside_stack:
  fixes s x n k :: u32
  assumes "64 \<le> s - 1 - x" "1 \<le> n" "n \<le> k" "k \<le> 64"
  shows "n \<le> x - (s - k)"
  using wraps_below [OF assms] by (simp add: algebra_simps)

lemma store_outside:
  "4 \<le> x - a \<Longrightarrow> store32 a v m x = m x" "2 \<le> x - a \<Longrightarrow> store16 a w m x = m x"
  by (auto simp: store32_def store16_def word_le_nat_alt)

lemma isr_call_state_outside:
  assumes "gpr d ESP = s - 20" "64 \<le> s - 1 - x"
  shows "cmem (isr_call_state ra d) x = cmem d x"
proof -
  note o = store_outside outside_stack [OF assms(2)]
  show ?thesis unfolding isr_call_state_simps isr_frame_mem_def Let_def assms(1) by (simp add: o)
qed

lemma stub_outside:
  assumes "64 \<le> gpr c ESP - 1 - x" "vec \<noteq> 12"
  shows "cmem (texec g (isr_stub vec) (trap_entry tg hi err vec c)) x = cmem c x"
proof -
  note o = store_outside outside_stack [OF assms(1)]
  note defs = trap_entry_def isr_stub_def ERROR_CODE_ENTRY_def NO_ERROR_CODE_ENTRY_def has_error_code_def push_def set_reg_def Let_def
  show ?thesis using assms(2) by (cases "has_error_code vec") (auto simp: defs o)
qed

section \<open>The structure of C\<close>

text \<open>The fields of \<open>interrupt_stack_frame\<close>, which is packed, at their offsets.\<close>

record interrupt_stack_frame =
  f_gs :: u16
  f_fs :: u16
  f_es :: u16
  f_ds :: u16
  f_ebp :: u32
  f_edi :: u32
  f_esi :: u32
  f_edx :: u32
  f_ecx :: u32
  f_ebx :: u32
  f_eax :: u32
  f_vec_no :: u32
  f_error_code :: u32
  f_eip :: u32
  f_cs :: u16
  f_eflag :: u32
  f_esp :: u32
  f_ss :: u16

definition read_frame :: "memory \<Rightarrow> u32 \<Rightarrow> interrupt_stack_frame" where
  "read_frame m a =
     \<lparr>f_gs = load16 m a, f_fs = load16 m (a + 2), f_es = load16 m (a + 4), f_ds = load16 m (a + 6),
      f_ebp = load32 m (a + 8), f_edi = load32 m (a + 12), f_esi = load32 m (a + 16), f_edx = load32 m (a + 20),
      f_ecx = load32 m (a + 24), f_ebx = load32 m (a + 28), f_eax = load32 m (a + 32),
      f_vec_no = load32 m (a + 36), f_error_code = load32 m (a + 40), f_eip = load32 m (a + 44),
      f_cs = load16 m (a + 48), f_eflag = load32 m (a + 50), f_esp = load32 m (a + 54), f_ss = load16 m (a + 58)\<rparr>"

lemma straddle_bytes:
  fixes p q r s t u v w :: u8
  shows "(ucast r OR push_bit 8 (ucast s) OR push_bit 16 (ucast t) OR push_bit 24 (ucast u) :: u32) =
    drop_bit 16 (ucast p OR push_bit 8 (ucast q) OR push_bit 16 (ucast r) OR push_bit 24 (ucast s)) OR
    push_bit 16 (ucast t OR push_bit 8 (ucast u) OR push_bit 16 (ucast v) OR push_bit 24 (ucast w))"
    (is "?l = ?r")
proof (rule bit_word_eqI)
  fix n assume "n < LENGTH(32)"
  then consider "n < 8" | "8 \<le> n" "n < 16" | "16 \<le> n" "n < 24" | "24 \<le> n" "n < 32"
    by fastforce
  then show "bit ?l n = bit ?r n"
    by cases (auto simp: bit_simps dest: bit_imp_le_length)
qed

lemma load32_straddle: "load32 m (b + 2) = drop_bit 16 (load32 m b) OR push_bit 16 (load32 m (b + 4))"
proof -
  have "b + 2 + 1 = b + 3" "b + 2 + 2 = b + 4" "b + 2 + 3 = b + 4 + 1" by simp_all
  then show ?thesis
    unfolding load32_def
    by (simp only: straddle_bytes [where p = "m b" and q = "m (b + 1)" and r = "m (b + 2)" and s = "m (b + 3)" and
      t = "m (b + 4)" and u = "m (b + 4 + 1)" and v = "m (b + 4 + 2)" and w = "m (b + 4 + 3)"])
qed

lemma load16_of_load32: "load16 m b = ucast (load32 m b)"
  unfolding load32_def load16_def by (rule bit_word_eqI) (auto simp: bit_simps)

lemma high_half_of_pair [simp]:
  "drop_bit 16 (push_bit 16 (ucast (hi :: u16)) :: u32) = ucast hi" "drop_bit 16 (ucast (w :: u16) :: u32) = 0"
  by (rule bit_word_eqI; auto simp: bit_simps dest: bit_imp_le_length)+

lemma isr_call_is_state: "isr_call tg ra hi err vec c = isr_call_state ra (texec g (isr_stub vec) (trap_entry tg hi err vec c))"
  by (simp add: isr_call_def isr_call_state_def texec_append isr_stub_def ERROR_CODE_ENTRY_def NO_ERROR_CODE_ENTRY_def)

section \<open>Properties\<close>

text \<open>
  C15: An interrupt or exception other than the stack fault is transparent to the kernel code it
  interrupts: when \<open>generic_isr\<close> keeps to the calling convention and leaves the frame alone,
  every register, segment register and flag, the stack pointer and the place of execution are
  those of before, and the only changes of memory are the handler's and the stack words below
  the stack pointer.
\<close>

theorem isr_transparent:
  fixes c :: trap_cpu and g :: "trap_cpu \<Rightarrow> trap_cpu" and vec err ra :: u32 and hi :: u16 and tg :: bool
  assumes "keeps_frame g" "vec \<noteq> 0x0c"
  defines "c' \<equiv> interrupted tg g ra hi err vec c"
  shows "gpr c' = gpr c \<and> segs c' = segs c \<and> eip c' = eip c \<and> iflag c' = iflag c \<and> flags_word c' = flags_word c \<and>
    cmem c' = cmem (g (isr_call tg ra hi err vec c)) \<and>
    (\<forall>x. 64 \<le> gpr c ESP - 1 - x \<longrightarrow> cmem (isr_call tg ra hi err vec c) x = cmem c x)"
proof -
  let ?d = "texec g (isr_stub vec) (trap_entry tg hi err vec c)"
  have "isr_returned ?d (cmem (g (isr_call_state ra ?d))) c'"
    using isr_body [OF assms(1), of ?d ra] by (simp add: c'_def interrupted_def texec_append)
  moreover note ic = isr_call_is_state [of tg ra hi err vec c g, symmetric]
  moreover note st = stub_state [OF assms(2), of g tg hi err c]
  moreover have "cmem (isr_call tg ra hi err vec c) x = cmem c x" if "64 \<le> gpr c ESP - 1 - x" for x
    using isr_call_state_outside [of ?d "gpr c ESP" x ra] stub_outside [OF that assms(2)] st(1) that ic by simp
  ultimately show ?thesis
    using flags_word_again [of c' c] by (auto simp: isr_returned_def fun_eq_iff)
qed

text \<open>
  C21: What \<open>generic_isr\<close> reads through its argument is what the processor and the stub pushed:
  the saved registers and segments, the vector, the error code (zero for vectors without one),
  the interrupted place; but the field \<open>eflag\<close>, which the packed structure puts right behind a
  two-byte \<open>cs\<close>, is the unspecified upper half of the pushed \<open>cs\<close> with the lower half of the flags
  above it.
\<close>

theorem isr_frame:
  fixes c :: trap_cpu and vec err ra :: u32 and hi :: u16 and tg :: bool
  assumes "vec \<noteq> 0x0c"
  defines "k \<equiv> isr_call tg ra hi err vec c"
  defines "f \<equiv> read_frame (cmem k) (load32 (cmem k) (gpr k ESP + 4))"
  shows "(f_gs f = segs c GS \<and> f_fs f = segs c FS \<and> f_es f = segs c ES \<and> f_ds f = segs c DS) \<and>
    (f_ebp f = gpr c EBP \<and> f_edi f = gpr c EDI \<and> f_esi f = gpr c ESI \<and> f_edx f = gpr c EDX \<and>
     f_ecx f = gpr c ECX \<and> f_ebx f = gpr c EBX \<and> f_eax f = gpr c EAX) \<and>
    f_vec_no f = vec \<and> f_error_code f = (if has_error_code vec then err else 0) \<and>
    f_eip f = eip c \<and> f_cs f = segs c CS \<and> f_eflag f = ucast hi OR push_bit 16 (flags_word c)"
proof -
  let ?d = "texec id (isr_stub vec) (trap_entry tg hi err vec c)"
  have k: "k = isr_call_state ra ?d" unfolding k_def by (rule isr_call_is_state)
  note st = stub_state [OF assms(1), of id tg hi err c]
  note w = isr_call_words [where ra = ra and d = ?d, folded k]
  have "load32 (cmem k) (gpr k ESP + 4) = gpr c ESP - 56"
    using w(12) st(1) by (simp add: k isr_call_state_simps)
  moreover have "load32 (cmem k) (gpr c ESP - 6) = ucast hi OR push_bit 16 (flags_word c)"
    using load32_straddle [of "cmem k" "gpr c ESP - 8"] w(13) [of 12] w(13) [of 16] st by simp
  moreover have "load16 (cmem k) (gpr c ESP - 8) = segs c CS"
    using load16_of_load32 [of "cmem k" "gpr c ESP - 8"] w(13) [of 12] st by simp
  ultimately show ?thesis
    using w st w(13) [of 0] w(13) [of 4] w(13) [of 8] unfolding f_def read_frame_def by simp
qed

text \<open>
  The stack fault returns to its error code: the processor pushes an error code for vector
  \<open>0x0c\<close> and the stub pushes a zero as if it did not, so that the handler sees the error code as the
  interrupted place, and the return goes to the address the error code is, with the stack
  pointer a word too low.
\<close>

theorem stack_fault_returns_wrong:
  fixes c :: trap_cpu and g :: "trap_cpu \<Rightarrow> trap_cpu" and err ra :: u32 and hi :: u16 and tg :: bool
  assumes "keeps_frame g"
  defines "k \<equiv> isr_call tg ra hi err 0x0c c" and "c' \<equiv> interrupted tg g ra hi err 0x0c c"
  defines "f \<equiv> read_frame (cmem k) (load32 (cmem k) (gpr k ESP + 4))"
  shows "f_error_code f = 0 \<and> f_eip f = err \<and> eip c' = err \<and> gpr c' ESP = gpr c ESP - 4"
proof -
  let ?d = "texec g (isr_stub 0x0c) (trap_entry tg hi err 0x0c c)"
  have d: "gpr ?d ESP = gpr c ESP - 24" "load32 (cmem ?d) (gpr c ESP - 20) = 0" "load32 (cmem ?d) (gpr c ESP - 16) = err"
    by (auto simp: trap_entry_def isr_stub_def NO_ERROR_CODE_ENTRY_def has_error_code_def push_def
      set_reg_def Let_def load_sep)
  have k: "k = isr_call_state ra ?d" unfolding k_def by (rule isr_call_is_state)
  note w = isr_call_words [where ra = ra and d = ?d, folded k]
  have "load32 (cmem k) (gpr k ESP + 4) = gpr c ESP - 60"
    using w(12) d(1) by (simp add: k isr_call_state_simps)
  then have "f_error_code f = 0 \<and> f_eip f = err"
    using w(13) [of 4] w(13) [of 8] d unfolding f_def read_frame_def by simp
  moreover have "isr_returned ?d (cmem (g (isr_call_state ra ?d))) c'"
    using isr_body [OF assms(1), of ?d ra] by (simp add: c'_def interrupted_def texec_append)
  ultimately show ?thesis using d by (simp add: isr_returned_def)
qed

section \<open>A concrete interrupt\<close>

text \<open>Kernel code is interrupted by the timer, whose handler changes a register and some memory.\<close>

definition running_cpu :: trap_cpu where
  "running_cpu = \<lparr>gpr = (\<lambda>r. case r of EAX \<Rightarrow> 1 | EBX \<Rightarrow> 2 | ESP \<Rightarrow> 0xC0101F00 | _ \<Rightarrow> 7), eip = 0xC0020300, iflag = True,
     cmem = (\<lambda>_. 0), segs = (\<lambda>s. if s = CS then 8 else 16), eflags = 0x202\<rparr>"

definition counting_isr :: "trap_cpu \<Rightarrow> trap_cpu" where
  "counting_isr c = c\<lparr>gpr := (gpr c)(EAX := 99), segs := (\<lambda>_. 0)\<rparr>"

lemma counting_isr_keeps: "keeps_frame counting_isr"
  by (simp add: keeps_frame_def counting_isr_def)

theorem isr_transparent_witness:
  "eip (interrupted False counting_isr 0xC0020900 0 0 0x20 running_cpu) = 0xC0020300 \<and>
   gpr (interrupted False counting_isr 0xC0020900 0 0 0x20 running_cpu) EAX = 1"
  using isr_transparent [OF counting_isr_keeps, of "0x20" False "0xC0020900" 0 0 running_cpu]
  by (simp add: running_cpu_def)

theorem isr_frame_witness:
  "f_error_code (read_frame (cmem (isr_call False 0xC0020900 0 5 14 running_cpu)) 0xC0101EC8) = 5"
proof -
  have "isr_call False 0xC0020900 0 5 14 running_cpu = isr_call_state 0xC0020900 (texec id (isr_stub 14) (trap_entry False 0 5 14 running_cpu))"
    by (rule isr_call_is_state)
  then have "gpr (isr_call False 0xC0020900 0 5 14 running_cpu) ESP = 0xC0101EC0"
    "load32 (cmem (isr_call False 0xC0020900 0 5 14 running_cpu)) 0xC0101EC4 = 0xC0101EC8"
    using isr_call_words(12) [of "0xC0020900" "texec id (isr_stub 14) (trap_entry False 0 5 14 running_cpu)"]
      stub_state(1) [of 14 id False 0 5 running_cpu]
    by (simp_all add: isr_call_state_simps running_cpu_def)
  then show ?thesis
    using isr_frame [of 14 False "0xC0020900" 0 5 running_cpu] by (simp add: has_error_code_def)
qed

theorem stack_fault_returns_wrong_witness:
  "eip (interrupted False counting_isr 0xC0020900 0 0x18 0x0c running_cpu) = 0x18"
  using stack_fault_returns_wrong [OF counting_isr_keeps, of False "0xC0020900" 0 "0x18" running_cpu] by simp

end
