(* ===== verification/Loader.thy ===== *)
theory Loader
  imports Port_IO
begin

text \<open>
  The boot loader, \<open>boot/loader.S\<close>, as the functions its labels delimit, over its registers and
  physical memory: the scan of the partition tables of the disks for a bootable kernel
  partition, the load of at most 512 kB of it to \<open>0x20000\<close>, and the jump to the entry point.

  The disk services of the BIOS are a parameter: \<open>disk d l\<close> is the sector \<open>l\<close> of drive \<open>d\<close>, or
  \<open>None\<close> where the extended read sets the carry flag. What is printed and sent to the serial port
  is kept as text, and the answers of the serial service are a field of the state. Two labels
  are in it as well, since the loader writes over its own code there: \<open>start\<close>, which becomes the
  target of the last jump, and the \<open>int $0x14\<close> of \<open>putc\<close>. Where the assembler puts them in the
  sector at \<open>0x7c00\<close> is free. The stack below \<open>0xf000\<close> and the memory of the BIOS are not modelled, and
  for a partition of no sectors, where \<open>loop\<close> makes 65536 turns and the sectors overwrite the
  loader itself, the functions go on as if its code were intact.
\<close>

section \<open>State and services\<close>

type_synonym disk = "u8 \<Rightarrow> u32 \<Rightarrow> u8 list option"

record loader =
  screen :: "u8 list"
  sent :: "u8 list"
  phys :: memory
  line_ok :: "nat \<Rightarrow> bool"
  start_off :: "9 word"
  int14_off :: "9 word"

definition start_at :: "loader \<Rightarrow> u32" where
  "start_at s = 0x7c00 + ucast (start_off s)"

definition int14_at :: "loader \<Rightarrow> u32" where
  "int14_at s = 0x7c00 + ucast (int14_off s)"

text \<open>
  One character to the display and to the serial port, as long as the instruction is still
  \<open>int $0x14\<close> (\<open>cd 14\<close>): the first transmission that fails turns it into two \<open>nop\<close>.
\<close>

definition put_char :: "u8 \<Rightarrow> loader \<Rightarrow> loader" where
  "put_char al s =
     (let s = s\<lparr>screen := screen s @ [al]\<rparr>
      in if load16 (phys s) (int14_at s) = 0x14cd
         then let ok = line_ok s (length (sent s)); s = s\<lparr>sent := sent s @ [al]\<rparr>
              in if ok then s else s\<lparr>phys := store16 (int14_at s) 0x9090 (phys s)\<rparr>
         else s)"

definition putc :: "u8 \<Rightarrow> loader \<Rightarrow> loader" where
  "putc al s = (let s = put_char al s in if al = 0x0d then put_char 0x0a s else s)"

definition puts :: "string \<Rightarrow> loader \<Rightarrow> loader" where
  "puts str s = fold (\<lambda>c. putc (of_char c)) str s"

text \<open>The bytes go to \<open>es:0\<close>.\<close>

definition put_sector :: "u16 \<Rightarrow> u8 list \<Rightarrow> memory \<Rightarrow> memory" where
  "put_sector es bs m =
     (\<lambda>x. let k = x - push_bit 4 (ucast es) in if k < of_nat (length bs) then bs ! unat k else m x)"

definition read_sector :: "disk \<Rightarrow> u8 \<Rightarrow> u32 \<Rightarrow> u16 \<Rightarrow> loader \<Rightarrow> loader option" where
  "read_sector disk dl ebx es s = map_option (\<lambda>bs. s\<lparr>phys := put_sector es bs (phys s)\<rparr>) (disk dl ebx)"

section \<open>The scan\<close>

text \<open>The partition table is in the buffer at \<open>0x2000:0\<close>, its entries from offset 446.\<close>

definition buf :: "u16 \<Rightarrow> u32" where
  "buf off = 0x20000 + ucast off"

function check_partition :: "u16 \<Rightarrow> u8 \<Rightarrow> loader \<Rightarrow> u16 option \<times> loader" where
  "check_partition si al s =
     (let s = putc al s
      in if phys s (buf (si + 4)) = 0x20 \<and> phys s (buf si) = 0x80 then (Some si, s)
         else if al + 1 \<le> 0x34 then check_partition (si + 16) (al + 1) s
         else (None, s))"
  by pat_completeness auto

termination
proof (relation "measure (\<lambda>(si, al, s). if al = 255 then 54 else 53 - unat al)", simp)
  fix si :: u16 and al :: u8 and s t :: loader
  assume a: "al + 1 \<le> 0x34"
  show "((si + 16, al + 1, t), si, al, s) \<in> measure (\<lambda>(si, al, s). if al = 255 then 54 else 53 - unat al)"
  proof (cases "al = 255")
    case False
    then have "unat al \<noteq> 255" by (simp add: word_unat_eq_iff)
    then have u: "unat (al + 1) = unat al + 1" using unsigned_less [of al, where 'a = nat] by (subst unat_plus_no_wrap) simp_all
    then have "unat al \<le> 51" using a by (simp add: word_le_nat_alt)
    then show ?thesis using False u by auto
  qed simp
qed

declare check_partition.simps [simp del]

text \<open>
  \<open>inc\<close> leaves the carry flag alone: whether the next drive is tried depends on the last
  comparison, of the signature with \<open>0xaa55\<close> or of the partition number with \<open>'4'\<close>, which it
  is above. The number of the first sector is cleared in its lower half only (\<open>xor %bx, %bx\<close>); the
  upper half is that of the \<open>ebx\<close> the BIOS enters the loader with.
\<close>

partial_function (option) read_mbr :: "disk \<Rightarrow> u32 \<Rightarrow> u8 \<Rightarrow> loader \<Rightarrow> ((u8 \<times> u16) option \<times> loader) option" where
  "read_mbr disk ebx dl s =
     (case read_sector disk dl (ebx AND 0xffff0000) 0x2000 s of
        None \<Rightarrow> Some (None, s)
      | Some s \<Rightarrow>
          let s = putc (dl + (0x61 - 0x80)) (puts '' hd'' s);
              sig = load16 (phys s) (buf 510)
          in if sig \<noteq> 0xaa55 then (if sig < 0xaa55 then Some (None, s) else read_mbr disk ebx (dl + 1) s)
             else
               (case check_partition 446 0x31 s of
                  (Some si, s) \<Rightarrow> Some (Some (dl, si), s)
                | (None, s) \<Rightarrow> read_mbr disk ebx (dl + 1) s))"

section \<open>The load\<close>

text \<open>The sector number is advanced in its lower half only (\<open>inc %bx\<close>).\<close>

definition next_bx :: "u32 \<Rightarrow> u32" where
  "next_bx ebx = (ebx AND 0xffff0000) OR ucast (ucast ebx + 1 :: u16)"

fun next_sector :: "disk \<Rightarrow> u8 \<Rightarrow> nat \<Rightarrow> u16 \<Rightarrow> u32 \<Rightarrow> loader \<Rightarrow> bool \<times> loader" where
  "next_sector disk dl 0 ax ebx s = (True, s)"
| "next_sector disk dl (Suc n) ax ebx s =
     (case read_sector disk dl ebx ax s of
        None \<Rightarrow> (False, s)
      | Some s \<Rightarrow>
          let s = (if ebx AND 15 = 0 then puts ''.'' s else s)
          in next_sector disk dl n (ax + 0x20) (next_bx ebx) s)"

datatype outcome = Boot_failed loader | Jump u16 u16 loader

text \<open>\<open>loop\<close> counts in \<open>cx\<close> and decrements first: from zero it makes 65536 turns.\<close>

definition load_kernel :: "disk \<Rightarrow> u8 \<Rightarrow> u16 \<Rightarrow> loader \<Rightarrow> outcome" where
  "load_kernel disk dl si s =
     (let s = puts (CHR 0x0d # ''Loading'') s;
          ecx = load32 (phys s) (buf (si + 12));
          ecx = (if ecx \<le> 1024 then ecx else 1024);
          turns = (if ucast ecx = (0 :: u16) then 65536 else unat (ucast ecx :: u16));
          ebx = load32 (phys s) (buf (si + 8))
      in case next_sector disk dl turns 0x2000 ebx s of
           (False, s) \<Rightarrow> Boot_failed (puts (CHR 0x0d # ''Bad read'' @ [CHR 0x0d]) s)
         | (True, s) \<Rightarrow>
             let s = puts [CHR 0x0d] s;
                 s = s\<lparr>phys := store16 (start_at s) (load16 (phys s) (buf 0x18)) (phys s)\<rparr>;
                 s = s\<lparr>phys := store16 (start_at s + 2) 0x2000 (phys s)\<rparr>
             in Jump (load16 (phys s) (start_at s + 2)) (load16 (phys s) (start_at s)) s)"

definition boot_loader :: "disk \<Rightarrow> u32 \<Rightarrow> loader \<Rightarrow> outcome option" where
  "boot_loader disk ebx s =
     (case read_mbr disk ebx 0x80 (puts ''Scanning'' s) of
        None \<Rightarrow> None
      | Some (None, s) \<Rightarrow> Some (Boot_failed (puts (CHR 0x0d # ''Not found'' @ [CHR 0x0d]) s))
      | Some (Some (dl, si), s) \<Rightarrow> Some (load_kernel disk dl si s))"

section \<open>What printing changes\<close>

text \<open>Printing changes at most the instruction of \<open>putc\<close>, and that only when a transmission fails.\<close>

definition patch :: "bool \<Rightarrow> loader \<Rightarrow> memory \<Rightarrow> memory" where
  "patch nops s m = (if nops then store16 (int14_at s) 0x9090 m else m)"

definition prints :: "loader \<Rightarrow> loader \<Rightarrow> bool" where
  "prints s s' \<longleftrightarrow> line_ok s' = line_ok s \<and> start_off s' = start_off s \<and> int14_off s' = int14_off s \<and>
     (\<exists>nops. (nops \<longrightarrow> (\<exists>k. \<not> line_ok s k)) \<and> phys s' = patch nops s (phys s))"

lemma prints_labels:
  assumes "prints s s'"
  shows "start_at s' = start_at s" "int14_at s' = int14_at s" "line_ok s' = line_ok s"
  using assms by (simp_all add: prints_def start_at_def int14_at_def)

lemma patch_patch: "patch p s (patch q s m) = patch (p \<or> q) s m"
  by (simp add: patch_def store16_def fun_upd_twist [of "int14_at s"])

lemma patch_cong: "int14_at s = int14_at t \<Longrightarrow> patch p s = patch p t"
  by (rule ext) (simp add: patch_def)

lemma prints_refl [simp]: "prints s s"
  by (auto simp: prints_def patch_def)

lemma printsE:
  assumes "prints s t"
  obtains nops where "nops \<Longrightarrow> \<exists>k. \<not> line_ok s k" "phys t = patch nops s (phys s)"
proof -
  have "\<exists>nops. (nops \<longrightarrow> (\<exists>k. \<not> line_ok s k)) \<and> phys t = patch nops s (phys s)" using assms by (simp add: prints_def)
  then obtain nops where "nops \<longrightarrow> (\<exists>k. \<not> line_ok s k)" "phys t = patch nops s (phys s)" by (elim exE conjE)
  then show thesis by (intro that) simp_all
qed

lemma printsI:
  assumes "line_ok t = line_ok s" "start_off t = start_off s" "int14_off t = int14_off s"
    "nops \<Longrightarrow> \<exists>k. \<not> line_ok s k" "phys t = patch nops s (phys s)"
  shows "prints s t"
  unfolding prints_def using assms by (intro conjI exI [of _ nops] impI)

lemma prints_trans:
  assumes "prints s t" "prints t u"
  shows "prints s u"
proof -
  obtain p where p: "p \<Longrightarrow> \<exists>k. \<not> line_ok s k" "phys t = patch p s (phys s)" by (rule printsE [OF assms(1)]) (rule that)
  obtain q where q: "q \<Longrightarrow> \<exists>k. \<not> line_ok t k" "phys u = patch q t (phys t)" by (rule printsE [OF assms(2)]) (rule that)
  have m: "phys u = patch (q \<or> p) s (phys s)"
    unfolding q(2) p(2) patch_cong [OF prints_labels(2) [OF assms(1)]] by (rule patch_patch)
  have l: "line_ok t = line_ok s" by (rule prints_labels(3) [OF assms(1)])
  show ?thesis
  proof (rule printsI [OF _ _ _ _ m])
    show "line_ok u = line_ok s" "start_off u = start_off s" "int14_off u = int14_off s"
      using assms by (simp_all add: prints_def)
    show "q \<or> p \<Longrightarrow> \<exists>k. \<not> line_ok s k" using p(1) q(1) unfolding l by (elim disjE)
  qed
qed

lemma prints_put_char: "prints s (put_char c s)"
proof -
  let ?nops = "load16 (phys s) (int14_at s) = 0x14cd \<and> \<not> line_ok s (length (sent s))"
  have "phys (put_char c s) = patch ?nops s (phys s)"
    by (simp add: put_char_def Let_def patch_def int14_at_def)
  moreover have "?nops \<longrightarrow> (\<exists>k. \<not> line_ok s k)" by blast
  moreover have "line_ok (put_char c s) = line_ok s" "start_off (put_char c s) = start_off s" "int14_off (put_char c s) = int14_off s"
    by (simp_all add: put_char_def Let_def)
  ultimately show ?thesis unfolding prints_def by (intro conjI exI)
qed

lemma prints_putc [simp]: "prints s (putc c s)"
  by (simp add: putc_def Let_def prints_put_char prints_trans [OF prints_put_char prints_put_char])

lemma prints_puts [simp]: "prints s (puts str s)"
proof -
  have "prints s (fold (\<lambda>c. putc (of_char c)) str s)"
    by (induction str arbitrary: s) (auto intro: prints_trans [OF prints_putc])
  then show ?thesis by (simp add: puts_def)
qed

text \<open>Both labels are below the memory the sectors go to.\<close>

lemma label_low: "unat (start_at s) < 0x7e00" "unat (int14_at s) < 0x7e00"
proof -
  have "unat (0x7c00 + ucast (w :: 9 word) :: u32) < 0x7e00" for w
    using unsigned_less [of w, where 'a = nat]
    by (subst unat_plus_no_wrap) (simp_all add: unsigned_ucast_eq take_bit_eq_mod)
  then show "unat (start_at s) < 0x7e00" "unat (int14_at s) < 0x7e00" by (simp_all add: start_at_def int14_at_def)
qed

lemma store16_low:
  assumes "unat a < 0x1ffff" "0x20000 \<le> unat x"
  shows "store16 a w m x = m x"
proof -
  have "unat (a + 1) = unat a + 1" using assms(1) by (subst unat_plus_no_wrap) simp_all
  then have "x \<noteq> a" "x \<noteq> a + 1" using assms by auto
  then show ?thesis by (simp add: store16_def)
qed

lemma patch_high: "0x20000 \<le> unat x \<Longrightarrow> patch p s m x = m x"
  using label_low(2) [of s] by (simp add: patch_def store16_low)

lemma prints_high: "prints s s' \<Longrightarrow> 0x20000 \<le> unat x \<Longrightarrow> phys s' x = phys s x"
  by (auto simp: prints_def patch_high)

lemma buf_high:
  assumes "unat k < 4"
  shows "0x20000 \<le> unat (buf off + k)"
proof -
  have "unat (ucast off :: u32) < 65536" using unsigned_less [of off, where 'a = nat] by (simp add: unsigned_ucast_eq take_bit_eq_mod)
  then show ?thesis using assms unfolding buf_def by (subst unat_plus_no_wrap; (subst unat_plus_no_wrap)?) simp_all
qed

lemma prints_loads:
  assumes "prints s s'"
  shows "load16 (phys s') (buf off) = load16 (phys s) (buf off)" "load32 (phys s') (buf off) = load32 (phys s) (buf off)"
    "phys s' (buf off) = phys s (buf off)"
  using prints_high [OF assms buf_high, of 0 off] prints_high [OF assms buf_high, of 1 off]
    prints_high [OF assms buf_high, of 2 off] prints_high [OF assms buf_high, of 3 off]
  by (simp_all add: load16_def load32_def)

section \<open>Loaded sectors\<close>

text \<open>The sector the loader reads at position \<open>i\<close> of a partition that starts at \<open>f\<close>.\<close>

definition sector_at :: "u32 \<Rightarrow> nat \<Rightarrow> u32" where
  "sector_at f i = (f AND 0xffff0000) OR ucast (ucast f + of_nat i :: u16)"

lemma sector_halves:
  "(ucast (sector_at f i) :: u16) = ucast f + of_nat i" "sector_at f i AND 0xffff0000 = f AND 0xffff0000"
proof -
  have m: "(0xffff0000 :: u32) = push_bit 16 (mask 16)" by (simp add: mask_eq_exp_minus_1)
  show "(ucast (sector_at f i) :: u16) = ucast f + of_nat i"
    unfolding sector_at_def m by (rule bit_word_eqI) (auto simp: bit_simps)
  show "sector_at f i AND 0xffff0000 = f AND 0xffff0000"
    unfolding sector_at_def m by (rule bit_word_eqI) (auto simp: bit_simps dest: bit_imp_le_length)
qed

lemma sector_at_next: "sector_at (next_bx f) i = sector_at f (Suc i)"
proof -
  have "next_bx f = sector_at f 1" by (simp add: next_bx_def sector_at_def)
  then show ?thesis
    using sector_halves [of f 1] unfolding sector_at_def [of "next_bx f"] sector_at_def [of f "Suc i"]
    by (simp add: add.assoc)
qed

lemma split_halves: "f = (f AND 0xffff0000) + ucast (ucast f :: u16)" for f :: u32
proof -
  have m: "(0xffff0000 :: u32) = push_bit 16 (mask 16)" by (simp add: mask_eq_exp_minus_1)
  have "(f AND 0xffff0000) AND ucast (ucast f :: u16) = 0"
    unfolding m by (rule bit_word_eqI) (auto simp: bit_simps)
  then have "(f AND 0xffff0000) + ucast (ucast f :: u16) = (f AND 0xffff0000) OR ucast (ucast f :: u16)"
    by (rule disjunctive_add_eq_or)
  also have "\<dots> = f" unfolding m by (rule bit_word_eqI) (auto simp: bit_simps)
  finally show ?thesis by simp
qed

lemma u16_sum:
  fixes a b :: u16
  assumes "unat a + unat b < 65536 + n" "n \<le> unat a + unat b" "n = 0 \<or> n = 65536"
  shows "unat (a + b) = unat a + unat b - n"
  using assms unsigned_less [of a, where 'a = nat] by (auto simp: unat_plus_if')

text \<open>As long as the lower half does not wrap, it is the sector at that position; then it is 65536 below.\<close>

lemma sector_at_eq:
  assumes "i \<le> 1024"
  shows "sector_at f i = (if unat f mod 65536 + i < 65536 then f + of_nat i else f + of_nat i - 65536)"
proof -
  have lo: "unat (ucast f :: u16) = unat f mod 65536" by (simp add: unsigned_ucast_eq take_bit_eq_mod)
  have i: "unat (of_nat i :: u16) = i" "unat (of_nat i :: u32) = i" using assms by (simp_all add: unat_of_nat)
  define h where "h = f AND 0xffff0000"
  have f: "f = h + ucast (ucast f :: u16)" unfolding h_def by (rule split_halves)
  have s: "sector_at f i = h + ucast (ucast f + of_nat i :: u16)"
    using split_halves [of "sector_at f i"] by (simp add: sector_halves h_def)
  have "(ucast (ucast f + of_nat i :: u16) :: u32) =
      (if unat f mod 65536 + i < 65536 then ucast (ucast f :: u16) + of_nat i else ucast (ucast f :: u16) + of_nat i - 65536)"
    (is "?w = ?v")
  proof (rule word_unat_eq_iff [THEN iffD2])
    have w: "unat ?w = unat (ucast f + of_nat i :: u16)"
      using unsigned_less [of "ucast f + of_nat i :: u16", where 'a = nat]
      by (simp add: unsigned_ucast_eq take_bit_eq_mod)
    have l: "unat (ucast (ucast f :: u16) + of_nat i :: u32) = unat f mod 65536 + i"
      using lo i assms by (subst unat_plus_no_wrap) (simp_all add: unsigned_ucast_eq take_bit_eq_mod unat_mod)
    show "unat ?w = unat ?v"
    proof (cases "unat f mod 65536 + i < 65536")
      case True
      then show ?thesis using l w lo i u16_sum [of "ucast f" "of_nat i" 0] by simp
    next
      case False
      then have "unat (ucast (ucast f :: u16) + of_nat i - 65536 :: u32) = unat f mod 65536 + i - 65536"
        using l by (subst unat_sub) (simp_all add: word_le_nat_alt)
      then show ?thesis using False assms w lo i u16_sum [of "ucast f" "of_nat i" 65536] by simp
    qed
  qed
  then show ?thesis unfolding s by (subst (3 4) f) simp
qed

text \<open>\<open>n\<close> sectors from segment \<open>ax\<close> on, one behind the other.\<close>

definition loaded :: "disk \<Rightarrow> u8 \<Rightarrow> (nat \<Rightarrow> u32) \<Rightarrow> nat \<Rightarrow> u32 \<Rightarrow> memory \<Rightarrow> memory" where
  "loaded disk dl sec n a m =
     (\<lambda>x. if a \<le> x \<and> unat x < unat a + 512 * n
          then the (disk dl (sec ((unat x - unat a) div 512))) ! ((unat x - unat a) mod 512)
          else m x)"

lemma loaded_0: "loaded disk dl sec 0 a m = m"
  by (rule ext) (auto simp: loaded_def word_le_nat_alt)

definition sectors_readable :: "disk \<Rightarrow> u8 \<Rightarrow> (nat \<Rightarrow> u32) \<Rightarrow> nat \<Rightarrow> bool" where
  "sectors_readable disk dl sec n \<longleftrightarrow> (\<forall>i<n. \<exists>bs. disk dl (sec i) = Some bs \<and> length bs = 512)"

lemma segment_base: "unat (push_bit 4 (ucast (ax :: u16)) :: u32) = 16 * unat ax"
  using unsigned_less [of ax, where 'a = nat]
  by (simp add: push_bit_eq_mult unat_word_ariths unsigned_ucast_eq take_bit_eq_mod)

lemma put_sector_loaded:
  assumes "disk dl (sec 0) = Some bs" "length bs = 512" "unat ax + 32 * Suc n < 65536"
  shows "loaded disk dl (\<lambda>i. sec (Suc i)) n (push_bit 4 (ucast (ax + 0x20))) (put_sector ax bs m) =
    loaded disk dl sec (Suc n) (push_bit 4 (ucast ax)) m"
proof
  fix x :: u32
  let ?a = "push_bit 4 (ucast ax) :: u32" and ?b = "push_bit 4 (ucast (ax + 0x20)) :: u32"
  have a: "unat ?a = 16 * unat ax" by (rule segment_base)
  have b: "unat ?b = 16 * unat ax + 512"
    unfolding segment_base using assms(3) by (subst unat_plus_no_wrap) simp_all
  have k: "unat (x - ?a) = unat x - unat ?a" if "?a \<le> x" using that by (rule unat_sub)
  have k': "\<not> x - ?a < 512" if "\<not> ?a \<le> x"
  proof -
    have "unat (x - ?a) = unat x + 4294967296 - unat ?a" using that by (subst unat_sub_if') (simp add: word_le_nat_alt)
    then show ?thesis using a assms(3) by (simp add: word_less_nat_alt)
  qed
  consider "\<not> ?a \<le> x" | "?a \<le> x" "unat x < unat ?a + 512" | "?a \<le> x" "unat ?a + 512 \<le> unat x" by linarith
  then show "loaded disk dl (\<lambda>i. sec (Suc i)) n ?b (put_sector ax bs m) x = loaded disk dl sec (Suc n) ?a m x"
  proof cases
    case 1
    then show ?thesis using a b k' assms(2) by (simp add: loaded_def put_sector_def word_le_nat_alt Let_def)
  next
    case 2
    then show ?thesis using a b k assms(1,2) by (auto simp: loaded_def put_sector_def word_le_nat_alt word_less_nat_alt Let_def)
  next
    case 3
    then obtain j where j: "unat x = unat ?b + j" using a b by (metis le_iff_add)
    then have "(unat x - unat ?a) div 512 = Suc ((unat x - unat ?b) div 512)" "(unat x - unat ?a) mod 512 = (unat x - unat ?b) mod 512"
      using a b by simp_all
    then show ?thesis using 3 a b k assms(2) by (auto simp: loaded_def put_sector_def word_le_nat_alt word_less_nat_alt Let_def)
  qed
qed

lemma loaded_patch:
  assumes "0x20000 \<le> unat a"
  shows "loaded disk dl sec n a (patch p s m) = patch p s (loaded disk dl sec n a m)"
proof
  fix x
  show "loaded disk dl sec n a (patch p s m) x = patch p s (loaded disk dl sec n a m) x"
  proof (cases "a \<le> x")
    case True
    then have "0x20000 \<le> unat x" using assms by (simp add: word_le_nat_alt)
    then show ?thesis by (simp add: loaded_def patch_high)
  qed (simp add: loaded_def patch_def store16_def)
qed

lemma prints_loaded:
  assumes "prints s t" "0x20000 \<le> unat a"
  shows "prints (s\<lparr>phys := loaded disk dl sec n a (phys s)\<rparr>) (t\<lparr>phys := loaded disk dl sec n a (phys t)\<rparr>)"
proof -
  let ?s = "s\<lparr>phys := loaded disk dl sec n a (phys s)\<rparr>" and ?t = "t\<lparr>phys := loaded disk dl sec n a (phys t)\<rparr>"
  obtain p where p: "p \<Longrightarrow> \<exists>k. \<not> line_ok s k" "phys t = patch p s (phys s)" by (rule printsE [OF assms(1)]) (rule that)
  have "patch p s = patch p ?s" by (rule patch_cong) (simp add: int14_at_def)
  then have m: "phys ?t = patch p ?s (phys ?s)" using p(2) loaded_patch [OF assms(2)] by simp
  show ?thesis by (rule printsI [OF _ _ _ _ m]) (use assms(1) p(1) in \<open>simp_all add: prints_def\<close>)
qed

lemma next_sector_loads:
  assumes "sectors_readable disk dl (sector_at f) n" "unat ax + 32 * n < 65536" "0x2000 \<le> unat ax"
  shows "\<exists>s1 s'. next_sector disk dl n ax f s = (True, s') \<and>
    s1 = s\<lparr>phys := loaded disk dl (sector_at f) n (push_bit 4 (ucast ax)) (phys s)\<rparr> \<and> prints s1 s'"
  using assms
proof (induction n arbitrary: ax f s)
  case 0
  then show ?case by (simp add: loaded_0)
next
  case (Suc n)
  have f: "sector_at f 0 = f" using split_halves [of f] split_halves [of "sector_at f 0"] by (simp add: sector_halves)
  obtain bs where bs: "disk dl f = Some bs" "length bs = 512"
    using Suc.prems(1) f by (auto simp: sectors_readable_def)
  define s1 where "s1 = s\<lparr>phys := put_sector ax bs (phys s)\<rparr>"
  define s2 where "s2 = (if f AND 15 = 0 then puts ''.'' s1 else s1)"
  let ?load = "loaded disk dl (sector_at (next_bx f)) n (push_bit 4 (ucast (ax + 0x20)))"
  have r: "sectors_readable disk dl (sector_at (next_bx f)) n"
    using Suc.prems(1) by (simp add: sectors_readable_def sector_at_next)
  have ax: "unat (ax + 0x20) = unat ax + 32" using Suc.prems(2) by (subst unat_plus_no_wrap) simp_all
  have "unat (ax + 0x20) + 32 * n < 65536" "0x2000 \<le> unat (ax + 0x20)" using Suc.prems(2,3) by (simp_all add: ax)
  from Suc.IH [OF r this, of s2]
  obtain s' where s': "next_sector disk dl n (ax + 0x20) (next_bx f) s2 = (True, s')" "prints (s2\<lparr>phys := ?load (phys s2)\<rparr>) s'"
    by blast
  have run: "next_sector disk dl (Suc n) ax f s = (True, s')"
    using s'(1) [unfolded s2_def s1_def] bs(1) by (simp add: read_sector_def Let_def split del: if_split)
  have p: "prints s1 s2" by (simp add: s2_def)
  have "prints (s1\<lparr>phys := ?load (phys s1)\<rparr>) (s2\<lparr>phys := ?load (phys s2)\<rparr>)"
    using Suc.prems(3) by (intro prints_loaded p) (simp add: segment_base ax)
  then have "prints (s1\<lparr>phys := ?load (phys s1)\<rparr>) s'" using s'(2) by (rule prints_trans)
  moreover have "s1\<lparr>phys := ?load (phys s1)\<rparr> = s\<lparr>phys := loaded disk dl (sector_at f) (Suc n) (push_bit 4 (ucast ax)) (phys s)\<rparr>"
    using put_sector_loaded [of disk dl "sector_at f" bs ax n] f bs Suc.prems(2)
    by (simp add: fun_eq_iff [of "sector_at (next_bx f)", THEN iffD2, OF allI, OF sector_at_next] s1_def)
  ultimately show ?case using run by auto
qed

lemma loaded_cong: "(\<And>i. i < n \<Longrightarrow> sec i = sec' i) \<Longrightarrow> loaded disk dl sec n a m = loaded disk dl sec' n a m"
  by (rule ext) (auto simp: loaded_def word_le_nat_alt)

lemma loaded_at:
  assumes "i < n" "j < 512" "unat a + 512 * n < 4294967296"
  shows "loaded disk dl sec n a m (a + of_nat (512 * i + j)) = the (disk dl (sec i)) ! j"
proof -
  have k: "512 * i + j < 512 * n" using assms(1,2) by simp
  then have "unat (of_nat (512 * i + j) :: u32) = 512 * i + j" using assms(3) by (intro unat_of_nat32) simp
  then have "unat (a + of_nat (512 * i + j)) = unat a + (512 * i + j)"
    using assms(3) k by (subst unat_plus_no_wrap) simp_all
  then show ?thesis using k assms(2) by (simp add: loaded_def word_le_nat_alt del: of_nat_add of_nat_mult)
qed

text \<open>The whole of \<open>load_kernel\<close>, by the sectors it reads.\<close>

definition kernel_sectors :: "u16 \<Rightarrow> loader \<Rightarrow> nat" where
  "kernel_sectors si s = min (unat (load32 (phys s) (buf (si + 12)))) 1024"

definition kernel_start :: "u16 \<Rightarrow> loader \<Rightarrow> u32" where
  "kernel_start si s = load32 (phys s) (buf (si + 8))"

lemma kernel_start_puts: "kernel_start si (puts str s) = kernel_start si s"
  by (simp add: kernel_start_def prints_loads [OF prints_puts])

text \<open>The target of the last jump, over the four bytes at \<open>start\<close>.\<close>

definition with_target :: "u32 \<Rightarrow> u16 \<Rightarrow> memory \<Rightarrow> memory" where
  "with_target a e m = store16 (a + 2) 0x2000 (store16 a e m)"

lemma with_target_loads:
  "load16 (with_target a e m) (a + 2) = 0x2000" "load16 (with_target a e m) a = e"
proof -
  have "load16 (store16 (a + 2) 0x2000 (store16 a e m)) a = load16 (store16 a e m) a"
    by (rule load_sep(4)) simp_all
  then show "load16 (with_target a e m) (a + 2) = 0x2000" "load16 (with_target a e m) a = e"
    by (simp_all add: with_target_def)
qed

lemma with_target_high:
  assumes "unat a < 0x7e00" "0x20000 \<le> unat x"
  shows "with_target a e m x = m x"
proof -
  have "unat (a + 2) = unat a + 2" using assms(1) by (subst unat_plus_no_wrap) simp_all
  then show ?thesis using assms by (simp add: with_target_def store16_low)
qed

lemma loaded_high:
  assumes "i < n" "j < 512" "n \<le> 1024"
  shows "with_target (start_at s) e (patch nops s m) (0x20000 + of_nat (512 * i + j)) = m (0x20000 + of_nat (512 * i + j))"
proof -
  have "512 * i + j < 524288" using assms by simp
  then have "unat (of_nat (512 * i + j) :: u32) = 512 * i + j" by (intro unat_of_nat32) simp
  then have "unat (0x20000 + of_nat (512 * i + j) :: u32) = 0x20000 + (512 * i + j)"
    using assms by (subst unat_plus_no_wrap) simp_all
  then show ?thesis using label_low(1) by (simp add: with_target_high patch_high)
qed

lemma load_kernel_general:
  assumes "0 < kernel_sectors si s" "sectors_readable disk dl (sector_at (kernel_start si s)) (kernel_sectors si s)"
  obtains s' e nops where "load_kernel disk dl si s = Jump 0x2000 e s'" "load16 (phys s') (buf 0x18) = e"
    "nops \<longrightarrow> (\<exists>k. \<not> line_ok s k)"
    "phys s' = with_target (start_at s) e
       (patch nops s (loaded disk dl (sector_at (kernel_start si s)) (kernel_sectors si s) 0x20000 (phys s)))"
proof -
  define c where "c = load32 (phys s) (buf (si + 12))"
  define ecx where "ecx = (if c \<le> 1024 then c else 1024)"
  have e: "unat ecx = kernel_sectors si s" by (simp add: ecx_def c_def kernel_sectors_def word_le_nat_alt min_def)
  then have "unat (ucast ecx :: u16) = kernel_sectors si s"
    by (simp add: unsigned_ucast_eq take_bit_eq_mod kernel_sectors_def)
  then have turns: "(if ucast ecx = (0 :: u16) then 65536 else unat (ucast ecx :: u16)) = kernel_sectors si s"
    using assms(1) by auto
  let ?load = "loaded disk dl (sector_at (kernel_start si s)) (kernel_sectors si s) 0x20000"
  define t where "t = puts (CHR 0x0d # ''Loading'') s"
  have t: "prints s t" "load32 (phys t) (buf (si + 12)) = c" "kernel_start si t = kernel_start si s"
    by (simp_all add: t_def c_def prints_loads [OF prints_puts] kernel_start_puts)
  have b: "unat (0x2000 :: u16) + 32 * kernel_sectors si s < 65536" by (simp add: kernel_sectors_def)
  obtain v where v: "next_sector disk dl (kernel_sectors si s) 0x2000 (kernel_start si s) t = (True, v)"
    "prints (t\<lparr>phys := ?load (phys t)\<rparr>) v"
  proof -
    have a: "0x2000 \<le> unat (0x2000 :: u16)" "push_bit 4 (ucast (0x2000 :: u16)) = (0x20000 :: u32)" by simp_all
    show thesis using next_sector_loads [OF assms(2) b a(1), of t] that unfolding a(2) by blast
  qed
  have "prints (s\<lparr>phys := ?load (phys s)\<rparr>) (t\<lparr>phys := ?load (phys t)\<rparr>)"
    by (intro prints_loaded t(1)) simp
  then have w: "prints (s\<lparr>phys := ?load (phys s)\<rparr>) (puts [CHR 0x0d] v)" by (rule prints_trans [OF prints_trans [OF _ v(2)] prints_puts])
  define w' where "w' = puts [CHR 0x0d] v"
  define e where "e = load16 (phys w') (buf 0x18)"
  have at: "start_at w' = start_at s" using prints_labels(1) [OF w] by (simp add: w'_def start_at_def)
  have at': "start_at (w'\<lparr>phys := m\<rparr>) = start_at s" for m using at by (simp add: start_at_def)
  obtain nops where nops: "nops \<Longrightarrow> \<exists>k. \<not> line_ok (s\<lparr>phys := ?load (phys s)\<rparr>) k"
    "phys w' = patch nops (s\<lparr>phys := ?load (phys s)\<rparr>) (phys (s\<lparr>phys := ?load (phys s)\<rparr>))"
    by (rule printsE [OF w [folded w'_def]]) (rule that)
  have "patch nops (s\<lparr>phys := ?load (phys s)\<rparr>) = patch nops s" by (rule patch_cong) (simp add: int14_at_def)
  then have m: "phys w' = patch nops s (?load (phys s))" using nops(2) by simp
  have k: "load_kernel disk dl si s = Jump 0x2000 e (w'\<lparr>phys := with_target (start_at s) e (phys w')\<rparr>)"
    unfolding load_kernel_def Let_def t_def [symmetric] t(2) ecx_def [symmetric] turns kernel_start_def [symmetric] t(3) v(1)
      prod.case bool.case w'_def [symmetric] e_def [symmetric] at
    by (simp add: at' with_target_def [symmetric] with_target_loads)
  have "load16 (with_target (start_at s) e (phys w')) (buf 0x18) = e"
    using buf_high [of 0 "0x18"] buf_high [of 1 "0x18"]
    by (simp add: load16_def e_def with_target_high [OF label_low(1)])
  moreover have "nops \<longrightarrow> (\<exists>k. \<not> line_ok s k)" using nops(1) by simp
  ultimately show ?thesis using m by (intro that [OF k]) simp_all
qed

section \<open>Partition tables\<close>

text \<open>What the scan looks for in a first sector: the signature, and the first bootable kernel partition.\<close>

definition mbr_signature :: "u8 list \<Rightarrow> u16" where
  "mbr_signature bs = ucast (bs ! 510) OR push_bit 8 (ucast (bs ! 511))"

definition boot_partition :: "u8 list \<Rightarrow> nat option" where
  "boot_partition bs = List.find (\<lambda>k. bs ! (446 + 16 * k + 4) = 0x20 \<and> bs ! (446 + 16 * k) = 0x80) [0, 1, 2, 3]"

text \<open>A drive the scan ends at, and what it finds there.\<close>

definition drive_stops :: "u8 list option \<Rightarrow> bool" where
  "drive_stops d = (case d of None \<Rightarrow> True
     | Some bs \<Rightarrow> mbr_signature bs < 0xaa55 \<or> mbr_signature bs = 0xaa55 \<and> boot_partition bs \<noteq> None)"

definition drive_choice :: "u8 list option \<Rightarrow> nat option" where
  "drive_choice d = (case d of None \<Rightarrow> None
     | Some bs \<Rightarrow> if mbr_signature bs = 0xaa55 then boot_partition bs else None)"

definition in_buffer :: "u8 list \<Rightarrow> loader \<Rightarrow> bool" where
  "in_buffer bs s \<longleftrightarrow> (\<forall>off<512. phys s (buf (of_nat off)) = bs ! off)"

lemma in_buffer_at: "in_buffer bs s \<Longrightarrow> k < 512 \<Longrightarrow> phys s (buf (of_nat k)) = bs ! k"
  by (simp add: in_buffer_def)

lemma check_partition_finds:
  assumes "in_buffer bs s"
  obtains s' where "check_partition 446 0x31 s = (map_option (\<lambda>k. 446 + 16 * of_nat k) (boot_partition bs), s')"
    "prints s s'"
proof -
  note b = in_buffer_at [OF assms]
  note bytes = b [of 446] b [of 450] b [of 462] b [of 466] b [of 478] b [of 482] b [of 494] b [of 498]
  have p: "prints s (putc d (putc c s))" "prints s (putc e (putc d (putc c s)))" "prints s (putc f (putc e (putc d (putc c s))))"
    for c d e f by (blast intro: prints_trans prints_putc)+
  have "\<exists>s'. check_partition 446 0x31 s = (map_option (\<lambda>k. 446 + 16 * of_nat k) (boot_partition bs), s') \<and> prints s s'"
    using bytes
    by (simp add: p prints_loads(3) [OF prints_putc] check_partition.simps [of 446 "0x31"] check_partition.simps [of 462 "0x32"]
        check_partition.simps [of 478 "0x33"] check_partition.simps [of 494 "0x34"] boot_partition_def Let_def)
  then show ?thesis using that by blast
qed

lemma buffered_sector:
  assumes "length bs = 512"
  shows "in_buffer bs (s\<lparr>phys := put_sector 0x2000 bs (phys s)\<rparr>)"
proof -
  have "unat (ucast (of_nat off :: u16) :: u32) = off" if "off < 512" for off
    using that by (simp add: unsigned_ucast_eq take_bit_eq_mod unat_of_nat)
  then show ?thesis
    using assms by (simp add: in_buffer_def put_sector_def buf_def Let_def word_less_nat_alt)
qed

lemma in_buffer_signature:
  assumes "in_buffer bs s"
  shows "load16 (phys s) (buf 510) = mbr_signature bs"
proof -
  have "buf 510 + 1 = buf 511" by (simp add: buf_def)
  then show ?thesis
    using in_buffer_at [OF assms, of 510] in_buffer_at [OF assms, of 511] by (simp add: load16_def mbr_signature_def)
qed

lemma in_buffer_prints: "prints s s' \<Longrightarrow> in_buffer bs s' = in_buffer bs s"
  by (simp add: in_buffer_def prints_loads(3))

lemma in_buffer_puts [simp]: "in_buffer bs (puts str s) = in_buffer bs s" "in_buffer bs (putc c s) = in_buffer bs s"
  by (simp_all add: in_buffer_prints)

text \<open>One drive: where the scan ends, and where it goes on.\<close>

lemma read_mbr_step:
  assumes "\<And>bs. disk dl (ebx AND 0xffff0000) = Some bs \<Longrightarrow> length bs = 512"
  shows "drive_stops (disk dl (ebx AND 0xffff0000)) \<Longrightarrow>
      \<exists>s'. read_mbr disk ebx dl s = Some (map_option (\<lambda>k. (dl, 446 + 16 * of_nat k)) (drive_choice (disk dl (ebx AND 0xffff0000))), s') \<and>
        (\<forall>bs. disk dl (ebx AND 0xffff0000) = Some bs \<longrightarrow> in_buffer bs s')"
    "\<not> drive_stops (disk dl (ebx AND 0xffff0000)) \<Longrightarrow> \<exists>s'. read_mbr disk ebx dl s = read_mbr disk ebx (dl + 1) s'"
proof -
  have "(drive_stops (disk dl (ebx AND 0xffff0000)) \<longrightarrow>
      (\<exists>s'. read_mbr disk ebx dl s = Some (map_option (\<lambda>k. (dl, 446 + 16 * of_nat k)) (drive_choice (disk dl (ebx AND 0xffff0000))), s') \<and>
        (\<forall>bs. disk dl (ebx AND 0xffff0000) = Some bs \<longrightarrow> in_buffer bs s'))) \<and>
    (\<not> drive_stops (disk dl (ebx AND 0xffff0000)) \<longrightarrow> (\<exists>s'. read_mbr disk ebx dl s = read_mbr disk ebx (dl + 1) s'))"
  proof (cases "disk dl (ebx AND 0xffff0000)")
    case None
    then show ?thesis by (subst read_mbr.simps) (simp add: read_sector_def drive_stops_def drive_choice_def)
  next
    case (Some bs)
    define s1 where "s1 = putc (dl + (0x61 - 0x80)) (puts '' hd'' (s\<lparr>phys := put_sector 0x2000 bs (phys s)\<rparr>))"
    have b: "in_buffer bs s1" using buffered_sector [OF assms [OF Some], of s] by (simp add: s1_def)
    obtain s2 where s2: "check_partition 446 0x31 s1 = (map_option (\<lambda>k. 446 + 16 * of_nat k) (boot_partition bs), s2)"
      "prints s1 s2" using check_partition_finds [OF b] .
    have r: "read_mbr disk ebx dl s =
        (if mbr_signature bs \<noteq> 0xaa55 then (if mbr_signature bs < 0xaa55 then Some (None, s1) else read_mbr disk ebx (dl + 1) s1)
         else case boot_partition bs of Some k \<Rightarrow> Some (Some (dl, 446 + 16 * of_nat k), s2) | None \<Rightarrow> read_mbr disk ebx (dl + 1) s2)"
      using Some in_buffer_signature [OF b] s2(1)
      by (subst read_mbr.simps)
        (simp add: read_sector_def Let_def s1_def split: option.split)
    show ?thesis
      using Some b in_buffer_prints [OF s2(2), of bs] unfolding r
      by (auto simp: drive_stops_def drive_choice_def split: option.splits)
  qed
  then show "drive_stops (disk dl (ebx AND 0xffff0000)) \<Longrightarrow>
      \<exists>s'. read_mbr disk ebx dl s = Some (map_option (\<lambda>k. (dl, 446 + 16 * of_nat k)) (drive_choice (disk dl (ebx AND 0xffff0000))), s') \<and>
        (\<forall>bs. disk dl (ebx AND 0xffff0000) = Some bs \<longrightarrow> in_buffer bs s')"
    "\<not> drive_stops (disk dl (ebx AND 0xffff0000)) \<Longrightarrow> \<exists>s'. read_mbr disk ebx dl s = read_mbr disk ebx (dl + 1) s'"
    by blast+
qed

section \<open>Properties\<close>

text \<open>
  C22: With \<open>ebx\<close> the BIOS's value, whose upper half the loader keeps in the sector number (so that
  it must be zero for the first sector to be read), the scan for a kernel ends at the first drive that cannot be read, holds a bootable kernel
  partition, or has a signature word below that of a partitioned disk; it finds the first such
  partition of that drive, with the drive's first sector left in the buffer, or nothing. Hence
  an unpartitioned disk (its signature word is zero) hides the drives behind it, contrary to
  what the loader's comment says of it.
\<close>

theorem loader_scan:
  assumes "\<And>j. j < k \<Longrightarrow> \<not> drive_stops (disk (dl + of_nat j) (ebx AND 0xffff0000))" "drive_stops (disk (dl + of_nat k) (ebx AND 0xffff0000))"
    and len: "\<And>d bs. disk d (ebx AND 0xffff0000) = Some bs \<Longrightarrow> length bs = 512"
  shows "\<exists>s'. read_mbr disk ebx dl s =
      Some (map_option (\<lambda>p. (dl + of_nat k, 446 + 16 * of_nat p)) (drive_choice (disk (dl + of_nat k) (ebx AND 0xffff0000))), s') \<and>
    (\<forall>bs. disk (dl + of_nat k) (ebx AND 0xffff0000) = Some bs \<longrightarrow> in_buffer bs s')"
  using assms(1,2)
proof (induction k arbitrary: dl s)
  case 0
  then show ?case using read_mbr_step(1) [of disk dl ebx s, OF len] by simp
next
  case (Suc k)
  have "\<not> drive_stops (disk dl (ebx AND 0xffff0000))" using Suc.prems(1) [of 0] by simp
  then obtain s' where s': "read_mbr disk ebx dl s = read_mbr disk ebx (dl + 1) s'"
    using read_mbr_step(2) [of disk dl ebx s] len by blast
  have "\<not> drive_stops (disk (dl + 1 + of_nat j) (ebx AND 0xffff0000))" if "j < k" for j
    using Suc.prems(1) [of "Suc j"] that by (simp add: add.assoc)
  then show ?case using Suc.IH [of "dl + 1" s'] Suc.prems(2) s' by (simp add: add.assoc)
qed


text \<open>
  The loader reads wrong sectors for a partition that crosses a multiple of 65536: the
  sector number is advanced in its lower half only, and from the multiple on what is loaded are
  the sectors 65536 below the partition's.
\<close>

theorem loader_wraps_sectors:
  fixes s :: loader and si :: u16
  defines "n \<equiv> kernel_sectors si s" and "f \<equiv> kernel_start si s"
  assumes "i < n" "65536 \<le> unat f mod 65536 + i" "sectors_readable disk dl (sector_at f) n"
  shows "\<exists>s'. load_kernel disk dl si s = Jump 0x2000 (load16 (phys s') 0x20018) s' \<and>
    (\<forall>j<512. phys s' (0x20000 + of_nat (512 * i + j)) = the (disk dl (f + of_nat i - 65536)) ! j)"
proof -
  have n: "n \<le> 1024" by (simp add: n_def kernel_sectors_def)
  have "0 < n" using assms(3) by simp
  then obtain s' e nops where s': "load_kernel disk dl si s = Jump 0x2000 e s'" "load16 (phys s') (buf 0x18) = e"
    "phys s' = with_target (start_at s) e (patch nops s (loaded disk dl (sector_at f) n 0x20000 (phys s)))"
    using load_kernel_general [of si s disk dl] assms(5) unfolding n_def f_def by metis
  have "sector_at f i = f + of_nat i - 65536" using assms(3,4) n by (subst sector_at_eq) simp_all
  then have "phys s' (0x20000 + of_nat (512 * i + j)) = the (disk dl (f + of_nat i - 65536)) ! j" if "j < 512" for j
    unfolding s'(3) using loaded_high [OF assms(3) that n] loaded_at [OF assms(3) that, of "0x20000"] n by simp
  then show ?thesis using s'(1,2) by (auto simp: buf_def)
qed

section \<open>A concrete disk\<close>

text \<open>The first drive is partitioned but has no kernel, the second has one of two sectors; no others.\<close>

definition empty_table :: "u8 list" where
  "empty_table = (replicate 512 0)[510 := 0x55, 511 := 0xaa]"

definition kernel_table :: "u8 \<Rightarrow> u8 \<Rightarrow> u8 list" where
  "kernel_table first0 first1 = empty_table[446 := 0x80, 450 := 0x20, 454 := first0, 455 := first1, 458 := 2]"

definition two_disks :: "u8 list \<Rightarrow> disk" where
  "two_disks mbr d l =
     (if d = 0x80 then Some empty_table
      else if d = 0x81 then Some (if l = 0 then mbr else replicate 512 (ucast l))
      else None)"

definition scanned :: "u8 list \<Rightarrow> loader" where
  "scanned mbr = \<lparr>screen = [], sent = [], phys = put_sector 0x2000 mbr (store16 0x7d00 0x14cd (\<lambda>_. 0)),
     line_ok = (\<lambda>k. k < 5), start_off = 0xb0, int14_off = 0x100\<rparr>"

lemma table_lengths [simp]: "length empty_table = 512" "length (kernel_table a b) = 512"
  by (simp_all add: empty_table_def kernel_table_def)

lemma table_bytes:
  "mbr_signature empty_table = 0xaa55" "boot_partition empty_table = None"
  "mbr_signature (kernel_table a b) = 0xaa55" "boot_partition (kernel_table a b) = Some 0"
  by (simp_all add: mbr_signature_def boot_partition_def empty_table_def kernel_table_def)

theorem loader_scan_witness:
  "\<exists>s'. read_mbr (two_disks (kernel_table 1 0)) 0x1234 0x80 (scanned []) = Some (Some (0x81, 446), s')"
proof -
  have "\<not> drive_stops (two_disks (kernel_table 1 0) (0x80 + of_nat j) (0x1234 AND 0xffff0000))" if "j < 1" for j
    using that by (simp add: two_disks_def drive_stops_def table_bytes)
  moreover have "drive_stops (two_disks (kernel_table 1 0) (0x80 + of_nat 1) (0x1234 AND 0xffff0000))"
    by (simp add: two_disks_def drive_stops_def table_bytes)
  moreover have "length bs = 512" if "two_disks (kernel_table 1 0) d (0x1234 AND 0xffff0000) = Some bs" for d bs
    using that by (auto simp: two_disks_def split: if_splits)
  ultimately have "\<exists>s'. read_mbr (two_disks (kernel_table 1 0)) 0x1234 0x80 (scanned []) =
      Some (map_option (\<lambda>p. (0x80 + of_nat 1, 446 + 16 * of_nat p)) (drive_choice (two_disks (kernel_table 1 0) (0x80 + of_nat 1) (0x1234 AND 0xffff0000))), s') \<and>
      (\<forall>bs. two_disks (kernel_table 1 0) (0x80 + of_nat 1) (0x1234 AND 0xffff0000) = Some bs \<longrightarrow> in_buffer bs s')"
    by (rule loader_scan)
  then show ?thesis by (auto simp: two_disks_def drive_choice_def table_bytes)
qed

lemma scanned_fields:
  "kernel_start 446 (scanned (kernel_table a b)) = ucast a OR push_bit 8 (ucast b)"
  "kernel_sectors 446 (scanned (kernel_table a b)) = 2"
  by (simp_all add: kernel_start_def kernel_sectors_def scanned_def load32_def put_sector_def buf_def kernel_table_def empty_table_def Let_def)


theorem loader_wraps_sectors_witness:
  "\<exists>s'. load_kernel (two_disks (kernel_table 0xff 0xff)) 0x81 446 (scanned (kernel_table 0xff 0xff)) =
      Jump 0x2000 (load16 (phys s') 0x20018) s' \<and> phys s' (0x20000 + of_nat (512 * 1 + 450)) = 0x20"
proof -
  have f: "kernel_start 446 (scanned (kernel_table 0xff 0xff)) = 0xffff" by (simp add: scanned_fields)
  have "sectors_readable (two_disks (kernel_table 0xff 0xff)) 0x81 (sector_at 0xffff) 2"
  proof -
    have "\<exists>bs. two_disks (kernel_table 0xff 0xff) 0x81 l = Some bs \<and> length bs = 512" for l
      by (simp add: two_disks_def)
    then show ?thesis by (simp add: sectors_readable_def)
  qed
  moreover have "(1 :: nat) < 2" "65536 \<le> unat (0xffff :: u32) mod 65536 + 1" by simp_all
  ultimately obtain s' where s': "load_kernel (two_disks (kernel_table 0xff 0xff)) 0x81 446 (scanned (kernel_table 0xff 0xff)) = Jump 0x2000 (load16 (phys s') 0x20018) s'"
    and b: "\<forall>j<512. phys s' (0x20000 + of_nat (512 * 1 + j)) = the (two_disks (kernel_table 0xff 0xff) 0x81 (0xffff + of_nat 1 - 65536)) ! j"
    using loader_wraps_sectors [of 1 446 "scanned (kernel_table 0xff 0xff)" "two_disks (kernel_table 0xff 0xff)" "0x81"]
    unfolding f scanned_fields(2) by blast
  have "phys s' (0x20000 + of_nat (512 * 1 + 450)) = 0x20"
    using b [rule_format, of 450] by (simp add: two_disks_def kernel_table_def)
  then show ?thesis using s' by blast
qed

end
