(* ===== verification/Start.thy ===== *)
theory Start
  imports Paging Port_IO
begin

text \<open>
  The start of the kernel before C, \<open>boot/start.S\<close>: the size of the memory from the BIOS, the
  A20 line, the temporary page tables that hold until \<open>kernel_pg_dir_init\<close>, and the first
  interrupt table. The memory services of the BIOS are parameters: the value of \<open>eax\<close> after
  function 88h, and for function e820h the descriptor and the next \<open>ebx\<close> of each \<open>ebx\<close>.
  The whole of \<open>start\<close>, with the switch to protected mode, is in \<open>Start_Mode\<close>.
\<close>

section \<open>Memory size\<close>

definition pages_from_88h :: "u32 \<Rightarrow> u32" where
  "pages_from_88h eax =
     (let eax = eax + 1024;
          eax = (if eax \<le> 0x10000 then eax else 0x10000)
      in drop_bit 2 eax)"

record e820_entry =
  base_low :: u32
  base_high :: u32
  length_low :: u32
  length_high :: u32
  region_type :: u32

type_synonym e820 = "u32 \<Rightarrow> e820_entry \<times> u32"

text \<open>
  Printing the end of the line clears \<open>bh\<close> (\<open>write_char_to_screen\<close>), which is part of the value that
  is given back to the BIOS.
\<close>

definition scan_goes_on :: "e820_entry \<Rightarrow> bool" where
  "scan_goes_on d \<longleftrightarrow> base_low d < 0x100000 \<or> region_type d \<noteq> 1 \<or> length_low d \<le> 0x100000 * 63"

partial_function (option) e820_loop :: "e820 \<Rightarrow> u32 \<Rightarrow> u32 \<Rightarrow> u32 option" where
  "e820_loop bios ebx init_ram_pages =
     (let (d, ebx) = bios ebx;
          ebx = ebx AND 0xffff00ff
      in if scan_goes_on d then (if ebx \<noteq> 0 then e820_loop bios ebx init_ram_pages else Some init_ram_pages)
         else Some (drop_bit 12 (length_low d + 0x100000)))"

definition detect_memory :: "u32 \<Rightarrow> e820 \<Rightarrow> u32 option" where
  "detect_memory eax bios = e820_loop bios 0 (pages_from_88h eax)"

section \<open>The A20 line\<close>

partial_function (option) a20_poll :: "device \<Rightarrow> history \<Rightarrow> history option" where
  "a20_poll dev h = (let (al, h) = inb dev 0x64 h in if al AND 2 \<noteq> 0 then a20_poll dev h else Some h)"

definition enable_a20 :: "device \<Rightarrow> history \<Rightarrow> history option" where
  "enable_a20 dev h =
     Option.bind (a20_poll dev h) (\<lambda>h.
     Option.bind (a20_poll dev (outb 0x64 0xd1 h)) (\<lambda>h.
     a20_poll dev (outb 0x60 0xdf h)))"

section \<open>Temporary page tables\<close>

text \<open>A store in real mode through a segment, which ends at 64 kB: above it the processor faults.\<close>

definition es_store :: "u16 \<Rightarrow> u32 \<Rightarrow> u32 \<Rightarrow> memory \<Rightarrow> memory option" where
  "es_store es edi eax m = (if edi \<le> 0xfffc then Some (store32 (push_bit 4 (ucast es) + edi) eax m) else None)"

fun rep_stosl :: "nat \<Rightarrow> u16 \<Rightarrow> u32 \<Rightarrow> u32 \<Rightarrow> memory \<Rightarrow> memory option" where
  "rep_stosl 0 es edi eax m = Some m"
| "rep_stosl (Suc cx) es edi eax m = Option.bind (es_store es edi eax m) (rep_stosl cx es (edi + 4) eax)"

fun pde_loop :: "nat \<Rightarrow> u32 \<Rightarrow> u32 \<Rightarrow> memory \<Rightarrow> memory option" where
  "pde_loop 0 edi eax m = Some m"
| "pde_loop (Suc cx) edi eax m =
     Option.bind (es_store 0xf00 edi eax m) (\<lambda>m.
     Option.bind (es_store 0xf00 (0xc00 + edi) eax m) (pde_loop cx (edi + 4) (eax + 0x1000)))"

fun pte_loop :: "nat \<Rightarrow> u32 \<Rightarrow> u32 \<Rightarrow> memory \<Rightarrow> memory option" where
  "pte_loop 0 edi eax m = Some m"
| "pte_loop (Suc cx) edi eax m = Option.bind (es_store 0x1000 edi eax m) (pte_loop cx (edi + 4) (eax + 0x1000))"

text \<open>\<open>loop\<close> counts in \<open>cx\<close> and decrements first.\<close>

definition turns :: "u32 \<Rightarrow> nat" where
  "turns ecx = (if ucast ecx = (0 :: u16) then 65536 else unat (ucast ecx :: u16))"

definition temporary_tables :: "u32 \<Rightarrow> memory \<Rightarrow> memory option" where
  "temporary_tables init_ram_pages m =
     (let ecx = drop_bit 10 init_ram_pages;
          ecx = (if ecx \<le> 0x10 then ecx else 0x10)
      in Option.bind (rep_stosl 1024 0xf00 0 0 m) (\<lambda>m.
         Option.bind (pde_loop (turns ecx) 0 0x00010007 m)
         (pte_loop (turns 0x4000) 0 0x007)))"

section \<open>The first interrupt table\<close>

fun idt_loop :: "nat \<Rightarrow> u32 \<Rightarrow> u32 \<Rightarrow> u32 \<Rightarrow> memory \<Rightarrow> memory" where
  "idt_loop 0 edi eax edx m = m"
| "idt_loop (Suc ecx) edi eax edx m = idt_loop ecx (edi + 8) eax edx (store32 (edi + 4) edx (store32 edi eax m))"

definition set_init_idt :: "u32 \<Rightarrow> u32 \<Rightarrow> memory \<Rightarrow> memory" where
  "set_init_idt idt_start unknown_isr m =
     (let eax = push_bit 16 0x08 OR (unknown_isr AND 0xffff);
          edx = (unknown_isr AND 0xffff0000) OR 0x8e00
      in idt_loop 256 idt_start eax edx m)"

section \<open>Words of memory\<close>

definition slot :: "memory \<Rightarrow> nat \<Rightarrow> u32" where
  "slot m k = load32 m (4 * of_nat k)"

lemma unat_slot: "k < 1073741824 \<Longrightarrow> unat (4 * of_nat k :: u32) = 4 * k"
  by (simp add: unat_word_ariths unat_of_nat)

lemma slot_store:
  assumes "j < 1073741824" "k < 1073741824"
  shows "slot (store32 (4 * of_nat k) v m) j = (if j = k then v else slot m j)"
proof (cases "j = k")
  case False
  then have "apart (4 * of_nat k) (4 * of_nat j)"
    using assms by (auto simp: apart_def unat_slot)
  then show ?thesis using False assms by (simp add: slot_def load32_store32_other unat_slot)
qed (simp add: slot_def)

text \<open>A store through \<open>es\<close> at a word's offset.\<close>

lemma es_store_slot:
  assumes "i < 16384"
  shows "es_store es (of_nat (4 * i)) v m = Some (store32 (4 * of_nat (4 * unat es + i)) v m)"
proof -
  have "push_bit 4 (ucast es) = (of_nat (16 * unat es) :: u32)"
    by (simp add: push_bit_eq_mult word_unat_eq_iff unat_word_ariths unsigned_ucast_eq take_bit_eq_mod mult.commute)
  then have "push_bit 4 (ucast es) + of_nat (4 * i) = (4 * of_nat (4 * unat es + i) :: u32)" by simp
  moreover have "(of_nat (4 * i) :: u32) \<le> 0xfffc"
    using assms by (simp add: word_le_nat_alt unat_slot)
  ultimately show ?thesis by (simp add: es_store_def)
qed

lemma rep_stosl_slots:
  assumes "i + n \<le> 16384"
  obtains m' where "rep_stosl n es (of_nat (4 * i)) v m = Some m'"
    "\<forall>j<1073741824. slot m' j = (if 4 * unat es + i \<le> j \<and> j < 4 * unat es + i + n then v else slot m j)"
  using assms
proof (induction n arbitrary: i m thesis)
  case (Suc n)
  let ?m = "store32 (4 * of_nat (4 * unat es + i)) v m"
  have l: "Suc i + n \<le> 16384" using Suc.prems(2) by simp
  obtain m' where m': "rep_stosl n es (of_nat (4 * Suc i)) v ?m = Some m'"
    "\<forall>j<1073741824. slot m' j = (if 4 * unat es + Suc i \<le> j \<and> j < 4 * unat es + Suc i + n then v else slot ?m j)"
    by (rule Suc.IH [OF _ l])
  have es: "4 * unat es + i < 1073741824" using Suc.prems(2) unsigned_less [of es, where 'a = nat] by simp
  show ?case
  proof (rule Suc.prems(1))
    show "rep_stosl (Suc n) es (of_nat (4 * i)) v m = Some m'"
      using m'(1) es_store_slot [of i es v m] Suc.prems(2) by (simp add: algebra_simps)
    show "\<forall>j<1073741824. slot m' j = (if 4 * unat es + i \<le> j \<and> j < 4 * unat es + i + Suc n then v else slot m j)"
      using m'(2) es slot_store [OF _ es, of _ v m] by auto
  qed
next
  case 0
  then show ?case by (intro 0(1)) auto
qed

text \<open>Ascending entries from a place on, as the loops write them: each turn puts the first.\<close>

definition ramp :: "nat \<Rightarrow> nat \<Rightarrow> u32 \<Rightarrow> (nat \<Rightarrow> u32) \<Rightarrow> nat \<Rightarrow> u32" where
  "ramp b n v f j = (if b \<le> j \<and> j < b + n then v + 0x1000 * of_nat (j - b) else f j)"

lemma ramp_0 [simp]: "ramp b 0 v f = f"
  by (rule ext) (auto simp: ramp_def)

lemma ramp_Suc: "ramp b (Suc n) v f = ramp (Suc b) n (v + 0x1000) (f(b := v))"
proof
  fix j
  have "j - b = Suc (j - Suc b)" if "Suc b \<le> j" using that by simp
  then show "ramp b (Suc n) v f j = ramp (Suc b) n (v + 0x1000) (f(b := v)) j"
    by (auto simp: ramp_def algebra_simps)
qed

lemma ramp_upd: "j < b \<Longrightarrow> ramp b n v (f(j := w)) = (ramp b n v f)(j := w)"
  by (auto simp: ramp_def fun_eq_iff)

lemma ramp_cong: "\<forall>j<1073741824. f j = g j \<Longrightarrow> j < 1073741824 \<Longrightarrow> ramp b n v f j = ramp b n v g j"
  by (simp add: ramp_def)

lemma slot_stored:
  "k < 1073741824 \<Longrightarrow> j < 1073741824 \<Longrightarrow> slot (store32 (4 * of_nat k) v m) j = ((slot m)(k := v)) j"
  by (simp add: slot_store)

lemma next_offset: "of_nat (4 * i) + 4 = (of_nat (4 * Suc i) :: u32)"
  by simp

lemma pte_loop_slots:
  assumes "i + n \<le> 16384"
  obtains m' where "pte_loop n (of_nat (4 * i)) v m = Some m'"
    "\<forall>j<1073741824. slot m' j = ramp (16384 + i) n v (slot m) j"
  using assms
proof (induction n arbitrary: i v m thesis)
  case (Suc n)
  let ?m = "store32 (4 * of_nat (16384 + i)) v m"
  have l: "Suc i + n \<le> 16384" using Suc.prems(2) by simp
  obtain m' where m': "pte_loop n (of_nat (4 * Suc i)) (v + 0x1000) ?m = Some m'"
    "\<forall>j<1073741824. slot m' j = ramp (16384 + Suc i) n (v + 0x1000) (slot ?m) j"
    by (rule Suc.IH [OF _ l])
  have "es_store 0x1000 (of_nat (4 * i)) v m = Some ?m"
    using es_store_slot [of i "0x1000" v m] Suc.prems(2) by simp
  then have "pte_loop (Suc n) (of_nat (4 * i)) v m = Some m'"
    using m'(1) by (simp only: pte_loop.simps bind.bind_lunit next_offset)
  moreover have "\<forall>j<1073741824. slot ?m j = ((slot m)(16384 + i := v)) j"
    using Suc.prems(2) by (intro allI impI slot_stored) simp_all
  then have "\<forall>j<1073741824. slot m' j = ramp (16384 + i) (Suc n) v (slot m) j"
    using m'(2) ramp_cong [of "slot ?m"] by (simp add: ramp_Suc)
  ultimately show ?case by (rule Suc.prems(1))
next
  case 0
  then show ?case by (intro 0(1)) auto
qed

text \<open>Each turn writes an entry for the memory as it is and one for 3 GB up.\<close>

lemma pde_loop_slots:
  assumes "i + n \<le> 256"
  obtains m' where "pde_loop n (of_nat (4 * i)) v m = Some m'"
    "\<forall>j<1073741824. slot m' j = ramp (15360 + i) n v (ramp (16128 + i) n v (slot m)) j"
  using assms
proof (induction n arbitrary: i v m thesis)
  case 0
  then show ?case by (intro 0(1)) auto
next
  case (Suc n)
  let ?lo = "store32 (4 * of_nat (15360 + i)) v m"
  let ?m = "store32 (4 * of_nat (16128 + i)) v ?lo"
  have l: "Suc i + n \<le> 256" using Suc.prems(2) by simp
  obtain m' where m': "pde_loop n (of_nat (4 * Suc i)) (v + 0x1000) ?m = Some m'"
    "\<forall>j<1073741824. slot m' j =
      ramp (15360 + Suc i) n (v + 0x1000) (ramp (16128 + Suc i) n (v + 0x1000) (slot ?m)) j"
    by (rule Suc.IH [OF _ l])
  have "es_store 0xf00 (of_nat (4 * i)) v m = Some ?lo"
    using es_store_slot [of i "0xf00" v m] Suc.prems(2) by simp
  moreover have "es_store 0xf00 (0xc00 + of_nat (4 * i)) v ?lo = Some ?m"
    using es_store_slot [of "768 + i" "0xf00" v ?lo] Suc.prems(2) by simp
  ultimately have run: "pde_loop (Suc n) (of_nat (4 * i)) v m = Some m'"
    using m'(1) by (simp only: pde_loop.simps bind.bind_lunit next_offset)
  have at: "15360 + i < 1073741824" "16128 + i < 1073741824" using Suc.prems(2) by simp_all
  have s: "\<forall>j<1073741824. slot ?m j = ((slot m)(15360 + i := v, 16128 + i := v)) j"
  proof (intro allI impI)
    fix j :: nat assume j: "j < 1073741824"
    show "slot ?m j = ((slot m)(15360 + i := v, 16128 + i := v)) j"
      unfolding slot_stored [OF at(2) j] fun_upd_apply slot_stored [OF at(1) j] by (rule refl)
  qed
  have "slot m' j = ramp (15360 + i) (Suc n) v (ramp (16128 + i) (Suc n) v (slot m)) j" if "j < 1073741824" for j
  proof -
    have "(slot m)(15360 + i := v, 16128 + i := v) = (slot m)(16128 + i := v, 15360 + i := v)" by (auto simp: fun_eq_iff)
    then have "ramp (15360 + i) (Suc n) v (ramp (16128 + i) (Suc n) v (slot m)) =
        ramp (Suc (15360 + i)) n (v + 0x1000) (ramp (Suc (16128 + i)) n (v + 0x1000) ((slot m)(15360 + i := v, 16128 + i := v)))"
      by (simp add: ramp_Suc ramp_upd)
    moreover have "ramp (Suc (15360 + i)) n (v + 0x1000) (ramp (Suc (16128 + i)) n (v + 0x1000) (slot ?m)) j =
        ramp (Suc (15360 + i)) n (v + 0x1000) (ramp (Suc (16128 + i)) n (v + 0x1000) ((slot m)(15360 + i := v, 16128 + i := v))) j"
      by (rule ramp_cong [OF _ that]) (intro allI impI ramp_cong [OF s])
    ultimately show ?thesis using m'(2) [rule_format, OF that] by (simp only: add_Suc_right)
  qed
  then have "\<forall>j<1073741824. slot m' j = ramp (15360 + i) (Suc n) v (ramp (16128 + i) (Suc n) v (slot m)) j" by blast
  with run show ?case by (rule Suc.prems(1))
qed

definition tables_mapped :: "u32 \<Rightarrow> nat" where
  "tables_mapped ram_pages = min (unat ram_pages div 1024) 16"

lemma turns_of:
  assumes "0 < n" "n < 65536"
  shows "turns (of_nat n) = n"
proof -
  have "unat (ucast (of_nat n :: u32) :: u16) = n"
    using assms(2) by (simp add: unsigned_ucast_eq take_bit_eq_mod unat_of_nat)
  then show ?thesis using assms(1) by (auto simp: turns_def)
qed

lemma temporary_tables_slots:
  assumes "1024 \<le> ram_pages"
  obtains m' where "temporary_tables ram_pages m = Some m'"
    "\<forall>j<1073741824. slot m' j =
      (if 16384 \<le> j \<and> j < 32768 then 0x007 + 0x1000 * of_nat (j - 16384)
       else if 15360 \<le> j \<and> j < 15360 + tables_mapped ram_pages then 0x10007 + 0x1000 * of_nat (j - 15360)
       else if 16128 \<le> j \<and> j < 16128 + tables_mapped ram_pages then 0x10007 + 0x1000 * of_nat (j - 16128)
       else if 15360 \<le> j \<and> j < 16384 then 0
       else slot m j)"
proof -
  let ?n = "tables_mapped ram_pages"
  have n: "0 < ?n" "?n \<le> 16" using assms by (simp_all add: tables_mapped_def word_le_nat_alt)
  define ecx where "ecx = drop_bit 10 ram_pages"
  have "unat ecx = unat ram_pages div 1024" by (simp add: ecx_def unat_drop)
  then have "unat (if ecx \<le> 0x10 then ecx else 0x10) = ?n" by (simp add: tables_mapped_def word_le_nat_alt min_def)
  then have "(if ecx \<le> 0x10 then ecx else 0x10) = of_nat ?n" using n by (simp add: word_unat_eq_iff unat_of_nat32)
  then have turns: "turns (if ecx \<le> 0x10 then ecx else 0x10) = ?n" "turns 0x4000 = 16384"
    using turns_of [of ?n] turns_of [of 16384] n by simp_all
  obtain m1 where m1: "rep_stosl 1024 0xf00 (of_nat (4 * 0)) 0 m = Some m1"
    "\<forall>j<1073741824. slot m1 j = (if 4 * unat (0xf00 :: u16) + 0 \<le> j \<and> j < 4 * unat (0xf00 :: u16) + 0 + 1024 then 0 else slot m j)"
    by (rule rep_stosl_slots [of 0 1024]) simp
  obtain m2 where m2: "pde_loop ?n (of_nat (4 * 0)) 0x10007 m1 = Some m2"
    "\<forall>j<1073741824. slot m2 j = ramp (15360 + 0) ?n 0x10007 (ramp (16128 + 0) ?n 0x10007 (slot m1)) j"
    by (rule pde_loop_slots [of 0 ?n]) (use n in simp)
  obtain m3 where m3: "pte_loop 16384 (of_nat (4 * 0)) 0x007 m2 = Some m3"
    "\<forall>j<1073741824. slot m3 j = ramp (16384 + 0) 16384 0x007 (slot m2) j"
    by (rule pte_loop_slots [of 0 16384]) simp
  show ?thesis
  proof
    show "temporary_tables ram_pages m = Some m3"
      using m1(1) m2(1) m3(1) turns by (simp add: temporary_tables_def ecx_def [symmetric] Let_def del: rep_stosl.simps pde_loop.simps pte_loop.simps)
    show "\<forall>j<1073741824. slot m3 j =
      (if 16384 \<le> j \<and> j < 32768 then 0x007 + 0x1000 * of_nat (j - 16384)
       else if 15360 \<le> j \<and> j < 15360 + ?n then 0x10007 + 0x1000 * of_nat (j - 15360)
       else if 16128 \<le> j \<and> j < 16128 + ?n then 0x10007 + 0x1000 * of_nat (j - 16128)
       else if 15360 \<le> j \<and> j < 16384 then 0
       else slot m j)"
      using m1(2) m2(2) m3(2) by (simp add: ramp_def)
  qed
qed

section \<open>What the tables map\<close>

text \<open>The physical memory as the kernel sees it at 3 GB.\<close>

definition linear :: "memory \<Rightarrow> memory" where
  "linear m = (\<lambda>v. m (vtop v))"

lemma entry_linear:
  assumes "i < 1024" "b < 1048576"
  shows "entry (linear m) (ptov (of_nat (4096 * b))) i = slot m (1024 * b + i)"
  by (simp add: entry_def entry_addr_def slot_def load32_def linear_def vtop_def ptov_def algebra_simps)

lemma page_word:
  fixes w :: u32
  assumes "take_bit 12 w = 0"
  shows "(w + 7) AND NOT (mask 12) = w" "bit (w + 7) 0" "bit (w + 7) 1" "bit (w + 7) 2"
proof -
  have b: "\<not> bit w i" if "i < 12" for i
  proof -
    have "\<not> bit (take_bit 12 w) i" using assms by simp
    then show ?thesis using that by (simp add: bit_take_bit_iff)
  qed
  have s: "(7 :: u32) = mask 3" by (simp add: mask_eq_exp_minus_1)
  have "w AND 7 = 0" unfolding s by (rule bit_word_eqI) (use b in \<open>auto simp: bit_simps\<close>)
  then have o: "w + 7 = w OR mask 3" unfolding s by (rule disjunctive_add_eq_or)
  show "(w + 7) AND NOT (mask 12) = w"
    unfolding o by (rule bit_word_eqI) (use b in \<open>auto simp: bit_simps not_less [symmetric]\<close>)
  show "bit (w + 7) 0" "bit (w + 7) 1" "bit (w + 7) 2"
    unfolding o by (simp_all add: bit_simps)
qed

lemma take_bit_page: "take_bit 12 (of_nat (4096 * q) :: u32) = 0"
proof -
  have "(of_nat (4096 * q) :: u32) = push_bit 12 (of_nat q)" by (simp add: push_bit_eq_mult)
  then show ?thesis by (simp only:) (rule bit_word_eqI, auto simp: bit_simps)
qed

lemma and_take_bit_page: "w AND take_bit 12 a = take_bit 12 w AND (a :: u32)"
  by (rule bit_word_eqI) (auto simp: bit_simps)

lemma page_and_offset:
  fixes a :: u32
  shows "of_nat (4096 * (unat a div 4096)) OR take_bit 12 a = a"
proof -
  let ?w = "of_nat (4096 * (unat a div 4096)) :: u32"
  have t: "take_bit 12 a = of_nat (unat a mod 4096)"
    by (simp add: word_unat_eq_iff unat_take unat_of_nat32)
  have w: "take_bit 12 ?w = 0" by (rule take_bit_page)
  have "?w AND take_bit 12 a = 0" using w by (simp only: and_take_bit_page) simp
  then have "?w OR take_bit 12 a = ?w + take_bit 12 a" by (simp add: disjunctive_add_eq_or)
  also have "\<dots> = of_nat (4096 * (unat a div 4096) + unat a mod 4096)" unfolding t by (rule of_nat_add [symmetric])
  also have "\<dots> = a" by simp
  finally show ?thesis .
qed

lemma walk_slots:
  assumes slots: "\<forall>j<1073741824. 16384 \<le> j \<and> j < 32768 \<longrightarrow> slot m j = 0x007 + 0x1000 * of_nat (j - 16384)"
    and pde: "slot m (15360 + unat v div 4194304) = 0x10007 + 0x1000 * of_nat j" "j < 16"
  shows "walk (linear m) 0xf000 v = Some (of_nat (4096 * (1024 * j + unat v div 4096 mod 1024)) OR take_bit 12 v, True, True)"
proof -
  let ?i = "unat v div 4194304" and ?mid = "unat v div 4096 mod 1024"
  have i: "?i < 1024" using u32_lt [of v] by (simp add: less_mult_imp_div_less)
  have al: "aligned (ptov 0xf000)" by (simp add: aligned_def ptov_def)
  have dir: "entry (linear m) (ptov 0xf000) ?i = of_nat (4096 * (16 + j)) + 7"
    using entry_linear [OF i, of 15 m] pde(1) by (simp add: algebra_simps)
  note p = page_word [OF take_bit_page, of "16 + j"]
  have mid: "?mid < 1024" by simp
  have "entry (linear m) (ptov (of_nat (4096 * (16 + j)))) ?mid = slot m (1024 * (16 + j) + ?mid)"
    by (rule entry_linear) (use pde(2) in simp_all)
  also have "\<dots> = of_nat (4096 * (1024 * j + ?mid)) + 7"
  proof -
    have "1024 * (16 + j) + ?mid < 32768" "1024 * (16 + j) + ?mid - 16384 = 1024 * j + ?mid"
      using pde(2) mid by simp_all
    then show ?thesis using slots by simp
  qed
  finally have pte: "entry (linear m) (ptov (of_nat (4096 * (16 + j)))) ?mid = of_nat (4096 * (1024 * j + ?mid)) + 7" .
  note p' = page_word [OF take_bit_page, of "1024 * j + ?mid"]
  have "walk (linear m) (vtop (ptov 0xf000)) v = Some (of_nat (4096 * (1024 * j + ?mid)) OR take_bit 12 v, True, True)"
    unfolding walk_entries [OF al] dir Let_def p(1) pte p'(1)
    by (simp only: p p' not_True_eq_False if_False simp_thms)
  then show ?thesis by simp
qed

text \<open>The words of directory and tables that \<open>temporary_tables\<close> leaves, and the walk of an address by the region it lies in.\<close>

definition early_slots :: "nat \<Rightarrow> memory \<Rightarrow> bool" where
  "early_slots n m \<longleftrightarrow> n \<le> 16 \<and>
     (\<forall>j<1073741824. 16384 \<le> j \<and> j < 32768 \<longrightarrow> slot m j = 0x007 + 0x1000 * of_nat (j - 16384)) \<and>
     (\<forall>i<1024. slot m (15360 + i) =
        (if i < n then 0x10007 + 0x1000 * of_nat i
         else if 768 \<le> i \<and> i < 768 + n then 0x10007 + 0x1000 * of_nat (i - 768) else 0))"

lemma early_slots_pde: "early_slots n m \<Longrightarrow> i < 1024 \<Longrightarrow> slot m (15360 + i) =
    (if i < n then 0x10007 + 0x1000 * of_nat i
     else if 768 \<le> i \<and> i < 768 + n then 0x10007 + 0x1000 * of_nat (i - 768) else 0)"
  by (simp only: early_slots_def)

lemma table_index: "unat (v :: u32) div 4194304 < 1024"
  using u32_lt [of v] by (simp add: less_mult_imp_div_less)

lemma page_number: "unat (v :: u32) div 4096 = 1024 * (unat v div 4194304) + unat v div 4096 mod 1024"
  by (simp add: div_mult2_eq [of _ 4096 1024, simplified])

lemma early_walk_low:
  assumes E: "early_slots n m" and low: "unat v div 4194304 < n"
  shows "walk (linear m) 0xf000 v = Some (v, True, True)"
proof -
  have n: "n \<le> 16" and tables: "\<forall>j<1073741824. 16384 \<le> j \<and> j < 32768 \<longrightarrow> slot m j = 0x007 + 0x1000 * of_nat (j - 16384)"
    using E unfolding early_slots_def by blast+
  have "slot m (15360 + unat v div 4194304) = 0x10007 + 0x1000 * of_nat (unat v div 4194304)"
    using early_slots_pde [OF E table_index] low by simp
  from walk_slots [OF tables this] show ?thesis
    using low n page_and_offset [of v] by (simp add: page_number [symmetric])
qed

lemma early_walk_high:
  assumes E: "early_slots n m" and high: "768 \<le> unat v div 4194304" "unat v div 4194304 < 768 + n"
  shows "walk (linear m) 0xf000 v = Some (v - 0xC0000000, True, True)"
proof -
  let ?i = "unat v div 4194304" and ?mid = "unat v div 4096 mod 1024" and ?a = "v - 0xC0000000"
  have n: "n \<le> 16" and tables: "\<forall>j<1073741824. 16384 \<le> j \<and> j < 32768 \<longrightarrow> slot m j = 0x007 + 0x1000 * of_nat (j - 16384)"
    using E unfolding early_slots_def by blast+
  have lo: "3221225472 \<le> unat v" using high(1) by (simp add: less_eq_div_iff_mult_less_eq)
  have "slot m (15360 + ?i) = 0x10007 + 0x1000 * of_nat (?i - 768)"
    using early_slots_pde [OF E table_index] high n by simp
  from walk_slots [OF tables this]
  have w: "walk (linear m) 0xf000 v = Some (of_nat (4096 * (1024 * (?i - 768) + ?mid)) OR take_bit 12 v, True, True)"
    using high n by simp
  have "unat ?a = unat v - 3221225472" using lo by (subst unat_sub) (simp_all add: word_le_nat_alt)
  then have e: "unat v = unat ?a + 786432 * 4096" using lo by simp
  then have "unat v mod 4096 = unat ?a mod 4096" by (simp only: mod_mult_self1)
  then have "take_bit 12 ?a = take_bit 12 v" by (simp add: word_unat_eq_iff unat_take)
  moreover from e have "unat v div 4096 = 786432 + unat ?a div 4096" by (simp only: div_mult_self1)
  then have "unat ?a div 4096 = 1024 * (?i - 768) + ?mid" using page_number [of v] high(1) by linarith
  ultimately show ?thesis using w page_and_offset [of ?a] by simp
qed

lemma early_walk_none:
  assumes E: "early_slots n m" and none: "\<not> unat v div 4194304 < n"
    "\<not> (768 \<le> unat v div 4194304 \<and> unat v div 4194304 < 768 + n)"
  shows "walk (linear m) 0xf000 v = None"
proof -
  have al: "aligned (ptov 0xf000)" by (simp add: aligned_def ptov_def)
  have "slot m (15360 + unat v div 4194304) = 0"
    by (simp only: early_slots_pde [OF E table_index] none if_False)
  then have "entry (linear m) (ptov 0xf000) (unat v div 4194304) = 0" using entry_linear [OF table_index, of 15 m v] by simp
  then have "walk (linear m) (vtop (ptov 0xf000)) v = None" unfolding walk_entries [OF al] by simp
  then show ?thesis by simp
qed

lemma early_walk:
  assumes E: "early_slots n m"
  shows "walk (linear m) 0xf000 v =
    (let size = 0x400000 * n
     in if unat v < size then Some (v, True, True)
        else if 0xC0000000 \<le> unat v \<and> unat v < 0xC0000000 + size then Some (v - 0xC0000000, True, True)
        else None)"
proof -
  have n: "n \<le> 16" using E by (simp only: early_slots_def)
  have low: "unat v div 4194304 < n \<longleftrightarrow> unat v < 0x400000 * n" by (simp add: div_less_iff_less_mult mult.commute)
  have high: "768 \<le> unat v div 4194304 \<and> unat v div 4194304 < 768 + n \<longleftrightarrow>
      0xC0000000 \<le> unat v \<and> unat v < 0xC0000000 + 0x400000 * n"
    by (simp add: div_less_iff_less_mult less_eq_div_iff_mult_less_eq algebra_simps)
  show ?thesis
    unfolding Let_def low [symmetric] high [symmetric]
    using early_walk_low [OF E] early_walk_high [OF E] early_walk_none [OF E] by (cases "unat v div 4194304 < n") auto
qed

lemma early_tables:
  assumes "1024 \<le> ram_pages"
  obtains m' where "temporary_tables ram_pages m = Some m'" "early_slots (tables_mapped ram_pages) m'"
    "\<And>j. j < 1073741824 \<Longrightarrow> j < 15360 \<or> 32768 \<le> j \<Longrightarrow> slot m' j = slot m j"
proof -
  let ?n = "tables_mapped ram_pages"
  have n: "?n \<le> 16" by (simp add: tables_mapped_def)
  obtain m' where m': "temporary_tables ram_pages m = Some m'"
    and sl: "\<forall>j<1073741824. slot m' j =
      (if 16384 \<le> j \<and> j < 32768 then 0x007 + 0x1000 * of_nat (j - 16384)
       else if 15360 \<le> j \<and> j < 15360 + ?n then 0x10007 + 0x1000 * of_nat (j - 15360)
       else if 16128 \<le> j \<and> j < 16128 + ?n then 0x10007 + 0x1000 * of_nat (j - 16128)
       else if 15360 \<le> j \<and> j < 16384 then 0
       else slot m j)"
    by (rule temporary_tables_slots [OF assms])
  have "early_slots ?n m'"
    unfolding early_slots_def
  proof (intro conjI allI impI n)
    fix i :: nat assume "i < 1024"
    then show "slot m' (15360 + i) = (if i < ?n then 0x10007 + 0x1000 * of_nat i
        else if 768 \<le> i \<and> i < 768 + ?n then 0x10007 + 0x1000 * of_nat (i - 768) else 0)"
      using sl n by auto
  qed (use sl in simp)
  moreover have "slot m' j = slot m j" if "j < 1073741824" "j < 15360 \<or> 32768 \<le> j" for j
    using sl that n by auto
  ultimately show ?thesis using m' that by blast
qed

section \<open>The scan of the memory map\<close>

text \<open>A BIOS that keeps the index of the next entry in \<open>ebx\<close>, and zero behind the last.\<close>

definition e820_map :: "e820_entry list \<Rightarrow> e820" where
  "e820_map ds ebx = (ds ! unat ebx, if unat ebx + 1 < length ds then ebx + 1 else 0)"

definition e820_size :: "e820_entry list \<Rightarrow> u32 \<Rightarrow> u32" where
  "e820_size ds n = (case List.find (\<lambda>d. \<not> scan_goes_on d) ds of
     Some d \<Rightarrow> drop_bit 12 (length_low d + 0x100000) | None \<Rightarrow> n)"

lemma bh_clear: "(w :: u32) AND 0xffff00ff = w" if "unat w < 256"
proof -
  have m: "(0xffff00ff :: u32) = NOT (push_bit 8 (mask 8))" by (simp add: mask_eq_exp_minus_1)
  have "w = take_bit 8 w" using that by (simp add: word_unat_eq_iff unat_take)
  then have "\<not> bit w i" if "8 \<le> i" for i using that by (metis bit_take_bit_iff not_less)
  then show ?thesis unfolding m by (intro bit_word_eqI) (auto simp: bit_simps)
qed

lemma e820_loop_map:
  assumes "i < length ds" "length ds \<le> 256"
  shows "e820_loop (e820_map ds) (of_nat i) n = Some (e820_size (drop i ds) n)"
  using assms(1)
proof (induction "length ds - i" arbitrary: i)
  case (Suc k)
  have u: "unat (of_nat j :: u32) = j" if "j \<le> 256" for j using that by (simp add: unat_of_nat32)
  have d: "drop i ds = ds ! i # drop (Suc i) ds" using Suc.prems by (simp add: Cons_nth_drop_Suc)
  have e: "e820_map ds (of_nat i) = (ds ! i, if Suc i < length ds then of_nat (Suc i) else 0)"
    using u [of i] Suc.prems assms(2) by (simp add: e820_map_def add.commute)
  show ?case
  proof (cases "Suc i < length ds")
    case True
    then have n: "of_nat (Suc i) AND 0xffff00ff = (of_nat (Suc i) :: u32)" "(of_nat (Suc i) :: u32) \<noteq> 0"
      using u [of "Suc i"] assms(2) by (simp_all add: bh_clear word_unat_eq_iff del: of_nat_Suc)
    have "e820_loop (e820_map ds) (of_nat (Suc i)) n = Some (e820_size (drop (Suc i) ds) n)"
      using Suc.hyps(1) [of "Suc i"] Suc.hyps(2) True by simp
    then show ?thesis
      using True n by (subst e820_loop.simps) (simp add: e d e820_size_def del: of_nat_Suc)
  next
    case False
    then show ?thesis by (subst e820_loop.simps) (simp add: e d e820_size_def)
  qed
qed simp

text \<open>A continuation value that is a multiple of 256 below 65536 is lost.\<close>

lemma e820_continuation_lost:
  assumes "bios 0 = (d, ebx)" "ebx AND 0xffff00ff = 0" "scan_goes_on d"
  shows "detect_memory eax bios = Some (pages_from_88h eax)"
  using assms by (simp add: detect_memory_def e820_loop.simps [of bios 0])

text \<open>Without 4 MB of memory the count is zero, and the loop runs out of the segment.\<close>

lemma pde_loop_faults:
  assumes "i \<le> 15616" "15616 < i + n"
  shows "pde_loop n (of_nat (4 * i)) v m = None"
  using assms
proof (induction n arbitrary: i v m)
  case (Suc n)
  have lo: "es_store 0xf00 (of_nat (4 * i)) v m = Some (store32 (4 * of_nat (15360 + i)) v m)"
    using es_store_slot [of i "0xf00" v m] Suc.prems by simp
  show ?case
  proof (cases "i = 15616")
    case True
    then have "es_store 0xf00 (0xc00 + of_nat (4 * i)) v m' = None" for m' by (simp add: es_store_def)
    then show ?thesis using lo by simp
  next
    case False
    have "pde_loop n (of_nat (4 * Suc i)) w m' = None" for w m' using Suc.IH [of "Suc i"] Suc.prems False by simp
    moreover have "of_nat (4 * i) + 4 = (of_nat (4 * Suc i) :: u32)" by simp
    ultimately show ?thesis using lo by (simp only: pde_loop.simps bind.bind_lunit) (cases "es_store 0xf00 (0xc00 + of_nat (4 * i)) v (store32 (4 * of_nat (15360 + i)) v m)"; simp)
  qed
qed simp

lemma temporary_tables_fault:
  assumes "ram_pages < 1024"
  shows "temporary_tables ram_pages m = None"
proof -
  have e: "drop_bit 10 ram_pages = 0"
    using assms by (simp add: word_unat_eq_iff unat_drop word_less_nat_alt)
  have t: "turns 0 = 65536" by (simp add: turns_def)
  have p: "pde_loop 65536 0 0x10007 m' = None" for m'
    using pde_loop_faults [of 0 65536 "0x10007" m'] by simp
  show ?thesis unfolding temporary_tables_def e Let_def by (cases "rep_stosl 1024 0xf00 0 0 m") (simp_all add: t p)
qed

section \<open>The first gates\<close>

lemma idt_loop_other: "8 * n \<le> unat (x - edi) \<Longrightarrow> idt_loop n edi eax edx m x = m x"
proof (induction n arbitrary: edi m)
  case (Suc n)
  have "unat (x - (edi + 8)) = unat (x - edi) - 8"
  proof -
    have "x - (edi + 8) = (x - edi) - 8" by simp
    then show ?thesis using Suc.prems by (simp only:) (subst unat_sub, simp_all add: word_le_nat_alt)
  qed
  then have "8 * n \<le> unat (x - (edi + 8))" using Suc.prems by simp
  moreover have "x \<noteq> edi + of_nat k" if "k < 8" for k
  proof
    assume "x = edi + of_nat k"
    then have "unat (x - edi) = k" using that by (simp add: unat_of_nat32)
    then show False using Suc.prems that by simp
  qed
  note b = this [of 0] this [of 1] this [of 2] this [of 3] this [of 4] this [of 5] this [of 6] this [of 7]
  ultimately show ?case using Suc.IH b by (simp add: store32_def add.commute)
qed simp

lemma idt_loop_gates:
  assumes "i < n" "n \<le> 256"
  shows "load32 (idt_loop n edi eax edx m) (edi + of_nat (8 * i)) = eax \<and>
    load32 (idt_loop n edi eax edx m) (edi + of_nat (8 * i) + 4) = edx"
  using assms
proof (induction n arbitrary: i edi m)
  case (Suc n)
  let ?m = "store32 (edi + 4) edx (store32 edi eax m)"
  show ?case
  proof (cases i)
    case 0
    have "idt_loop n (edi + 8) eax edx ?m (edi + c) = ?m (edi + c)" if "c \<in> {0, 1, 2, 3, 4, 5, 6, 7}" for c
      using that Suc.prems(2) by (intro idt_loop_other) (auto simp: unsigned_minus_1_eq_mask mask_eq_exp_minus_1)
    from this [of 0] this [of 1] this [of 2] this [of 3] this [of 4] this [of 5] this [of 6] this [of 7]
    have "load32 (idt_loop n (edi + 8) eax edx ?m) edi = load32 ?m edi"
      "load32 (idt_loop n (edi + 8) eax edx ?m) (edi + 4) = load32 ?m (edi + 4)"
      by (intro load32_cong; simp add: add.assoc)+
    then show ?thesis using 0 by (simp add: load_sep)
  next
    case (Suc j)
    have "edi + of_nat (8 * i) = edi + 8 + of_nat (8 * j)" using Suc by simp
    moreover have "j < n" "n \<le> 256" using Suc.prems Suc by simp_all
    ultimately show ?thesis
      using Suc.IH [of j "edi + 8" ?m] by (simp only: idt_loop.simps simp_thms)
  qed
qed simp

text \<open>Until \<open>init_interrupt\<close> every gate of the table leads to \<open>unknown_isr\<close>, with interrupts off.\<close>

lemma set_init_idt_gates:
  assumes "i < 256"
  shows "let lower = load32 (set_init_idt idt_start unknown_isr m) (idt_start + of_nat (8 * i));
             upper = load32 (set_init_idt idt_start unknown_isr m) (idt_start + of_nat (8 * i) + 4)
         in (lower AND 0xffff) OR (upper AND 0xffff0000) = unknown_isr \<and> drop_bit 16 lower = 0x08 \<and> upper AND 0xffff = 0x8e00"
proof -
  have m: "(0xffff :: u32) = mask 16" "(0xffff0000 :: u32) = push_bit 16 (mask 16)" by (simp_all add: mask_eq_exp_minus_1)
  have c: "take_bit 16 (0x8e00 :: u32) = 0x8e00" "take_bit 16 (push_bit 16 0x08 :: u32) = 0" "drop_bit 16 (push_bit 16 0x08 :: u32) = 0x08"
    "(0x8e00 :: u32) AND push_bit 16 (mask 16) = 0" "drop_bit 16 (0x8e00 :: u32) = 0"
    by (simp_all add: mask_eq_exp_minus_1 push_bit_eq_mult)
  have a: "(w AND mask 16) OR (w AND push_bit 16 (mask 16)) = w" for w :: u32
    by (rule bit_word_eqI) (auto simp: bit_simps)
  have b: "((x OR (w AND mask 16)) AND mask 16) = take_bit 16 x OR (w AND mask 16)"
    "((w AND push_bit 16 (mask 16)) OR x) AND push_bit 16 (mask 16) = (w AND push_bit 16 (mask 16)) OR (x AND push_bit 16 (mask 16))"
    "drop_bit 16 (x OR (w AND mask 16)) = drop_bit 16 x"
    "((w AND push_bit 16 (mask 16)) OR x) AND mask 16 = take_bit 16 x" for x w :: u32
    by (rule bit_word_eqI; auto simp: bit_simps)+
  show ?thesis
    using idt_loop_gates [OF assms, of idt_start _ _ m]
    unfolding set_init_idt_def Let_def m by (simp only: b c a or.left_neutral or.right_neutral simp_thms)
qed

section \<open>Properties\<close>


text \<open>
  The temporary page tables: with at least 4 MB of memory the real mode code builds them without
  a fault, and they translate the memory they cover (the first 64 MB, or all of it in units of
  4 MB) both at its physical addresses and from 3 GB on, and map nothing else.
\<close>

theorem early_mapping:
  assumes "1024 \<le> ram_pages"
  shows "\<exists>m'. temporary_tables ram_pages m = Some m' \<and>
    (\<forall>v. walk (linear m') 0xf000 v =
      (let size = 0x400000 * tables_mapped ram_pages
       in if unat v < size then Some (v, True, True)
          else if 0xC0000000 \<le> unat v \<and> unat v < 0xC0000000 + size then Some (v - 0xC0000000, True, True)
          else None))"
proof -
  obtain m' where m': "temporary_tables ram_pages m = Some m'" "early_slots (tables_mapped ram_pages) m'"
    by (rule early_tables [OF assms])
  then show ?thesis using early_walk [OF m'(2)] by blast
qed

section \<open>A machine of 128 MB\<close>

definition map_128m :: "e820_entry list" where
  "map_128m =
     [\<lparr>base_low = 0, base_high = 0, length_low = 0x9fc00, length_high = 0, region_type = 1\<rparr>,
      \<lparr>base_low = 0xf0000, base_high = 0, length_low = 0x10000, length_high = 0, region_type = 2\<rparr>,
      \<lparr>base_low = 0x100000, base_high = 0, length_low = 0x7ee0000, length_high = 0, region_type = 1\<rparr>]"


theorem early_mapping_witness:
  "\<exists>m'. temporary_tables 0x7fe0 (\<lambda>_. 0) = Some m' \<and>
    walk (linear m') 0xf000 0xC0020123 = Some (0x20123, True, True) \<and> walk (linear m') 0xf000 0x4000000 = None"
proof -
  have n: "tables_mapped 0x7fe0 = 16" by (simp add: tables_mapped_def)
  obtain m' where m': "temporary_tables 0x7fe0 (\<lambda>_. 0) = Some m'"
    and w: "\<forall>v. walk (linear m') 0xf000 v =
      (let size = 0x400000 * tables_mapped 0x7fe0
       in if unat v < size then Some (v, True, True)
          else if 0xC0000000 \<le> unat v \<and> unat v < 0xC0000000 + size then Some (v - 0xC0000000, True, True)
          else None)"
    using early_mapping [of "0x7fe0" "\<lambda>_. 0"] by auto
  have "walk (linear m') 0xf000 0xC0020123 = Some (0x20123, True, True)" "walk (linear m') 0xf000 0x4000000 = None"
    unfolding w [rule_format] n by (simp_all add: Let_def)
  then show ?thesis using m' by blast
qed

end
