(* ===== verification/Start_Mode.thy ===== *)
theory Start_Mode
  imports Start Isr_Stubs
begin

text \<open>
  The rest of \<open>boot/start.S\<close>: the whole of \<open>start\<close> from the loader's jump to the call of
  \<open>main\<close>, with the control, descriptor table and segment registers it sets; the printing of the memory
  map; and \<open>unknown_isr\<close>, to which every vector leads until \<open>init_interrupt\<close>.

  The meaning of descriptors, of the loads of segment registers and of paging is the processor's
  documentation. Real mode memory is physical; from the switch on it is what the kernel sees at
  3 GB, and each access is checked against the page tables.
\<close>

section \<open>Segments\<close>

record segment =
  seg_base :: u32
  seg_limit :: u32
  seg_access :: u8
  seg_32bit :: bool

definition descriptor :: "u32 \<Rightarrow> u32 \<Rightarrow> segment" where
  "descriptor lower upper =
     \<lparr>seg_base = drop_bit 16 lower OR push_bit 16 (upper AND 0xff) OR (upper AND 0xff000000),
      seg_limit = (let l = (lower AND 0xffff) OR (upper AND 0xf0000) in if bit upper 23 then push_bit 12 l OR 0xfff else l),
      seg_access = ucast (drop_bit 8 upper),
      seg_32bit = bit upper 22\<rparr>"

text \<open>The contents of \<open>gdt_start\<close>.\<close>

definition gdt :: "64 word list" where
  "gdt = [0, 0x00cf9a000000ffff, 0x00cf92000000ffff]"

text \<open>A read of an aligned word through the page tables.\<close>

definition read_word :: "u32 \<Rightarrow> memory \<Rightarrow> u32 \<Rightarrow> u32 option" where
  "read_word cr3 m a = map_option (\<lambda>(p, _, _). load32 m (ptov p)) (walk m cr3 a)"

text \<open>
  A segment register of privilege 0 is loaded from a present descriptor within the limit of the table;
  the code segment must be executable, the stack's writable, which is what is asked of all data segments here.
\<close>

definition load_segment :: "u16 \<times> u32 \<Rightarrow> u32 \<Rightarrow> memory \<Rightarrow> bool \<Rightarrow> u16 \<Rightarrow> (u16 \<times> segment) option" where
  "load_segment gdtr cr3 m code sel =
     (let a = snd gdtr + ucast (sel AND 0xfff8)
      in if fst gdtr < sel OR 7 \<or> sel AND 0xfff8 = 0 then None
         else Option.bind (read_word cr3 m a) (\<lambda>lower.
              Option.bind (read_word cr3 m (a + 4)) (\<lambda>upper.
              if bit upper 15 \<and> bit upper 12 \<and> (if code then bit upper 11 else \<not> bit upper 11 \<and> bit upper 9)
              then Some (sel, descriptor lower upper) else None)))"

section \<open>Protected mode\<close>

record processor =
  cr0 :: u32
  cr3_reg :: u32
  gdtr :: "u16 \<times> u32"
  idtr :: "u16 \<times> u32"
  code_seg :: "u16 \<times> segment"
  stack_seg :: "u16 \<times> segment"
  ds_seg :: "u16 \<times> segment"
  es_seg :: "u16 \<times> segment"
  fs_seg :: "u16 \<times> segment"
  gs_seg :: "u16 \<times> segment"
  p_esp :: u32
  p_ebp :: u32
  p_if :: bool
  p_mem :: memory

abbreviation (input) CR0_PE :: u32 where "CR0_PE \<equiv> 0x00000001"
abbreviation (input) CR0_EM :: u32 where "CR0_EM \<equiv> 0x00000004"
abbreviation (input) CR0_PG :: u32 where "CR0_PG \<equiv> 0x80000000"
abbreviation (input) CR0_WP :: u32 where "CR0_WP \<equiv> 0x00010000"
abbreviation (input) LOADER_PHYS_BASE :: u32 where "LOADER_PHYS_BASE \<equiv> 0xc0000000"
abbreviation (input) LOADER_KERN_BASE :: u32 where "LOADER_KERN_BASE \<equiv> 0x20000"

text \<open>The data of the file behind \<open>gdt_start\<close>, at the offsets the assembler gives it.\<close>

definition gdt_reg :: "u32 \<Rightarrow> u32" where "gdt_reg gdt_start = gdt_start + 24"
definition idt_start :: "u32 \<Rightarrow> u32" where "idt_start gdt_start = gdt_start + 30"
definition idt_reg :: "u32 \<Rightarrow> u32" where "idt_reg gdt_start = gdt_start + 2078"
definition init_ram_pages :: "u32 \<Rightarrow> u32" where "init_ram_pages gdt_start = gdt_start + 2084"

text \<open>Reads of the data in real mode, through \<open>ds\<close>, which ends at 64 kB.\<close>

definition ds_offset :: "u32 \<Rightarrow> u32" where
  "ds_offset label = label - LOADER_PHYS_BASE - LOADER_KERN_BASE"

definition ds_load :: "u16 \<Rightarrow> u32 \<Rightarrow> memory \<Rightarrow> u32 option" where
  "ds_load ds off m = (if off \<le> 0xfffc then Some (load32 m (push_bit 4 (ucast ds) + off)) else None)"

definition lgdt :: "u16 \<Rightarrow> u32 \<Rightarrow> memory \<Rightarrow> (u16 \<times> u32) option" where
  "lgdt ds off m =
     (let a = push_bit 4 (ucast ds) + off in if off \<le> 0xfffa then Some (load16 m a, load32 m (a + 2)) else None)"

text \<open>The bytes from \<open>a\<close> on may be written, and are where the kernel sees them.\<close>

definition writable :: "u32 \<Rightarrow> memory \<Rightarrow> u32 \<Rightarrow> nat \<Rightarrow> bool" where
  "writable cr3 m a n \<longleftrightarrow>
     list_all (\<lambda>k. case walk m cr3 (a + of_nat k) of Some (p, w, _) \<Rightarrow> w \<and> ptov p = a + of_nat k | None \<Rightarrow> False) [0..<n]"

text \<open>From the load of the data segments to the call of \<open>main\<close>; the \<open>ret\<close>s are the return addresses.\<close>

definition load_segments :: "processor \<Rightarrow> processor option" where
  "load_segments p =
     Option.bind (load_segment (gdtr p) (cr3_reg p) (p_mem p) False SEL_KDSEG) (\<lambda>d.
     let esp = p_esp p + LOADER_PHYS_BASE
     in Some (p\<lparr>ds_seg := d, stack_seg := d, es_seg := d, fs_seg := d, gs_seg := d, p_esp := esp, p_ebp := esp\<rparr>))"

definition push_return :: "u32 \<Rightarrow> processor \<Rightarrow> processor option" where
  "push_return ret p =
     (let esp = p_esp p - 4
      in if writable (cr3_reg p) (p_mem p) esp 4 then Some (p\<lparr>p_esp := esp, p_mem := store32 esp ret (p_mem p)\<rparr>) else None)"

definition load_idt :: "u32 \<Rightarrow> u32 \<Rightarrow> u32 \<Rightarrow> processor \<Rightarrow> processor option" where
  "load_idt gdt_start unknown_isr ret p =
     Option.bind (push_return ret p) (\<lambda>p.
     if writable (cr3_reg p) (p_mem p) (idt_start gdt_start) 2048
     then let m = set_init_idt (idt_start gdt_start) unknown_isr (p_mem p)
          in Some (p\<lparr>p_esp := p_esp p + 4, p_mem := m,
                     idtr := (load16 m (idt_reg gdt_start), load32 m (idt_reg gdt_start + 2))\<rparr>)
     else None)"

text \<open>\<open>old\<close> is the processor in real mode, of which \<open>cr0\<close> and the stack pointer matter.\<close>

definition protected_mode :: "u32 \<Rightarrow> memory \<Rightarrow> processor \<Rightarrow> processor option" where
  "protected_mode gdt_start m old =
     Option.bind (lgdt 0x2000 (ds_offset (gdt_reg gdt_start)) m) (\<lambda>table.
     let p = old\<lparr>cr3_reg := 0xf000, p_if := False, gdtr := table,
                 cr0 := cr0 old OR (CR0_PE OR CR0_PG OR CR0_WP OR CR0_EM), p_mem := linear m\<rparr>
     in map_option (\<lambda>c. p\<lparr>code_seg := c\<rparr>) (load_segment table (cr3_reg p) (p_mem p) True SEL_KCSEG))"

definition start :: "e820 \<Rightarrow> u32 \<Rightarrow> device \<Rightarrow> u32 \<Rightarrow> u32 \<Rightarrow> u32 \<Rightarrow> u32 \<Rightarrow> memory \<Rightarrow> processor \<Rightarrow> history \<Rightarrow>
    (processor \<times> history) option" where
  "start bios eax dev gdt_start unknown_isr ret1 ret2 m p h =
     (let var = ds_offset (init_ram_pages gdt_start)
      in Option.bind (detect_memory eax bios) (\<lambda>ram_pages.
         Option.bind (es_store 0x2000 var ram_pages m) (\<lambda>m.
         Option.bind (enable_a20 dev h) (\<lambda>h.
         Option.bind (ds_load 0x2000 var m) (\<lambda>ram_pages.
         Option.bind (temporary_tables ram_pages m) (\<lambda>m.
         Option.bind (protected_mode gdt_start m p) (\<lambda>p.
         Option.bind (load_segments p) (\<lambda>p.
         Option.bind (load_idt gdt_start unknown_isr ret1 p) (\<lambda>p.
         map_option (\<lambda>p. (p, h)) (push_return ret2 p))))))))))"

section \<open>The memory map on the screen\<close>

definition one_digit_hex_to_char :: "u8 \<Rightarrow> u8" where
  "one_digit_hex_to_char al = (let al = al AND 0x0f in if 0x0a \<le> al then al + (0x41 - 0x0a) else al + 0x30)"

text \<open>\<open>bswap\<close> puts the bytes in the order in which they are printed.\<close>

definition bswap :: "u32 \<Rightarrow> u32" where
  "bswap w = push_bit 24 (w AND 0xff) OR push_bit 8 (w AND 0xff00) OR (drop_bit 8 w AND 0xff00) OR drop_bit 24 w"

fun print_bytes :: "nat \<Rightarrow> u32 \<Rightarrow> u8 list" where
  "print_bytes 0 edx = []"
| "print_bytes (Suc ecx) edx =
     (let dl = ucast edx
      in one_digit_hex_to_char (drop_bit 4 dl) # one_digit_hex_to_char dl # print_bytes ecx (drop_bit 8 edx))"

definition print_uint32 :: "u32 \<Rightarrow> u8 list" where
  "print_uint32 w = print_bytes 4 (bswap w) @ [0x20]"

definition print_region :: "e820_entry \<Rightarrow> u8 list" where
  "print_region d = print_uint32 (base_low d) @ print_uint32 (length_low d) @ print_uint32 (region_type d) @ [0x0d, 0x0a]"

section \<open>The first interrupt handler\<close>

text \<open>A segment register is pushed as a word of 32 bits, whose upper half is not specified.\<close>

definition push_seg :: "u16 \<Rightarrow> sreg \<Rightarrow> trap_cpu \<Rightarrow> trap_cpu" where
  "push_seg hi s c = push (push_bit 16 (ucast hi) OR ucast (segs c s)) c"

definition pop_seg :: "sreg \<Rightarrow> trap_cpu \<Rightarrow> trap_cpu" where
  "pop_seg s c = (drop_top c)\<lparr>segs := (segs c)(s := ucast (top c))\<rparr>"

text \<open>\<open>g\<close> is the call of \<open>printk\<close>.\<close>

definition unknown_isr_entry :: "u16 \<Rightarrow> u32 \<Rightarrow> trap_cpu \<Rightarrow> trap_cpu" where
  "unknown_isr_entry hi unknown_isr_msg c =
     (let c = texec id [PushR EAX, PushR EBX, PushR ECX, PushR EDX, PushR ESI, PushR EDI, PushR EBP] c;
          c = fold (push_seg hi) [DS, ES, FS, GS] c
      in texec id [MovAx SEL_KDSEG, MovSeg DS, MovSeg ES, MovSeg FS, MovSeg GS, PushI unknown_isr_msg] c)"

definition unknown_isr_exit :: "trap_cpu \<Rightarrow> trap_cpu" where
  "unknown_isr_exit c =
     (let c = fold pop_seg [GS, FS, ES, DS] (texec id [AddSp 4] c)
      in texec id [PopR EBP, PopR EDI, PopR ESI, PopR EDX, PopR ECX, PopR EBX, PopR EAX, Iret] c)"

definition unknown_isr :: "(trap_cpu \<Rightarrow> trap_cpu) \<Rightarrow> u16 \<Rightarrow> u32 \<Rightarrow> u32 \<Rightarrow> trap_cpu \<Rightarrow> trap_cpu" where
  "unknown_isr g hi ret unknown_isr_msg c =
     unknown_isr_exit (texec g [CallC ret] (unknown_isr_entry hi unknown_isr_msg c))"


section \<open>Printing\<close>

text \<open>The eight digits of a number, the highest first, and their value.\<close>

lemma bswap_bytes:
  "(ucast (bswap w) :: u8) = ucast (drop_bit 24 w)" "(ucast (drop_bit 8 (bswap w)) :: u8) = ucast (drop_bit 16 w)"
  "(ucast (drop_bit 16 (bswap w)) :: u8) = ucast (drop_bit 8 w)" "(ucast (drop_bit 24 (bswap w)) :: u8) = ucast w"
proof -
  have m: "(0xff :: u32) = mask 8" "(0xff00 :: u32) = push_bit 8 (mask 8)" by (simp_all add: mask_eq_exp_minus_1)
  show "(ucast (bswap w) :: u8) = ucast (drop_bit 24 w)" "(ucast (drop_bit 8 (bswap w)) :: u8) = ucast (drop_bit 16 w)"
    "(ucast (drop_bit 16 (bswap w)) :: u8) = ucast (drop_bit 8 w)" "(ucast (drop_bit 24 (bswap w)) :: u8) = ucast w"
    unfolding bswap_def m by (rule bit_word_eqI; auto simp: bit_simps)+
qed

definition hex_value :: "u8 \<Rightarrow> u32" where
  "hex_value c = ucast (if c \<le> 0x39 then c - 0x30 else c - 0x37)"

lemma hex_value_digit: "hex_value (one_digit_hex_to_char b) = ucast (take_bit 4 b)"
proof -
  have b: "b AND 0x0f = take_bit 4 b" unfolding take_bit_eq_mask by (simp add: mask_eq_exp_minus_1)
  define k where "k = unat (take_bit 4 b)"
  have "k < 16" by (simp add: k_def take_bit_eq_mod unat_mod)
  then have "k = 0 \<or> k = 1 \<or> k = 2 \<or> k = 3 \<or> k = 4 \<or> k = 5 \<or> k = 6 \<or> k = 7 \<or> k = 8 \<or> k = 9 \<or> k = 10 \<or>
    k = 11 \<or> k = 12 \<or> k = 13 \<or> k = 14 \<or> k = 15" by presburger
  moreover have "take_bit 4 b = of_nat k" by (simp add: k_def)
  ultimately show ?thesis
    unfolding one_digit_hex_to_char_def b by (auto simp: hex_value_def Let_def word_le_nat_alt)
qed

lemma one_digit_nibble: "take_bit 4 b = take_bit 4 c \<Longrightarrow> one_digit_hex_to_char b = one_digit_hex_to_char c"
proof -
  have "b AND 0x0f = take_bit 4 b" for b :: u8 unfolding take_bit_eq_mask by (simp add: mask_eq_exp_minus_1)
  then show "take_bit 4 b = take_bit 4 c \<Longrightarrow> ?thesis" by (simp add: one_digit_hex_to_char_def)
qed

lemma high_nibble:
  "n + 8 \<le> 32 \<Longrightarrow> one_digit_hex_to_char (drop_bit 4 (ucast (drop_bit n (w :: u32)))) = one_digit_hex_to_char (ucast (drop_bit (n + 4) w))"
  by (rule one_digit_nibble, rule bit_word_eqI) (auto simp: bit_simps add.commute add.left_commute)

lemma upto_8: "[0..<8] = [0, 1, 2, 3, 4, 5, 6, 7 :: nat]"
  by code_simp

lemma print_bytes_4:
  "print_bytes 4 e = concat (map (\<lambda>i. [one_digit_hex_to_char (drop_bit 4 (ucast (drop_bit (8 * i) e))),
     one_digit_hex_to_char (ucast (drop_bit (8 * i) e))]) [0, 1, 2, 3])"
proof -
  have "(4 :: nat) = Suc (Suc (Suc (Suc 0)))" by simp
  then show ?thesis by (simp only: print_bytes.simps) (simp add: Let_def drop_bit_drop_bit)
qed

lemma print_uint32_digits:
  "print_uint32 w = map (\<lambda>i. one_digit_hex_to_char (ucast (drop_bit (28 - 4 * i) w))) [0..<8] @ [0x20]"
  using high_nibble [of 24 w] high_nibble [of 16 w] high_nibble [of 8 w] high_nibble [of 0 w]
  by (simp add: print_uint32_def print_bytes_4 bswap_bytes upto_8)

lemma next_digit:
  "16 * drop_bit (n + 4) w + hex_value (one_digit_hex_to_char (ucast (drop_bit n w))) = (drop_bit n w :: u32)"
proof -
  have "(ucast (take_bit 4 (ucast (drop_bit n w) :: u8)) :: u32) = take_bit 4 (drop_bit n w)"
    by (rule bit_word_eqI) (auto simp: bit_simps)
  moreover have "16 * drop_bit (n + 4) w = push_bit 4 (drop_bit 4 (drop_bit n w))"
    by (simp add: push_bit_eq_mult drop_bit_drop_bit add.commute)
  ultimately show ?thesis by (simp only: hex_value_digit bits_ident)
qed

lemma print_uint32_value: "foldl (\<lambda>v c. 16 * v + hex_value c) 0 (take 8 (print_uint32 w)) = w"
proof -
  have z: "drop_bit 32 w = 0" by (rule bit_word_eqI) (auto simp: bit_simps dest: bit_imp_le_length)
  note d = next_digit [of 28 w] next_digit [of 24 w] next_digit [of 20 w] next_digit [of 16 w] next_digit [of 12 w] next_digit [of 8 w]
    next_digit [of 4 w] next_digit [of 0 w]
  show ?thesis using d z by (simp add: print_uint32_digits upto_8)
qed

section \<open>The first handler returns\<close>

lemma unknown_isr_call:
  fixes d :: trap_cpu and ret msg :: u32 and hi :: u16
  defines "k \<equiv> push ret (unknown_isr_entry hi msg d)" and "e \<equiv> gpr d ESP"
  shows "gpr k ESP = e - 52" "load32 (cmem k) (e - 48) = msg"
    "(ucast (load32 (cmem k) (e - 44)) :: u16) = segs d GS" "(ucast (load32 (cmem k) (e - 40)) :: u16) = segs d FS"
    "(ucast (load32 (cmem k) (e - 36)) :: u16) = segs d ES" "(ucast (load32 (cmem k) (e - 32)) :: u16) = segs d DS"
    "load32 (cmem k) (e - 28) = gpr d EBP" "load32 (cmem k) (e - 24) = gpr d EDI" "load32 (cmem k) (e - 20) = gpr d ESI"
    "load32 (cmem k) (e - 16) = gpr d EDX" "load32 (cmem k) (e - 12) = gpr d ECX" "load32 (cmem k) (e - 8) = gpr d EBX"
    "load32 (cmem k) (e - 4) = gpr d EAX"
    "j \<in> {0, 4, 8} \<Longrightarrow> load32 (cmem k) (e + j) = load32 (cmem d) (e + j)"
  unfolding k_def e_def unknown_isr_entry_def
  by (auto simp: push_def push_seg_def set_reg_def Let_def load_sep)

text \<open>Without an error code on the stack the handler is transparent, with one it returns to the code.\<close>

lemma unknown_isr_returns:
  fixes d :: trap_cpu and g :: "trap_cpu \<Rightarrow> trap_cpu" and ret msg :: u32 and hi :: u16
  assumes "keeps_frame g"
  defines "c \<equiv> unknown_isr g hi ret msg d" and "e \<equiv> gpr d ESP"
  shows "gpr c r = (if r = ESP then e + 12 else gpr d r)"
    "segs c s = (if s = CS then ucast (load32 (cmem d) (e + 4)) else segs d s)"
    "eip c = load32 (cmem d) e" "eflags c = load32 (cmem d) (e + 8)" "iflag c = bit (load32 (cmem d) (e + 8)) 9"
    "cmem c = cmem (g (push ret (unknown_isr_entry hi msg d)))"
proof -
  define K where "K = push ret (unknown_isr_entry hi msg d)"
  note w = unknown_isr_call [where ret = ret and hi = hi and msg = msg and d = d, folded K_def e_def]
  have esp: "gpr (g K) ESP = e - 52" using keeps_frame_esp [OF assms(1)] w(1) by simp
  note k32 = keeps_frame_loads(1) [OF assms(1), of _ K, unfolded w(1)]
  let ?m = "cmem (g K)"
  have l: "(ucast (load32 ?m (e - 44)) :: u16) = segs d GS" "(ucast (load32 ?m (e - 40)) :: u16) = segs d FS"
    "(ucast (load32 ?m (e - 36)) :: u16) = segs d ES" "(ucast (load32 ?m (e - 32)) :: u16) = segs d DS"
    "load32 ?m (e - 28) = gpr d EBP" "load32 ?m (e - 24) = gpr d EDI" "load32 ?m (e - 20) = gpr d ESI"
    "load32 ?m (e - 16) = gpr d EDX" "load32 ?m (e - 12) = gpr d ECX" "load32 ?m (e - 8) = gpr d EBX"
    "load32 ?m (e - 4) = gpr d EAX" "load32 ?m e = load32 (cmem d) e" "load32 ?m (e + 4) = load32 (cmem d) (e + 4)"
    "load32 ?m (e + 8) = load32 (cmem d) (e + 8)"
    using k32 [of 0] k32 [of 4] k32 [of 8] k32 [of 12] k32 [of 16] k32 [of 20] k32 [of 24] k32 [of 28] k32 [of 32] k32 [of 36]
      k32 [of 40] k32 [of 44] k32 [of 48] k32 [of 52] w w(14) [of 0]
    by (simp_all add: add.commute)
  have c: "c = unknown_isr_exit (drop_top (g K))" by (simp add: c_def unknown_isr_def K_def)
  have all: "(\<forall>r. gpr c r = (if r = ESP then e + 12 else gpr d r)) \<and>
    (\<forall>s. segs c s = (if s = CS then ucast (load32 (cmem d) (e + 4)) else segs d s)) \<and>
    eip c = load32 (cmem d) e \<and> eflags c = load32 (cmem d) (e + 8) \<and> iflag c = bit (load32 (cmem d) (e + 8)) 9 \<and> cmem c = ?m"
    unfolding c using esp l
    by (simp add: unknown_isr_exit_def pop_seg_def drop_top_def set_reg_def top_def Let_def set_flags_def add.commute)
      (intro conjI allI impI; insert no_other; blast)
  show "gpr c r = (if r = ESP then e + 12 else gpr d r)"
    "segs c s = (if s = CS then ucast (load32 (cmem d) (e + 4)) else segs d s)"
    "eip c = load32 (cmem d) e" "eflags c = load32 (cmem d) (e + 8)" "iflag c = bit (load32 (cmem d) (e + 8)) 9"
    "cmem c = cmem (g (push ret (unknown_isr_entry hi msg d)))"
    using all unfolding K_def by blast+
qed

lemma unknown_isr_transparent:
  fixes c :: trap_cpu and g :: "trap_cpu \<Rightarrow> trap_cpu" and ret msg vec err :: u32 and hi hi' :: u16 and tg :: bool
  assumes "keeps_frame g" "\<not> has_error_code vec"
  defines "c' \<equiv> unknown_isr g hi ret msg (trap_entry tg hi' err vec c)"
  shows "gpr c' = gpr c \<and> segs c' = segs c \<and> eip c' = eip c \<and> iflag c' = iflag c \<and> flags_word c' = flags_word c"
proof -
  let ?d = "trap_entry tg hi' err vec c"
  note r = unknown_isr_returns [OF assms(1), of hi ret msg ?d, folded c'_def]
  have d: "gpr ?d = (gpr c)(ESP := gpr c ESP - 12)" "segs ?d = (segs c)(CS := SEL_KCSEG)"
    "load32 (cmem ?d) (gpr c ESP - 12) = eip c" "load32 (cmem ?d) (gpr c ESP - 4) = flags_word c"
    "load32 (cmem ?d) (gpr c ESP - 8) = push_bit 16 (ucast hi') OR ucast (segs c CS)"
    using assms(2) by (simp_all add: trap_entry_def push_def set_reg_def Let_def load_sep)
  then show ?thesis using r flags_word_again [of c' c] by (auto simp: fun_eq_iff)
qed

lemma unknown_isr_error_code:
  fixes c :: trap_cpu and g :: "trap_cpu \<Rightarrow> trap_cpu" and ret msg vec err :: u32 and hi hi' :: u16 and tg :: bool
  assumes "keeps_frame g" "has_error_code vec"
  defines "c' \<equiv> unknown_isr g hi ret msg (trap_entry tg hi' err vec c)"
  shows "eip c' = err \<and> segs c' CS = ucast (eip c) \<and> gpr c' ESP = gpr c ESP - 4"
  using unknown_isr_returns [OF assms(1), of hi ret msg "trap_entry tg hi' err vec c", folded c'_def] assms(2)
  by (simp add: trap_entry_def push_def set_reg_def Let_def load_sep)

section \<open>The way to \<open>main\<close>\<close>

text \<open>The data of \<open>start.S\<close> as the loader has put it, within 64 kB of the image's start.\<close>

definition kernel_data :: "u32 \<Rightarrow> memory \<Rightarrow> bool" where
  "kernel_data gdt_start m \<longleftrightarrow>
     (let a = vtop gdt_start
      in gdt_start AND 7 = 0 \<and> 0xC0020000 \<le> gdt_start \<and> gdt_start \<le> 0xC0030000 - 2088 \<and>
         (\<forall>i<3. load32 m (a + of_nat (8 * i)) = ucast (gdt ! i) \<and> load32 m (a + of_nat (8 * i) + 4) = ucast (drop_bit 32 (gdt ! i))) \<and>
         load16 m (a + 24) = 8 * 3 - 1 \<and> load32 m (a + 26) = gdt_start \<and>
         load16 m (a + 2078) = 8 * 256 - 1 \<and> load32 m (a + 2080) = idt_start gdt_start)"

text \<open>The page tables in memory as the kernel sees it.\<close>

definition mapped_early :: "nat \<Rightarrow> memory \<Rightarrow> bool" where
  "mapped_early n M \<longleftrightarrow> 0 < n \<and> early_slots n (\<lambda>x. M (ptov x))"

lemma linear_ptov [simp]: "linear (\<lambda>x. M (ptov x)) = M" "(\<lambda>x. linear m (ptov x)) = m"
  by (simp_all add: linear_def)

lemma mapped_walk:
  assumes "mapped_early n M"
  shows "walk M 0xf000 v =
     (let size = 0x400000 * n
      in if unat v < size then Some (v, True, True)
         else if 0xC0000000 \<le> unat v \<and> unat v < 0xC0000000 + size then Some (v - 0xC0000000, True, True)
         else None)"
  using early_walk [of n "\<lambda>x. M (ptov x)" v] assms by (simp add: mapped_early_def)

lemma mapped_window:
  assumes "mapped_early n M" "0xC0000000 \<le> v" "v < 0xC0400000"
  shows "walk M 0xf000 v = Some (vtop v, True, True)"
proof -
  have n: "0 < n" "n \<le> 16" using assms(1) by (simp_all add: mapped_early_def early_slots_def)
  have "3221225472 \<le> unat v" "unat v < 3225419776" using assms(2,3) by (simp_all add: word_le_nat_alt word_less_nat_alt)
  then show ?thesis using n unfolding mapped_walk [OF assms(1)] by (simp add: vtop_def)
qed

lemma slot_ptov: "slot (\<lambda>x. M (ptov x)) j = load32 M (ptov (4 * of_nat j))"
  by (simp add: slot_def load32_def ptov_def add.commute add.left_commute)

lemma mapped_cong:
  assumes "mapped_early n M" "\<And>x. 0xC000F000 \<le> x \<Longrightarrow> x < 0xC0020000 \<Longrightarrow> M' x = M x"
  shows "mapped_early n M'"
proof -
  have "slot (\<lambda>x. M' (ptov x)) j = slot (\<lambda>x. M (ptov x)) j" if "15360 \<le> j" "j < 32768" for j
  proof -
    have u: "unat (4 * of_nat j :: u32) = 4 * j" using that by (simp add: unat_slot)
    have "unat (ptov (4 * of_nat j) + of_nat k) = 3221225472 + 4 * j + k" if "k < 4" for k
      using u that \<open>j < 32768\<close> by (simp add: ptov_def unat_word_ariths unat_of_nat)
    then have "M' (ptov (4 * of_nat j) + of_nat k) = M (ptov (4 * of_nat j) + of_nat k)" if "k < 4" for k
      using that \<open>15360 \<le> j\<close> \<open>j < 32768\<close> by (intro assms(2)) (simp_all add: word_le_nat_alt word_less_nat_alt)
    from this [of 0] this [of 1] this [of 2] this [of 3] show ?thesis
      unfolding slot_ptov by (intro load32_cong) simp_all
  qed
  then show ?thesis using assms(1) unfolding mapped_early_def early_slots_def by simp
qed

lemma load_linear: "load32 (linear m) v = load32 m (vtop v)" "load16 (linear m) v = load16 m (vtop v)"
  by (simp_all add: load32_def load16_def linear_def vtop_def algebra_simps)

text \<open>The accesses to the first 4 MB at 3 GB.\<close>

lemma read_word_window:
  assumes "mapped_early n M" "0xC0000000 \<le> v" "v < 0xC0400000"
  shows "read_word 0xf000 M v = Some (load32 M v)"
  by (simp add: read_word_def mapped_window [OF assms])

lemma writable_window:
  assumes "mapped_early n M" "0xC0000000 \<le> unat a" "unat a + k \<le> 0xC0400000"
  shows "writable 0xf000 M a k"
proof -
  have "walk M 0xf000 (a + of_nat i) = Some (vtop (a + of_nat i), True, True)" if "i < k" for i
  proof (rule mapped_window [OF assms(1)])
    have "unat (a + of_nat i) = unat a + i" using that assms(2,3) by (simp add: unat_word_ariths unat_of_nat)
    then show "0xC0000000 \<le> a + of_nat i" "a + of_nat i < 0xC0400000"
      using that assms(2,3) by (simp_all add: word_le_nat_alt word_less_nat_alt)
  qed
  then show ?thesis by (simp add: writable_def list_all_iff)
qed

text \<open>The descriptors of \<open>gdt\<close> are flat.\<close>

definition flat :: "u8 \<Rightarrow> segment" where
  "flat access = \<lparr>seg_base = 0, seg_limit = 0xffffffff, seg_access = access, seg_32bit = True\<rparr>"

lemma flat_descriptors:
  "descriptor (ucast (gdt ! 1)) (ucast (drop_bit 32 (gdt ! 1))) = flat 0x9a"
  "descriptor (ucast (gdt ! 2)) (ucast (drop_bit 32 (gdt ! 2))) = flat 0x92"
  by (simp_all add: descriptor_def gdt_def flat_def)

text \<open>Where the data lies, and what leaves it alone.\<close>

lemma kernel_dataD:
  assumes "kernel_data gs m"
  shows "unat gs \<ge> 3221356544" "unat gs + 2088 \<le> 3221422080"
    "i < 3 \<Longrightarrow> load32 m (vtop gs + of_nat (8 * i)) = ucast (gdt ! i)"
    "i < 3 \<Longrightarrow> load32 m (vtop gs + of_nat (8 * i) + 4) = ucast (drop_bit 32 (gdt ! i))"
    "load16 m (vtop gs + 24) = 23" "load32 m (vtop gs + 26) = gs"
    "load16 m (vtop gs + 2078) = 2047" "load32 m (vtop gs + 2080) = idt_start gs"
  using assms by (auto simp: kernel_data_def Let_def word_le_nat_alt)

lemma data_address:
  assumes "kernel_data gs m" "k < 2088"
  shows "unat (gs + of_nat k) = unat gs + k" "unat (vtop gs + of_nat k) = unat gs - 3221225472 + k"
proof -
  note d = kernel_dataD(1,2) [OF assms(1)]
  show "unat (gs + of_nat k) = unat gs + k" using d assms(2) by (simp add: unat_word_ariths unat_of_nat)
  have "unat (vtop gs) = unat gs - 3221225472" using d by (simp add: vtop_def unat_sub word_le_nat_alt)
  then show "unat (vtop gs + of_nat k) = unat gs - 3221225472 + k" using d assms(2) by (simp add: unat_word_ariths unat_of_nat)
qed

lemma kernel_data_cong:
  assumes "kernel_data gs m" "\<And>k. k < 30 \<or> 2078 \<le> k \<and> k < 2084 \<Longrightarrow> m' (vtop gs + of_nat k) = m (vtop gs + of_nat k)"
  shows "kernel_data gs m'"
proof -
  have w32: "load32 m' (vtop gs + of_nat k) = load32 m (vtop gs + of_nat k)" if "k + 4 \<le> 30 \<or> 2078 \<le> k \<and> k + 4 \<le> 2084" for k
  proof -
    have "m' (vtop gs + of_nat k + of_nat j) = m (vtop gs + of_nat k + of_nat j)" if "j < 4" for j
      using assms(2) [of "k + j"] that \<open>k + 4 \<le> 30 \<or> 2078 \<le> k \<and> k + 4 \<le> 2084\<close> by (auto simp: add.assoc)
    from this [of 0] this [of 1] this [of 2] this [of 3] show ?thesis by (intro load32_cong) simp_all
  qed
  have w16: "load16 m' (vtop gs + of_nat k) = load16 m (vtop gs + of_nat k)" if "k \<in> {24, 2078}" for k
    using that assms(2) [of k] assms(2) [of "k + 1"] by (auto simp: load16_def add.assoc)
  have "load32 m' (vtop gs + of_nat (8 * i)) = load32 m (vtop gs + of_nat (8 * i)) \<and>
      load32 m' (vtop gs + of_nat (8 * i) + 4) = load32 m (vtop gs + of_nat (8 * i) + 4)" if "i < 3" for i
    using w32 [of "8 * i"] w32 [of "8 * i + 4"] that by (simp add: add.assoc)
  then show ?thesis
    using assms(1) w16 [of 24] w16 [of 2078] w32 [of 26] w32 [of 2080] by (simp add: kernel_data_def Let_def)
qed

lemma store_at_other:
  assumes "k < j \<or> j + 4 \<le> k" "k < 65536" "j < 65536"
  shows "store32 (b + of_nat j) v m (b + of_nat k) = m (b + of_nat k)"
proof (rule store_outside(1))
  have "unat (of_nat k - of_nat j :: u32) = (if j \<le> k then k - j else k + 4294967296 - j)"
    using assms(2,3) by (simp add: unat_sub_if' unat_of_nat)
  then show "4 \<le> b + of_nat k - (b + of_nat j)" using assms by (simp add: word_le_nat_alt split: if_splits)
qed

lemma idt_at_other:
  assumes "k < 30 \<or> 2078 \<le> k" "k < 65536"
  shows "set_init_idt (idt_start gs) u m (gs + of_nat k) = m (gs + of_nat k)"
proof -
  have e: "gs + of_nat k - (gs + 30) = (of_nat k - of_nat 30 :: u32)" by simp
  have "unat (of_nat k - of_nat 30 :: u32) = (if 30 \<le> k then k - 30 else k + 4294967296 - 30)"
    using assms by (simp only: unat_sub_if') (simp add: unat_of_nat)
  then have "8 * 256 \<le> unat (gs + of_nat k - (gs + 30))" unfolding e using assms by (simp split: if_splits)
  then show ?thesis unfolding set_init_idt_def idt_start_def Let_def by (rule idt_loop_other)
qed

text \<open>The part in real mode: the memory behind the loader's area keeps all but the one variable.\<close>

lemma bytes_of_words:
  assumes "load32 m a = load32 m' a"
  shows "m a = m' a" "m (a + 1) = m' (a + 1)" "m (a + 2) = m' (a + 2)" "m (a + 3) = m' (a + 3)"
proof -
  have b: "ucast (load32 m a) = m a" "ucast (drop_bit 8 (load32 m a)) = m (a + 1)"
    "ucast (drop_bit 16 (load32 m a)) = m (a + 2)" "ucast (drop_bit 24 (load32 m a)) = m (a + 3)" for m
    unfolding load32_def by (rule bit_word_eqI; auto simp: bit_simps dest: bit_imp_le_length)+
  show "m a = m' a" "m (a + 1) = m' (a + 1)" "m (a + 2) = m' (a + 2)" "m (a + 3) = m' (a + 3)"
    using b [of m] b [of m'] assms by simp_all
qed

lemma bytes_of_slots:
  assumes "\<And>j. j < 1073741824 \<Longrightarrow> 32768 \<le> j \<Longrightarrow> slot m' j = slot m j" "0x20000 \<le> unat x"
  shows "m' x = m x"
proof -
  define j k where "j = unat x div 4" "k = unat x mod 4"
  then have j: "j < 1073741824" "32768 \<le> j" using assms(2) u32_lt [of x] by linarith+
  then have "load32 m' (4 * of_nat j) = load32 m (4 * of_nat j)" using assms(1) [of j] by (simp add: slot_def)
  note b = bytes_of_words [OF this]
  have "k = 0 \<or> k = 1 \<or> k = 2 \<or> k = 3" unfolding j_k_def by linarith
  then have "m' (4 * of_nat j + of_nat k) = m (4 * of_nat j + of_nat k)" using b by auto
  moreover have "unat x = 4 * j + k" by (simp add: j_k_def)
  then have "of_nat (unat x) = (4 * of_nat j + of_nat k :: u32)" by (metis of_nat_add of_nat_mult of_nat_numeral)
  ultimately show ?thesis by simp
qed

lemma real_mode:
  assumes "kernel_data gs m" "1024 \<le> ram_pages"
  obtains m1 m2 where "es_store 0x2000 (ds_offset (init_ram_pages gs)) ram_pages m = Some m1"
    "ds_load 0x2000 (ds_offset (init_ram_pages gs)) m1 = Some ram_pages" "temporary_tables ram_pages m1 = Some m2"
    "kernel_data gs m2" "mapped_early (tables_mapped ram_pages) (linear m2)" "load32 m2 (vtop gs + 2084) = ram_pages"
    "\<And>x. 0x20000 \<le> unat x \<Longrightarrow> 4 \<le> x - (vtop gs + 2084) \<Longrightarrow> m2 x = m x"
proof -
  note D = kernel_dataD [OF assms(1)]
  let ?off = "ds_offset (init_ram_pages gs)" and ?m1 = "store32 (vtop gs + 2084) ram_pages m"
  have b: "push_bit 4 (ucast (0x2000 :: u16)) + ?off = vtop gs + 2084"
    by (simp add: ds_offset_def init_ram_pages_def vtop_def)
  have "unat (vtop gs + of_nat 2084) = unat gs - 3221225472 + 2084" by (rule data_address(2) [OF assms(1)]) simp
  moreover have o: "?off = vtop gs + of_nat 2084 - 0x20000" by (simp add: ds_offset_def init_ram_pages_def vtop_def)
  ultimately have "unat ?off = unat gs - 3221225472 + 2084 - 131072"
    unfolding o using D(1) by (subst unat_sub) (simp_all add: word_le_nat_alt)
  then have off: "?off \<le> 0xfffc" using D(1,2) by (simp add: word_le_nat_alt)
  have some_table: "0 < tables_mapped ram_pages" using assms(2) by (simp add: tables_mapped_def word_le_nat_alt)
  obtain m2 where m2: "temporary_tables ram_pages ?m1 = Some m2" "early_slots (tables_mapped ram_pages) m2"
      "\<And>j. j < 1073741824 \<Longrightarrow> j < 15360 \<or> 32768 \<le> j \<Longrightarrow> slot m2 j = slot ?m1 j"
    using early_tables [OF assms(2), of ?m1] by blast
  have keep: "m2 x = ?m1 x" if "0x20000 \<le> unat x" for x
    by (rule bytes_of_slots [OF m2(3)]) (use that in simp_all)
  have at: "m2 (vtop gs + of_nat k) = ?m1 (vtop gs + of_nat k)" if "k < 2088" for k
    using keep [of "vtop gs + of_nat k"] data_address(2) [OF assms(1) that] D(1) by simp
  have "kernel_data gs m2"
  proof (rule kernel_data_cong [OF assms(1)])
    fix k :: nat assume k: "k < 30 \<or> 2078 \<le> k \<and> k < 2084"
    then show "m2 (vtop gs + of_nat k) = m (vtop gs + of_nat k)"
      using at [of k] store_at_other [of k 2084 "vtop gs" ram_pages m] by auto
  qed
  moreover have "load32 m2 (vtop gs + 2084) = load32 ?m1 (vtop gs + 2084)"
    using at [of 2084] at [of 2085] at [of 2086] at [of 2087] by (intro load32_cong) (simp_all add: add.assoc)
  moreover have "m2 x = m x" if "0x20000 \<le> unat x" "4 \<le> x - (vtop gs + 2084)" for x
    using keep [OF that(1)] store_outside(1) [OF that(2)] by simp
  moreover have "mapped_early (tables_mapped ram_pages) (linear m2)"
    using m2(2) some_table by (simp add: mapped_early_def)
  moreover have "es_store 0x2000 ?off ram_pages m = Some ?m1" "ds_load 0x2000 ?off ?m1 = Some ram_pages"
    using off by (simp_all only: es_store_def ds_load_def b if_True load32_store32_same)
  ultimately show ?thesis using m2(1) that [of ?m1 m2] by simp
qed

text \<open>The switch: the table is loaded, and the two selectors give flat segments.\<close>

lemma load_flat:
  assumes "mapped_early n (linear m)" "kernel_data gs m"
  shows "load_segment (23, gs) 0xf000 (linear m) True SEL_KCSEG = Some (SEL_KCSEG, flat 0x9a)"
    "load_segment (23, gs) 0xf000 (linear m) False SEL_KDSEG = Some (SEL_KDSEG, flat 0x92)"
proof -
  note D = kernel_dataD [OF assms(2)]
  have r: "read_word 0xf000 (linear m) (gs + of_nat k) = Some (load32 m (vtop gs + of_nat k))" if "k < 30" for k
  proof -
    have "unat (gs + of_nat k) = unat gs + k" using that by (intro data_address(1) [OF assms(2)]) simp
    then have "read_word 0xf000 (linear m) (gs + of_nat k) = Some (load32 (linear m) (gs + of_nat k))"
      using D(1,2) that by (intro read_word_window [OF assms(1)]) (simp_all add: word_le_nat_alt word_less_nat_alt)
    moreover have "vtop (gs + of_nat k) = vtop gs + of_nat k" by (simp add: vtop_def)
    ultimately show ?thesis by (simp add: load_linear)
  qed
  have g: "ucast (gdt ! 1) = (0xffff :: u32)" "ucast (drop_bit 32 (gdt ! 1)) = (0x00cf9a00 :: u32)"
    "ucast (gdt ! 2) = (0xffff :: u32)" "ucast (drop_bit 32 (gdt ! 2)) = (0x00cf9200 :: u32)"
    by (simp_all add: gdt_def)
  have w: "read_word 0xf000 (linear m) (gs + 8) = Some 0xffff" "read_word 0xf000 (linear m) (gs + 12) = Some 0x00cf9a00"
    "read_word 0xf000 (linear m) (gs + 16) = Some 0xffff" "read_word 0xf000 (linear m) (gs + 20) = Some 0x00cf9200"
    using r [of 8] r [of 12] r [of 16] r [of 20] D(3) [of 1] D(4) [of 1] D(3) [of 2] D(4) [of 2] g by (simp_all add: add.assoc)
  show "load_segment (23, gs) 0xf000 (linear m) True SEL_KCSEG = Some (SEL_KCSEG, flat 0x9a)"
    "load_segment (23, gs) 0xf000 (linear m) False SEL_KDSEG = Some (SEL_KDSEG, flat 0x92)"
    using w flat_descriptors [unfolded g] by (simp_all add: load_segment_def add.assoc)
qed

lemma protected_mode_enters:
  assumes "mapped_early n (linear m)" "kernel_data gs m"
  shows "protected_mode gs m p = Some (p\<lparr>cr3_reg := 0xf000, p_if := False, gdtr := (23, gs), cr0 := cr0 p OR 0x80010005,
    p_mem := linear m, code_seg := (SEL_KCSEG, flat 0x9a)\<rparr>)"
proof -
  note D = kernel_dataD [OF assms(2)]
  have b: "push_bit 4 (ucast (0x2000 :: u16)) + ds_offset (gdt_reg gs) = vtop gs + 24"
    by (simp add: ds_offset_def gdt_reg_def vtop_def)
  have "unat (vtop gs + of_nat 24) = unat gs - 3221225472 + 24" by (rule data_address(2) [OF assms(2)]) simp
  moreover have o: "ds_offset (gdt_reg gs) = vtop gs + of_nat 24 - 0x20000" by (simp add: ds_offset_def gdt_reg_def vtop_def)
  ultimately have "unat (ds_offset (gdt_reg gs)) = unat gs - 3221225472 + 24 - 131072"
    unfolding o using D(1) by (subst unat_sub) (simp_all add: word_le_nat_alt)
  then have "ds_offset (gdt_reg gs) \<le> 0xfffa" using D(1,2) by (simp add: word_le_nat_alt)
  then have "lgdt 0x2000 (ds_offset (gdt_reg gs)) m = Some (23, gs)"
    using D(5,6) by (simp only: lgdt_def Let_def b if_True) (simp add: add.assoc)
  then show ?thesis using load_flat [OF assms] by (simp add: protected_mode_def)
qed

text \<open>The stores in protected mode: the two return addresses and the table of gates.\<close>

lemma push_return_window:
  assumes "cr3_reg p = 0xf000" "mapped_early n (p_mem p)" "p_esp p = 0xC000F000"
  shows "push_return ret p = Some (p\<lparr>p_esp := 0xC000EFFC, p_mem := store32 0xC000EFFC ret (p_mem p)\<rparr>)"
  using assms writable_window [OF assms(2), of "0xC000EFFC" 4] by (simp add: push_return_def)

lemma return_word_other: "0xC000F000 \<le> x \<Longrightarrow> store32 0xC000EFFC ret M x = M x"
  by (rule store32_other) (simp_all add: word_le_nat_alt)

lemma mapped_return: "mapped_early n M \<Longrightarrow> mapped_early n (store32 0xC000EFFC ret M)"
  by (erule mapped_cong) (rule return_word_other)

lemma idt_before:
  assumes "0xC0020000 \<le> gs" "gs \<le> 0xC0030000" "x < 0xC0020000"
  shows "set_init_idt (idt_start gs) u M x = M x"
proof -
  have "unat (x - (gs + 30)) = unat x + 4294967296 - (unat gs + 30)"
  proof -
    have "unat (gs + 30) = unat gs + 30" using assms(2) by (simp add: unat_word_ariths word_le_nat_alt)
    then show ?thesis using assms by (simp add: unat_sub_if' word_le_nat_alt word_less_nat_alt)
  qed
  then have "8 * 256 \<le> unat (x - (gs + 30))" using assms(1,2) by (simp add: word_le_nat_alt)
  then show ?thesis unfolding set_init_idt_def idt_start_def Let_def by (rule idt_loop_other)
qed

lemma load_idt_window:
  fixes p :: processor and ret isr gs x :: u32
  assumes "cr3_reg p = 0xf000" "mapped_early n (p_mem p)" "p_esp p = 0xC000F000"
    "kernel_data gs (\<lambda>x. p_mem p (ptov x))"
  defines "M \<equiv> set_init_idt (idt_start gs) isr (store32 0xC000EFFC ret (p_mem p))"
  shows "load_idt gs isr ret p = Some (p\<lparr>p_mem := M, idtr := (2047, idt_start gs)\<rparr>)" "mapped_early n M"
    "0xC000F000 \<le> x \<Longrightarrow> 2048 \<le> unat (x - idt_start gs) \<Longrightarrow> M x = p_mem p x"
proof -
  let ?M = "store32 0xC000EFFC ret (p_mem p)"
  note D = kernel_dataD [OF assms(4)]
  have gs: "0xC0020000 \<le> gs" "gs \<le> 0xC0030000" using D(1,2) by (simp_all add: word_le_nat_alt)
  have i: "unat (idt_start gs) = unat gs + 30"
    using data_address(1) [OF assms(4), of 30] by (simp add: idt_start_def)
  have w: "writable 0xf000 ?M (idt_start gs) 2048"
    by (rule writable_window [OF mapped_return [OF assms(2)]]) (use i D(1,2) in simp_all)
  show early: "mapped_early n M"
    using mapped_cong [OF mapped_return [OF assms(2)], of M ret] idt_before [OF gs] by (simp add: M_def)
  have at: "M (gs + of_nat k) = p_mem p (gs + of_nat k)" if "2078 \<le> k" "k < 2088" for k
  proof -
    have "unat (gs + of_nat k) = unat gs + k" using data_address(1) [OF assms(4)] that by simp
    then have "?M (gs + of_nat k) = p_mem p (gs + of_nat k)" using D(1) by (intro return_word_other) (simp add: word_le_nat_alt)
    then show ?thesis using idt_at_other [of k gs isr ?M] that by (simp add: M_def)
  qed
  have v: "vtop gs + 2078 = vtop (gs + 2078)" "vtop gs + 2080 = vtop (gs + 2080)" by (simp_all add: vtop_def)
  have "load16 M (idt_reg gs) = load16 (p_mem p) (gs + 2078)"
    using at [of 2078] at [of 2079] by (simp add: load16_def idt_reg_def add.assoc)
  moreover have "load32 M (idt_reg gs + 2) = load32 (p_mem p) (gs + 2080)"
    unfolding idt_reg_def using at [of 2080] at [of 2081] at [of 2082] at [of 2083] by (simp add: load32_def add.assoc)
  moreover have "load16 (p_mem p) (gs + 2078) = 2047" "load32 (p_mem p) (gs + 2080) = idt_start gs"
    using D(7,8) load_linear [of "\<lambda>x. p_mem p (ptov x)", symmetric] v by simp_all
  moreover note r = push_return_window [OF assms(1-3), of ret]
  ultimately show "load_idt gs isr ret p = Some (p\<lparr>p_mem := M, idtr := (2047, idt_start gs)\<rparr>)"
    using w assms(1,3) by (simp add: load_idt_def Let_def M_def [symmetric])
  show "M x = p_mem p x" if "0xC000F000 \<le> x" "2048 \<le> unat (x - idt_start gs)"
    using idt_loop_other [of 256 x "idt_start gs"] that return_word_other [OF that(1)] by (simp add: M_def set_init_idt_def)
qed

text \<open>The memory at the call of \<open>main\<close>.\<close>

lemma memory_for_main:
  fixes ret1 ret2 isr gs x :: u32
  assumes data: "kernel_data gs m" and early: "mapped_early n (linear m)"
  defines "M \<equiv> set_init_idt (idt_start gs) isr (store32 0xC000EFFC ret1 (linear m))"
  defines "Q \<equiv> store32 0xC000EFFC ret2 M"
  shows "mapped_early n Q"
    "i < 256 \<Longrightarrow> load32 Q (idt_start gs + of_nat (8 * i)) = load32 M (idt_start gs + of_nat (8 * i)) \<and>
       load32 Q (idt_start gs + of_nat (8 * i) + 4) = load32 M (idt_start gs + of_nat (8 * i) + 4)"
    "0xC0020000 \<le> x \<Longrightarrow> 2048 \<le> unat (x - idt_start gs) \<Longrightarrow> Q x = m (vtop x)"
    "load32 Q (init_ram_pages gs) = load32 m (vtop gs + 2084)"
proof -
  note D = kernel_dataD(1,2) [OF data]
  have gs: "0xC0020000 \<le> gs" "gs \<le> 0xC0030000" using D by (simp_all add: word_le_nat_alt)
  show "mapped_early n Q" unfolding Q_def M_def
    by (intro mapped_return mapped_cong [OF mapped_return [OF early, of ret1]] idt_before [OF gs])
  have q: "Q (gs + of_nat k) = M (gs + of_nat k)" if "k < 2088" for k
    unfolding Q_def using data_address(1) [OF data that] D(1) by (intro return_word_other) (simp add: word_le_nat_alt)
  have w: "load32 Q (gs + of_nat k) = load32 M (gs + of_nat k)" if "k + 3 < 2088" for k
    using q [of k] q [of "k + 1"] q [of "k + 2"] q [of "k + 3"] that by (intro load32_cong) (simp_all add: ac_simps)
  show "load32 Q (idt_start gs + of_nat (8 * i)) = load32 M (idt_start gs + of_nat (8 * i)) \<and>
       load32 Q (idt_start gs + of_nat (8 * i) + 4) = load32 M (idt_start gs + of_nat (8 * i) + 4)" if "i < 256"
    using w [of "30 + 8 * i"] w [of "34 + 8 * i"] that by (simp add: idt_start_def algebra_simps)
  have f: "Q x = m (vtop x)" if "0xC0020000 \<le> x" "2048 \<le> unat (x - idt_start gs)" for x
  proof -
    have l: "0xC000F000 \<le> x" using that(1) by (simp add: word_le_nat_alt)
    have "M x = linear m x"
      unfolding M_def set_init_idt_def Let_def using idt_loop_other [of 256 x "idt_start gs"] that(2) return_word_other [OF l] by simp
    then show ?thesis unfolding Q_def using return_word_other [OF l] by (simp add: linear_def)
  qed
  then show "0xC0020000 \<le> x \<Longrightarrow> 2048 \<le> unat (x - idt_start gs) \<Longrightarrow> Q x = m (vtop x)" .
  have "Q (gs + of_nat k) = m (vtop gs + of_nat k)" if "2084 \<le> k" "k < 2088" for k
  proof -
    have e: "gs + of_nat k - idt_start gs = of_nat (k - 30)" using that by (simp add: idt_start_def of_nat_diff)
    have "unat (gs + of_nat k - idt_start gs) = k - 30" unfolding e by (rule unat_of_nat32) (use that in simp)
    then have "Q (gs + of_nat k) = m (vtop (gs + of_nat k))"
      using that data_address(1) [OF data that(2)] D(1) by (intro f) (simp_all add: word_le_nat_alt)
    then show ?thesis by (simp add: vtop_def algebra_simps)
  qed
  from this [of 2084] this [of 2085] this [of 2086] this [of 2087]
  show "load32 Q (init_ram_pages gs) = load32 m (vtop gs + 2084)"
    by (simp add: load32_def init_ram_pages_def add.assoc)
qed

section \<open>Properties\<close>

text \<open>
  C11: The start of the kernel: loaded with its data within 64 kB of the image's start, on a machine of
  at least 4 MB whose BIOS and keyboard controller answer, the real mode code comes to the call of
  \<open>main\<close>. There the processor is in protected mode with paging, write protection, no coprocessor and
  interrupts off; the page tables map the first memory (up to 64 MB) at its physical addresses
  and from 3 GB on, and nothing else; all segments are flat; the stack is the loader's, seen at 3 GB,
  with the return address on it; the interrupt table register covers 256 gates to the first handler; the
  size of the memory is in its variable, and nothing else of the image has changed.
\<close>

theorem start_enters_main:
  assumes data: "kernel_data gs m" and esp: "p_esp p = 0xf000"
    and size: "detect_memory eax bios = Some n" "1024 \<le> n" and a20: "enable_a20 dev h = Some h'"
  shows "\<exists>q. start bios eax dev gs isr ret1 ret2 m p h = Some (q, h') \<and>
    cr0 q = cr0 p OR 0x80010005 \<and> \<not> p_if q \<and>
    (\<forall>v. walk (p_mem q) (cr3_reg q) v =
      (let size = 0x400000 * tables_mapped n
       in if unat v < size then Some (v, True, True)
          else if 0xC0000000 \<le> unat v \<and> unat v < 0xC0000000 + size then Some (v - 0xC0000000, True, True)
          else None)) \<and>
    code_seg q = (SEL_KCSEG, flat 0x9a) \<and> {stack_seg q, ds_seg q, es_seg q, fs_seg q, gs_seg q} = {(SEL_KDSEG, flat 0x92)} \<and>
    p_ebp q = 0xC000F000 \<and> p_esp q = 0xC000EFFC \<and> load32 (p_mem q) (p_esp q) = ret2 \<and>
    idtr q = (8 * 256 - 1, idt_start gs) \<and>
    (\<forall>i<256. let lower = load32 (p_mem q) (idt_start gs + of_nat (8 * i));
                 upper = load32 (p_mem q) (idt_start gs + of_nat (8 * i) + 4)
             in (lower AND 0xffff) OR (upper AND 0xffff0000) = isr \<and> drop_bit 16 lower = 0x08 \<and> upper AND 0xffff = 0x8e00) \<and>
    load32 (p_mem q) (init_ram_pages gs) = n \<and>
    (\<forall>x. 0xC0020000 \<le> x \<and> 2048 \<le> unat (x - idt_start gs) \<and> 4 \<le> x - init_ram_pages gs \<longrightarrow> p_mem q x = m (vtop x))"
proof -
  obtain m1 m2 where r: "es_store 0x2000 (ds_offset (init_ram_pages gs)) n m = Some m1"
    "ds_load 0x2000 (ds_offset (init_ram_pages gs)) m1 = Some n" "temporary_tables n m1 = Some m2"
    "kernel_data gs m2" "mapped_early (tables_mapped n) (linear m2)" "load32 m2 (vtop gs + 2084) = n"
    "\<And>x. 0x20000 \<le> unat x \<Longrightarrow> 4 \<le> x - (vtop gs + 2084) \<Longrightarrow> m2 x = m x"
    using real_mode [OF data size(2)] by blast
  define p0 where "p0 = p\<lparr>cr3_reg := 0xf000, p_if := False, gdtr := (23, gs), cr0 := cr0 p OR 0x80010005,
    p_mem := linear m2, code_seg := (SEL_KCSEG, flat 0x9a)\<rparr>"
  define p1 where "p1 = p0\<lparr>ds_seg := (SEL_KDSEG, flat 0x92), stack_seg := (SEL_KDSEG, flat 0x92), es_seg := (SEL_KDSEG, flat 0x92),
    fs_seg := (SEL_KDSEG, flat 0x92), gs_seg := (SEL_KDSEG, flat 0x92), p_esp := 0xC000F000, p_ebp := 0xC000F000\<rparr>"
  define M where "M = set_init_idt (idt_start gs) isr (store32 0xC000EFFC ret1 (linear m2))"
  define q where "q = p1\<lparr>p_esp := 0xC000EFFC, p_mem := store32 0xC000EFFC ret2 M, idtr := (2047, idt_start gs)\<rparr>"
  have p1: "cr3_reg p1 = 0xf000" "p_mem p1 = linear m2" "p_esp p1 = 0xC000F000" by (simp_all add: p1_def p0_def)
  note idt = load_idt_window [of p1, unfolded p1, OF refl r(5) refl, unfolded linear_ptov, OF r(4), where isr = isr and ret = ret1, folded M_def]
  have "protected_mode gs m2 p = Some p0" unfolding p0_def by (rule protected_mode_enters [OF r(5,4)])
  moreover have "load_segments p0 = Some p1"
    using load_flat(2) [OF r(5,4)] esp by (simp add: load_segments_def p0_def p1_def)
  moreover have "push_return ret2 (p1\<lparr>p_mem := M, idtr := (2047, idt_start gs)\<rparr>) = Some q"
    using push_return_window [of "p1\<lparr>p_mem := M, idtr := (2047, idt_start gs)\<rparr>"] idt(2) p1 by (simp add: q_def)
  ultimately have run: "start bios eax dev gs isr ret1 ret2 m p h = Some (q, h')"
    using size(1) r(1-3) a20 idt(1) by (simp add: start_def Let_def)
  note mem = memory_for_main [OF r(4,5), where isr = isr and ?ret1.0 = ret1 and ?ret2.0 = ret2, folded M_def]
  have Q: "p_mem q = store32 0xC000EFFC ret2 M" "cr3_reg q = 0xf000" using p1 by (simp_all add: q_def)
  have frame: "p_mem q x = m (vtop x)" if "0xC0020000 \<le> x" "2048 \<le> unat (x - idt_start gs)" "4 \<le> x - init_ram_pages gs" for x
  proof -
    have "unat (vtop x) = unat x - 3221225472" using that(1) by (simp add: vtop_def unat_sub word_le_nat_alt)
    moreover have "vtop x - (vtop gs + 2084) = x - init_ram_pages gs" by (simp add: vtop_def init_ram_pages_def)
    ultimately have "m2 (vtop x) = m (vtop x)"
      using that(1,3) by (intro r(7)) (simp_all add: word_le_nat_alt)
    then show ?thesis unfolding Q using mem(3) that by simp
  qed
  show ?thesis
    by (rule exI [of _ q], intro conjI run)
      (use mem(1,2,4) mapped_walk [OF mem(1)] set_init_idt_gates r(6) frame in \<open>simp_all add: Q M_def q_def p1_def p0_def\<close>)
qed

section \<open>A concrete start\<close>

text \<open>The data at \<open>0xC0020100\<close> on the machine of 128 MB, with a keyboard controller that is never busy.\<close>

definition data_image :: memory where
  "data_image =
     store32 0x20920 0xC002011E (store16 0x2091e 2047 (store32 0x2011a 0xC0020100 (store16 0x20118 23
       (store32 0x20114 0x00cf9200 (store32 0x20110 0xffff (store32 0x2010c 0x00cf9a00 (store32 0x20108 0xffff (\<lambda>_. 0))))))))"

lemma data_image_kernel: "kernel_data 0xC0020100 data_image"
proof -
  have v: "vtop 0xC0020100 = 0x20100" by (simp add: vtop_def)
  have "load32 data_image (0x20100 + of_nat (8 * i)) = ucast (gdt ! i) \<and>
      load32 data_image (0x20100 + of_nat (8 * i) + 4) = ucast (drop_bit 32 (gdt ! i))" if "i < 3" for i
  proof -
    have "i = 0 \<or> i = 1 \<or> i = 2" using that by linarith
    then show ?thesis by (elim disjE) (simp_all add: data_image_def gdt_def load_sep, simp_all add: load32_def)
  qed
  moreover have "load16 data_image 0x20118 = 23" "load32 data_image 0x2011a = 0xC0020100"
    "load16 data_image 0x2091e = 2047" "load32 data_image 0x20920 = 0xC002011E"
    by (simp_all add: data_image_def load_sep)
  ultimately show ?thesis by (simp add: kernel_data_def v idt_start_def)
qed

definition real_processor :: processor where
  "real_processor = \<lparr>cr0 = 0x10, cr3_reg = 0, gdtr = (0, 0), idtr = (0x3ff, 0), code_seg = (0x2000, flat 0), stack_seg = (0, flat 0),
     ds_seg = (0, flat 0), es_seg = (0, flat 0), fs_seg = (0, flat 0), gs_seg = (0, flat 0),
     p_esp = 0xf000, p_ebp = 0, p_if = True, p_mem = (\<lambda>_. 0)\<rparr>"

theorem start_enters_main_witness:
  "\<exists>q h. start (e820_map map_128m) 0xfc00 (\<lambda>_ _. 0) 0xC0020100 0xC0020380 1 2 data_image real_processor [] = Some (q, h) \<and>
    cr0 q = 0x80010015 \<and> walk (p_mem q) (cr3_reg q) 0xC0020123 = Some (0x20123, True, True) \<and> load32 (p_mem q) 0xC0020924 = 0x7fe0"
proof -
  have d: "detect_memory 0xfc00 (e820_map map_128m) = Some 0x7fe0"
    using e820_loop_map [of 0 map_128m] by (simp add: detect_memory_def e820_size_def map_128m_def scan_goes_on_def)
  have "a20_poll (\<lambda>_ _. 0) h = Some (h @ [InB 0x64 0])" for h
    by (subst a20_poll.simps) (simp add: inb_def)
  then obtain h where h: "enable_a20 (\<lambda>_ _. 0) [] = Some h" by (simp add: enable_a20_def)
  have p: "p_esp real_processor = 0xf000" "(1024 :: u32) \<le> 0x7fe0" by (simp_all add: real_processor_def)
  have "tables_mapped 0x7fe0 = 16" by (simp add: tables_mapped_def)
  then show ?thesis
    using start_enters_main [OF data_image_kernel p(1) d p(2) h, of "0xC0020380" 1 2]
    by (auto simp: real_processor_def init_ram_pages_def)
qed

end
