(* ===== verification/Early_Boot.thy ===== *)
theory Early_Boot
  imports Start_Mode
begin

text \<open>
  Where \<open>boot/start.S\<close> and \<open>kernel/init.c\<close> meet: \<open>kernel_pg_dir_init\<close> builds the kernel's tables while
  the temporary ones are in force. The pages the allocator hands out for them are the lowest of
  the pool, so they lie in the first 4 MB, which the temporary tables map.
\<close>

section \<open>The pages taken\<close>

lemma card_taken:
  "card (taken s) + free_pages s = pool_pages s"
proof -
  have sub: "taken s \<subseteq> {pool_base_page s ..< pool_base_page s + pool_pages s}" by (auto simp: taken_def)
  then have fin: "finite (taken s)" by (rule finite_subset) simp
  have "card (taken s) \<le> card {pool_base_page s ..< pool_base_page s + pool_pages s}" by (rule card_mono) (use sub in auto)
  then show ?thesis using card_Diff_subset [OF fin sub] by (simp add: free_pages_def)
qed

lemma packed_empty: "taken s = {} \<Longrightarrow> packed s"
  by (simp add: packed_def)

text \<open>Growth by at most \<open>k\<close> pages from an empty pool.\<close>

lemma grown_low:
  assumes "grows s t" "taken s = {}" "free_pages s \<le> free_pages t + k"
  shows "taken t \<subseteq> {pool_base_page s ..< pool_base_page s + k}"
proof -
  have g: "pool_base_page t = pool_base_page s" "pool_pages t = pool_pages s" "packed t"
    using assms(1) packed_empty [OF assms(2)] by (auto simp: grows_def)
  have "card (taken t) \<le> k"
    using card_taken [of s] card_taken [of t] assms(2,3) g(2) by simp
  then have "{pool_base_page s ..< pool_base_page s + card (taken t)} \<subseteq> {pool_base_page s ..< pool_base_page s + k}" by auto
  with g(3) show ?thesis unfolding packed_def g(1) by (rule ord_eq_le_trans)
qed

text \<open>The bitmap of at most 1 GB takes at most 9 pages, the directory and the tables at most 257.\<close>

lemma first_pages:
  assumes "1024 \<le> n" "n < (262144 :: nat)"
  shows "bitmap_pages (n - 256) \<le> 9" "(n + 1023) div 1024 \<le> 256"
    "(n + 1023) div 1024 + 1 \<le> n - 256 - bitmap_pages (n - 256)"
proof -
  show b: "bitmap_pages (n - 256) \<le> 9" using assms(2) unfolding bitmap_pages_def by linarith
  show "(n + 1023) div 1024 \<le> 256" using assms(2) by linarith
  show "(n + 1023) div 1024 + 1 \<le> n - 256 - bitmap_pages (n - 256)" using assms(1) b by linarith
qed

section \<open>Properties\<close>

text \<open>
  C12: The temporary page tables carry the boot until the kernel has its own. With 4 MB to 1 GB of
  memory, the pool made by \<open>mm_init\<close> and the tables of \<open>start\<close> in memory, \<open>kernel_pg_dir_init\<close>
  returns; every page it takes and writes to is mapped there, writable, where the kernel sees it;
  nothing else of the byte memory is written (the pool's bitmap, a record in the model, lies right
  below its pages), so that the temporary tables are intact up to the load of \<open>cr3\<close>.
\<close>

theorem early_tables_suffice:
  assumes "1024 \<le> unat n" "unat n < 262144" "mm_init buf n s0 = Inr s" "mapped_early k (mem s)"
  shows "\<exists>cr3 t. kernel_pg_dir_init start_text end_text n s = Inr (cr3, t) \<and> mapped_early k (mem t) \<and>
    (\<forall>v. unat v div 4096 \<in> taken t \<longrightarrow> walk (mem t) 0xf000 v = Some (vtop v, True, True)) \<and>
    (\<forall>v. unat v div 4096 \<notin> taken t \<longrightarrow> mem t v = mem s v)"
proof -
  let ?N = "(unat n + 1023) div 1024"
  have n: "256 < unat n" "unat n < 262144" using assms(1,2) by simp_all
  obtain s' where s': "mm_init buf n s0 = Inr s'" "pool_inv s'" "taken s' = {}"
    "pool_base_page s' = 786688 + bitmap_pages (unat n - 256)" "pool_pages s' = unat n - 256 - bitmap_pages (unat n - 256)"
    by (rule mm_init_ok [OF n])
  then have s: "pool_inv s" "taken s = {}" "pool_base_page s = 786688 + bitmap_pages (unat n - 256)"
    "free_pages s = unat n - 256 - bitmap_pages (unat n - 256)"
    using assms(3) card_taken [of s] by auto
  note P = first_pages [OF assms(1,2)]
  have free: "?N + 1 \<le> free_pages s" using P(3) by (simp only: s(4))
  have le: "unat n \<le> 262144" using n(2) by simp
  obtain pd ts pt t where t: "kernel_pg_dir_init start_text end_text n s = Inr (vtop pd, t)" "grows s t"
    "free_pages s \<le> free_pages t + ?N + 1"
    using pg_dir_init_grows [OF s(1) le free, of start_text end_text] by metis
  have low: "786688 \<le> p \<and> p < 786954" if "p \<in> taken t" for p
    using grown_low [OF t(2) s(2), of "?N + 1"] t(3) that s(3) P(1,2) by fastforce
  have frame: "mem t v = mem s v" if "unat v div 4096 \<notin> taken t" for v using t(2) that by (simp add: grows_def)
  have early: "mapped_early k (mem t)"
  proof (rule mapped_cong [OF assms(4)])
    fix x :: u32 assume "x < 0xC0020000"
    then have "unat x < 3221356544" by (simp add: word_less_nat_alt)
    then have "unat x div 4096 < 786688" by linarith
    then show "mem t x = mem s x" using low by (intro frame) fastforce
  qed
  moreover have "walk (mem t) 0xf000 v = Some (vtop v, True, True)" if "unat v div 4096 \<in> taken t" for v
  proof (rule mapped_window [OF early])
    have "3222274048 \<le> unat v" "unat v < 3223363584" using low [OF that] by linarith+
    then show "0xC0000000 \<le> v" "v < 0xC0400000" by (simp_all add: word_le_nat_alt word_less_nat_alt)
  qed
  ultimately show ?thesis using t(1) frame by blast
qed

section \<open>A machine of 128 MB\<close>

lemma mm_init_mem: "mm_init buf n s = Inr t \<Longrightarrow> mem t = mem s"
  by (auto simp: mm_init_def Let_def printk_mm_def split: prod.splits if_splits)

theorem early_tables_suffice_witness:
  "\<exists>s cr3 t. mm_init (bm (kernel_pool (pages start_kernel))) 0x7fe0 s = Inr t \<and> mapped_early 16 (mem t) \<and>
    (\<exists>u. kernel_pg_dir_init 0xC0020000 0xC0024000 0x7fe0 t = Inr (cr3, u) \<and> mapped_early 16 (mem u))"
proof -
  have n: "1024 \<le> unat (0x7fe0 :: u32)" "unat (0x7fe0 :: u32) < 262144" "256 < unat (0x7fe0 :: u32)" "(1024 :: u32) \<le> 0x7fe0" by simp_all
  have k: "tables_mapped 0x7fe0 = 16" by (simp add: tables_mapped_def)
  obtain m where m: "early_slots 16 m" using early_tables [OF n(4), of "\<lambda>_. 0"] unfolding k by metis
  let ?buf = "bm (kernel_pool (pages start_kernel))" and ?s = "(pages start_kernel)\<lparr>mem := linear m\<rparr>"
  obtain t where t: "mm_init ?buf 0x7fe0 ?s = Inr t" by (rule mm_init_ok [OF n(3,2)])
  then have "mapped_early 16 (mem t)" using m mm_init_mem [OF t] by (simp add: mapped_early_def)
  then show ?thesis using t early_tables_suffice [OF n(1,2) t] by blast
qed

end
