(* ===== verification/Disk_Run.thy ===== *)
theory Disk_Run
  imports Ide_Props
begin

text \<open>
  The disk driver runs to its end: in a kernel whose invariant holds, and with other tasks and
  interrupts that bring the waiting task back, every request and the initialisation return,
  whatever the hardware answers, and leave the invariant.
\<close>

section \<open>What the driver does to the kernel\<close>

text \<open>
  Between its waits the driver changes memory, the log and the interrupt flag of the kernel, and
  never the semaphores of an adaptor.
\<close>

definition kcore :: "kernel \<Rightarrow> kernel" where
  "kcore k = k\<lparr>pages := (pages k)\<lparr>mem := (\<lambda>_. 0), klog := []\<rparr>, intr_on := False\<rparr>"

definition config :: "ata_adaptor \<Rightarrow> ata_adaptor" where
  "config ch = ch\<lparr>ata_disks := (\<lambda>d. (ata_disks ch d)\<lparr>is_ata_disk := False, disk_sectors := 0\<rparr>)\<rparr>"

definition driver_frame :: "(u32 \<times> u32) set \<Rightarrow> machine \<Rightarrow> machine \<Rightarrow> bool" where
  "driver_frame P s t \<longleftrightarrow> gates t = gates s \<and> (\<forall>c. config (channels t c) = config (channels s c)) \<and>
     (\<forall>c d. (c, d) \<notin> P \<longrightarrow> disk_of c d t = disk_of c d s)"

definition keeps_kernel :: "(u32 \<times> u32) set \<Rightarrow> machine \<Rightarrow> machine \<Rightarrow> bool" where
  "keeps_kernel P s t \<longleftrightarrow> kcore (krn t) = kcore (krn s) \<and> driver_frame P s t"

lemma frame_refl [simp]: "driver_frame P s s"
  by (simp add: driver_frame_def)

lemma frame_trans: "driver_frame P s t \<Longrightarrow> driver_frame P t u \<Longrightarrow> driver_frame P s u"
  by (simp add: driver_frame_def)

lemma frame_mono: "driver_frame P s t \<Longrightarrow> P \<subseteq> P' \<Longrightarrow> driver_frame P' s t"
  by (auto simp: driver_frame_def)

lemma frame_same: "channels t = channels s \<Longrightarrow> gates t = gates s \<Longrightarrow> driver_frame P s t"
  by (simp add: driver_frame_def disk_of_def)

lemma config_fields:
  assumes "config a = config b"
  shows "sema_wait a = sema_wait b" "sema_rw a = sema_rw b" "reg_base a = reg_base b" "irq a = irq b"
    "dev_no (ata_disks a d) = dev_no (ata_disks b d)" "disk_name (ata_disks a d) = disk_name (ata_disks b d)"
proof -
  show "sema_wait a = sema_wait b" using arg_cong [OF assms, of sema_wait] by (simp add: config_def)
  show "sema_rw a = sema_rw b" using arg_cong [OF assms, of sema_rw] by (simp add: config_def)
  show "reg_base a = reg_base b" using arg_cong [OF assms, of reg_base] by (simp add: config_def)
  show "irq a = irq b" using arg_cong [OF assms, of irq] by (simp add: config_def)
  show "dev_no (ata_disks a d) = dev_no (ata_disks b d)"
    using arg_cong [OF assms, of "\<lambda>x. dev_no (ata_disks x d)"] by (simp add: config_def)
  show "disk_name (ata_disks a d) = disk_name (ata_disks b d)"
    using arg_cong [OF assms, of "\<lambda>x. disk_name (ata_disks x d)"] by (simp add: config_def)
qed

lemma frame_fields:
  assumes "driver_frame P s t"
  shows "sema_wait (channels t c) = sema_wait (channels s c)" "sema_rw (channels t c) = sema_rw (channels s c)"
    "reg_base (channels t c) = reg_base (channels s c)" "irq (channels t c) = irq (channels s c)"
    "dev_no (disk_of c d t) = dev_no (disk_of c d s)" "disk_name (disk_of c d t) = disk_name (disk_of c d s)"
    "gates t = gates s"
proof -
  have "config (channels t c) = config (channels s c)" using assms by (simp add: driver_frame_def)
  note c = config_fields [OF this]
  show "sema_wait (channels t c) = sema_wait (channels s c)" "sema_rw (channels t c) = sema_rw (channels s c)"
    "reg_base (channels t c) = reg_base (channels s c)" "irq (channels t c) = irq (channels s c)"
    "dev_no (disk_of c d t) = dev_no (disk_of c d s)" "disk_name (disk_of c d t) = disk_name (disk_of c d s)"
    using c by (simp_all add: disk_of_def)
  show "gates t = gates s" using assms by (simp add: driver_frame_def)
qed

lemma frame_disk:
  assumes "driver_frame P s t" "(c, d) \<in> P" "\<And>k. (f k)\<lparr>is_ata_disk := False, disk_sectors := 0\<rparr> = k\<lparr>is_ata_disk := False, disk_sectors := 0\<rparr>"
  shows "driver_frame P s (upd_disk c d f t)"
proof -
  have "config (channels (upd_disk c d f t) x) = config (channels t x)" for x
    using assms(3) by (auto simp: upd_disk_def config_def fun_eq_iff intro!: ata_adaptor.equality)
  moreover have "disk_of x y (upd_disk c d f t) = disk_of x y t" if "(x, y) \<notin> P" for x y
    using that assms(2) by (auto simp: upd_disk_def disk_of_def)
  ultimately show ?thesis using assms(1) by (simp add: driver_frame_def) (simp add: upd_disk_def)
qed

named_theorems kept \<open>operations that keep the kernel\<close>

lemma keeps_kernel_refl [simp, kept]: "keeps_kernel P s s"
  by (simp add: keeps_kernel_def)

lemma keepsD: "keeps_kernel P s t \<Longrightarrow> driver_frame P s t"
  by (simp add: keeps_kernel_def)

text \<open>A step keeps the kernel after steps that do.\<close>

lemma keeps_basic [kept]:
  "keeps_kernel P s t \<Longrightarrow> keeps_kernel P s (t\<lparr>hist := h\<rparr>)"
  "keeps_kernel P s t \<Longrightarrow> keeps_kernel P s (sys_out p v t)"
  "keeps_kernel P s t \<Longrightarrow> keeps_kernel P s (snd (sys_in dev p t))"
  "keeps_kernel P s t \<Longrightarrow> keeps_kernel P s (sys_log f a t)"
  "keeps_kernel P s t \<Longrightarrow> keeps_kernel P s (set_mem m t)"
  "keeps_kernel P s t \<Longrightarrow> keeps_kernel P s (t\<lparr>krn := (krn t)\<lparr>intr_on := i\<rparr>\<rparr>)"
  by (simp_all add: keeps_kernel_def driver_frame_def disk_of_def kcore_def sys_out_def sys_in_eq sys_log_def printk_mm_def
      set_mem_def)

lemma keeps_disk [kept]:
  assumes "keeps_kernel P s t" "(c, d) \<in> P"
  shows "keeps_kernel P s (upd_disk c d (\<lambda>k. k\<lparr>is_ata_disk := b\<rparr>) t)"
    "keeps_kernel P s (upd_disk c d (\<lambda>k. k\<lparr>disk_sectors := n\<rparr>) t)"
proof -
  have "krn (upd_disk c d f t) = krn t" for f by (simp add: upd_disk_def)
  then show "keeps_kernel P s (upd_disk c d (\<lambda>k. k\<lparr>is_ata_disk := b\<rparr>) t)"
    "keeps_kernel P s (upd_disk c d (\<lambda>k. k\<lparr>disk_sectors := n\<rparr>) t)"
    using assms by (simp_all add: keeps_kernel_def frame_disk)
qed

lemma keeps_select_disk [kept]: "keeps_kernel P s t \<Longrightarrow> keeps_kernel P s (select_disk c d t)"
  by (simp add: select_disk_def Let_def kept)

lemma keeps_busy_loop: "keeps_kernel P s t \<Longrightarrow> keeps_kernel P s (snd (wait_busy_loop dev c n t))"
  by (induction n arbitrary: t) (simp_all add: Let_def sys_in_eq kept)

lemma keeps_idle_loop: "keeps_kernel P s t \<Longrightarrow> keeps_kernel P s (wait_idle_loop dev c d n t)"
  by (induction n arbitrary: t) (simp_all add: Let_def sys_in_eq kept)

lemma keeps_reset_loop: "keeps_kernel P s t \<Longrightarrow> keeps_kernel P s (wait_reset_loop dev c n t)"
  by (induction n arbitrary: t) (simp_all add: Let_def sys_in_eq kept)

lemma keeps_waits [kept]:
  assumes "keeps_kernel P s t"
  shows "keeps_kernel P s (snd (wait_while_busy dev c d t))" "keeps_kernel P s (wait_until_idle dev c d t)"
    "keeps_kernel P s (wait_reset_loop dev c n t)"
  using assms by (simp_all add: wait_while_busy_def wait_until_idle_def keeps_busy_loop keeps_idle_loop keeps_reset_loop kept)

lemma keeps_requests [kept]:
  assumes "keeps_kernel P s t"
  shows "keeps_kernel P s (select_disk_wait dev c d t)" "keeps_kernel P s (issue_pio_cmd c cmd t)"
    "keeps_kernel P s (select_sector dev c d n t)" "keeps_kernel P s (input_sector dev c buf t)" "keeps_kernel P s (output_sector c buf t)"
  using assms
  by (simp_all add: select_disk_wait_def issue_pio_cmd_def select_sector_def input_sector_def output_sector_def Let_def case_prod_beta kept)

lemma keeps_probe [kept]: "keeps_kernel P s t \<Longrightarrow> keeps_kernel P s (snd (probe dev c d t))"
  by (simp add: probe_def Let_def sys_in_eq kept)

lemma keeps_detect [kept]:
  assumes "keeps_kernel P s t"
  shows "keeps_kernel P s (reset_adaptor dev c t)" "(c, d) \<in> P \<Longrightarrow> keeps_kernel P s (snd (check_disk_type dev c d t))"
  using assms by (simp_all add: reset_adaptor_def check_disk_type_def Let_def sys_in_eq case_prod_beta kept)

section \<open>The waiting task comes back\<close>

lemma sys_kcore: "sys S idle Q A (kcore k) = sys S idle Q A k"
  by (simp add: kcore_def sys_def kernel_inv_def task_ok_def valid_task_def pool_inv_def pool_base_page_def pool_pages_def
      taken_def running_def waits_ok_def sema_free_def)

lemma kcore_current: "current (kcore k) = current k"
  by (simp add: kcore_def)

definition at_task :: "u32 set \<Rightarrow> u32 \<Rightarrow> u32 \<Rightarrow> machine \<Rightarrow> bool" where
  "at_task S idle me s \<longleftrightarrow> sys_inv S idle (krn s) \<and> current (krn s) = me"

lemma keeps_at_task:
  assumes "keeps_kernel P s t" "at_task S idle me s"
  shows "at_task S idle me t"
proof -
  have k: "kcore (krn t) = kcore (krn s)" using assms(1) by (simp add: keeps_kernel_def)
  then have "current (krn t) = current (krn s)" by (metis kcore_current)
  moreover have "sys S idle Q A (krn t) = sys S idle Q A (krn s)" for Q A
    by (metis k sys_kcore)
  ultimately show ?thesis using assms(2) by (simp add: at_task_def sys_inv_def)
qed

text \<open>
  Whatever happens during a wait, the task that waits runs again, with the adaptors and the
  interrupt gates as they were.
\<close>

definition env_returns :: "u32 set \<Rightarrow> u32 \<Rightarrow> u32 \<Rightarrow> env \<Rightarrow> bool" where
  "env_returns S idle me env \<longleftrightarrow>
     (\<forall>s. sys_inv S idle (krn s) \<and> current (krn s) \<noteq> me \<longrightarrow> (\<exists>s'. env s = Inr s' \<and> at_task S idle me s')) \<and>
     (\<forall>s s'. env s = Inr s' \<longrightarrow> channels s' = channels s \<and> gates s' = gates s)"

lemma down_returns:
  assumes "at_task S idle me s" "me \<noteq> idle" "env_returns S idle me env" "a \<in> S"
  obtains s' where "down env a s = Inr s'" "at_task S idle me s'" "channels s' = channels s" "gates s' = gates s"
proof -
  obtain Q A where q: "sys S idle Q A (krn s)" and c: "current (krn s) = me"
    using assms(1) by (auto simp: at_task_def sys_inv_def)
  obtain k where k: "sema_down a (krn s) = Inr k" "sys_inv S idle k"
    using sys_down [OF q assms(4)] c assms(2) by (auto dest: sys_afterD)
  show ?thesis
  proof (cases "current k = me")
    case True
    then show ?thesis using that [of "s\<lparr>krn := k\<rparr>"] k c by (simp add: down_def at_task_def)
  next
    case False
    have "sys_inv S idle (krn (s\<lparr>krn := k\<rparr>))" "current (krn (s\<lparr>krn := k\<rparr>)) \<noteq> me" using k(2) False by simp_all
    then obtain s' where "env (s\<lparr>krn := k\<rparr>) = Inr s'" "at_task S idle me s'" "channels s' = channels (s\<lparr>krn := k\<rparr>)"
      "gates s' = gates (s\<lparr>krn := k\<rparr>)"
      using assms(3) unfolding env_returns_def by blast
    then show ?thesis using that [of s'] k c False by (simp add: down_def)
  qed
qed

lemma sema_up_current: "sema_up a k = Inr k' \<Longrightarrow> current k' = current k"
  by (auto simp: sema_up_def lock_sema_def task_resume_def lock_list_def unlock_list_def unlock_sema_def
      upd_links_def upd_task_def upd_sema_def Let_def split: if_splits prod.splits)

lemma up_returns:
  assumes "at_task S idle me s" "a \<in> S"
  obtains s' where "up a s = Inr s'" "at_task S idle me s'" "channels s' = channels s" "gates s' = gates s"
proof -
  obtain Q A where q: "sys S idle Q A (krn s)" and c: "current (krn s) = me"
    using assms(1) by (auto simp: at_task_def sys_inv_def)
  obtain k where k: "sema_up a (krn s) = Inr k" "sys_inv S idle k"
    using sys_up [OF q assms(2)] by (auto dest: sys_afterD)
  then show ?thesis
    using that [of "s\<lparr>krn := k\<rparr>"] sema_up_current [OF k(1)] c by (simp add: up_def at_task_def)
qed

section \<open>Requests\<close>

definition request_ready :: "u32 set \<Rightarrow> u32 \<Rightarrow> u32 \<Rightarrow> env \<Rightarrow> u32 \<Rightarrow> machine \<Rightarrow> bool" where
  "request_ready S idle me env c s \<longleftrightarrow> at_task S idle me s \<and> me \<noteq> idle \<and> env_returns S idle me env \<and>
     sema_wait (channels s c) \<in> S \<and> sema_rw (channels s c) \<in> S"

text \<open>A read returns when its two waits do: the one for the mutex, and the one for the interrupt after the request.\<close>

lemma ide_read_ends:
  assumes 1: "down env (sema_rw (channels s c)) s = Inr s1" "at_task S idle me s1" "channels s1 = channels s"
    and 2: "\<And>sq. keeps_kernel {} s1 sq \<Longrightarrow>
      \<exists>s2. down env (sema_wait (channels sq c)) sq = Inr s2 \<and> at_task S idle me s2 \<and> channels s2 = channels sq \<and> P sq s2"
    and rw: "sema_rw (channels s c) \<in> S"
  obtains ret s' sq s2 s4 where "ide_read dev env buf sect_no (c, d) s = Inr (ret, s')" "at_task S idle me s'"
    "keeps_kernel {} s1 sq" "P sq s2" "keeps_kernel {} s2 s4" "at_task S idle me s4" "sema_rw (channels s4 c) = sema_rw (channels s c)"
    "up (sema_rw (channels s c)) s4 = Inr s'"
proof -
  define sq where "sq = issue_pio_cmd c CMD_READ_SECTOR_RETRY (select_sector dev c d sect_no s1)"
  have kq: "keeps_kernel {} s1 sq" unfolding sq_def by (intro kept keeps_kernel_refl)
  obtain s2 where 2: "down env (sema_wait (channels sq c)) sq = Inr s2" "at_task S idle me s2" "channels s2 = channels sq" "P sq s2"
    using 2 [OF kq] by blast
  obtain ok s3 where w: "wait_while_busy dev c d s2 = (ok, s3)" by fastforce
  define s4 where "s4 = (if ok then input_sector dev c buf s3 else s3)"
  have "keeps_kernel {} s2 (snd (wait_while_busy dev c d s2))" by (intro kept keeps_kernel_refl)
  then have k4: "keeps_kernel {} s2 s4" unfolding w s4_def by (simp add: kept)
  have e: "sema_rw (channels s4 c) = sema_rw (channels s c)"
    using 1(3) 2(3) by (simp add: frame_fields [OF keepsD [OF k4]] frame_fields [OF keepsD [OF kq]])
  have 4: "at_task S idle me s4" by (rule keeps_at_task [OF k4 2(2)])
  obtain s5 where 5: "up (sema_rw (channels s c)) s4 = Inr s5" "at_task S idle me s5"
    by (rule up_returns [OF 4 rw])
  have "ide_read dev env buf sect_no (c, d) s = Inr (if ok then BLOCK_SECTOR_SIZE else - 1, s5)"
    unfolding ide_read_def prod.case 1(1) bindE_simps Let_def sq_def [symmetric] 2(1) w
    using 5(1) e unfolding s4_def by (cases ok) simp_all
  then show ?thesis using that kq 2(4) k4 4 5 e by blast
qed

lemma ide_read_returns_if:
  assumes 1: "down env (sema_rw (channels s c)) s = Inr s1" "at_task S idle me s1" "channels s1 = channels s"
    and 2: "\<And>sq. keeps_kernel {} s1 sq \<Longrightarrow>
      \<exists>s2. down env (sema_wait (channels sq c)) sq = Inr s2 \<and> at_task S idle me s2 \<and> channels s2 = channels sq"
    and rw: "sema_rw (channels s c) \<in> S"
  shows "\<exists>ret s'. ide_read dev env buf sect_no (c, d) s = Inr (ret, s') \<and> at_task S idle me s'"
  by (rule ide_read_ends [OF 1, where P = "\<lambda>_ _. True" and dev = dev and buf = buf and sect_no = sect_no and d = d])
    (use 2 rw in auto)

lemma ide_read_returns:
  assumes "request_ready S idle me env c s"
  shows "\<exists>ret s'. ide_read dev env buf sect_no (c, d) s = Inr (ret, s') \<and> at_task S idle me s'"
proof -
  have r: "at_task S idle me s" "me \<noteq> idle" "env_returns S idle me env" "sema_wait (channels s c) \<in> S" "sema_rw (channels s c) \<in> S"
    using assms by (auto simp: request_ready_def)
  obtain s1 where 1: "down env (sema_rw (channels s c)) s = Inr s1" "at_task S idle me s1" "channels s1 = channels s"
    by (rule down_returns [OF r(1,2,3,5)])
  have "\<exists>s2. down env (sema_wait (channels sq c)) sq = Inr s2 \<and> at_task S idle me s2 \<and> channels s2 = channels sq"
    if k: "keeps_kernel {} s1 sq" for sq
  proof -
    have "sema_wait (channels sq c) \<in> S" using r(4) 1(3) by (simp add: frame_fields [OF keepsD [OF k]])
    then show ?thesis using down_returns [OF keeps_at_task [OF k 1(2)] r(2,3)] by metis
  qed
  then show ?thesis by (rule ide_read_returns_if [OF 1 _ r(5)])
qed

lemma ide_write_returns:
  assumes "request_ready S idle me env c s"
  shows "\<exists>ret s'. ide_write dev env buf sect_no (c, d) s = Inr (ret, s') \<and> at_task S idle me s'"
proof -
  have r: "at_task S idle me s" "me \<noteq> idle" "env_returns S idle me env" "sema_wait (channels s c) \<in> S" "sema_rw (channels s c) \<in> S"
    using assms by (auto simp: request_ready_def)
  obtain s1 where 1: "down env (sema_rw (channels s c)) s = Inr s1" "at_task S idle me s1" "channels s1 = channels s"
    by (rule down_returns [OF r(1,2,3,5)])
  define sq where "sq = issue_pio_cmd c CMD_WRITE_SECTOR_RETRY (select_sector dev c d sect_no s1)"
  obtain ok s3 where w: "wait_while_busy dev c d sq = (ok, s3)" by fastforce
  have k3: "keeps_kernel {} s1 (snd (wait_while_busy dev c d sq))" unfolding sq_def by (intro kept keeps_kernel_refl)
  then have q: "at_task S idle me s3" "sema_wait (channels s3 c) \<in> S" "sema_rw (channels s3 c) \<in> S"
    using keeps_at_task [OF k3 1(2)] r 1(3) by (simp_all add: frame_fields [OF keepsD [OF k3 [unfolded w snd_conv]]] w)
  show ?thesis
  proof (cases ok)
    case True
    have ko: "keeps_kernel {} s3 (output_sector c buf s3)" by (intro kept keeps_kernel_refl)
    have o: "at_task S idle me (output_sector c buf s3)" "channels (output_sector c buf s3) = channels s3"
      using keeps_at_task [OF ko q(1)] by (simp_all add: output_sector_def)
    obtain s4 where 4: "down env (sema_wait (channels s3 c)) (output_sector c buf s3) = Inr s4" "at_task S idle me s4"
        "channels s4 = channels s3"
      using down_returns [OF o(1) r(2,3) q(2)] o(2) by metis
    obtain s5 where 5: "up (sema_rw (channels s4 c)) s4 = Inr s5" "at_task S idle me s5"
      using up_returns [OF 4(2)] q(3) 4(3) by metis
    have "ide_write dev env buf sect_no (c, d) s = Inr (BLOCK_SECTOR_SIZE, s5)"
      unfolding ide_write_def prod.case 1(1) bindE_simps Let_def sq_def [symmetric] w
      using True 4(1) 5(1) by simp
    then show ?thesis using 5(2) by blast
  next
    case False
    obtain s5 where 5: "up (sema_rw (channels s3 c)) s3 = Inr s5" "at_task S idle me s5"
      using up_returns [OF q(1,3)] by metis
    have "ide_write dev env buf sect_no (c, d) s = Inr (- 1, s5)"
      unfolding ide_write_def prod.case 1(1) bindE_simps Let_def sq_def [symmetric] w
      using False 5(1) by simp
    then show ?thesis using 5(2) by blast
  qed
qed



section \<open>A scheduled machine with a disk\<close>

text \<open>
  The first idle task reads, the second stays ready; the mutex, at 8, is free and the wait
  semaphore, at 4, is not, so the read gives the processor away. What runs meanwhile brings
  the first one back.
\<close>

lemma scheduled_disk:
  obtains k idle me where "sys_inv {8, 4, 4096} idle k" "current k = me" "me \<noteq> idle"
proof -
  obtain i1 i2 s where s: "sched_init 4096 1 start_kernel = Inr s"
    "sys {4096} i1 ((\<lambda>_. [])(RUNQ := [i1, i2], WaitHead 4096 := [0xC009E000])) [i2, i1, 0xC009E000] s"
    "current s = i1" "count (semas s 4096) = 0" "6 \<le> free_pages (pages s)" "i1 \<noteq> i2"
    "priority (tasks s 0xC009E000) = 31" "priority (tasks s i1) = 31"
    by (rule start_scheduled)
  let ?Q = "(\<lambda>_. [])(RUNQ := [i1, i2], WaitHead 4096 := [0xC009E000])"
  have "sys {4096} i2 ?Q [i2, i1, 0xC009E000] s" using s(2) by (simp add: sys_def)
  then have "sys {4, 4096} i2 (?Q(WaitHead 4 := [])) [i2, i1, 0xC009E000] (sema_init 4 0 s)"
    by (rule sys_sema_init) simp
  then have "sys {8, 4, 4096} i2 (?Q(WaitHead 4 := [], WaitHead 8 := [])) [i2, i1, 0xC009E000]
      (sema_init 8 1 (sema_init 4 0 s))"
    by (rule sys_sema_init) simp
  moreover have "current (sema_init 8 1 (sema_init 4 0 s)) = i1" by (simp add: s(3))
  ultimately show ?thesis using that s(6) by (metis sys_inv_def)
qed

definition disk_machine :: "kernel \<Rightarrow> machine" where
  "disk_machine k = quiet_machine\<lparr>krn := k\<rparr>"

definition back_to :: "kernel \<Rightarrow> env" where
  "back_to k m = Inr (m\<lparr>krn := k\<rparr>)"

lemma disk_machine_ready:
  assumes "sys_inv {8, 4, 4096} idle k" "current k = me" "me \<noteq> idle"
  shows "request_ready {8, 4, 4096} idle me (back_to k) 0 (disk_machine k)"
  using assms
  by (simp add: request_ready_def at_task_def env_returns_def back_to_def disk_machine_def quiet_channel [simplified])

lemma disk_machine_down: "down (back_to k) a s = Inr t \<Longrightarrow> channels t = channels s"
  by (rule down_channels) (auto simp: back_to_def)



end
