(* ===== verification/Disk_Init.thy ===== *)
theory Disk_Init
  imports Disk_Run "HOL-Library.Sublist"
begin

text \<open>
  The initialisation of the disk driver, \<open>ide_init\<close>: it returns whatever the hardware answers,
  the drives it finds are block devices, and requests to them come to an end.
\<close>

section \<open>Identification\<close>

lemma info_string_returns:
  assumes "0 < k" "2 * k < 4294967296"
  shows "\<exists>m'. manipulate_info_string a (of_nat (2 * k)) m = Some m'"
  using info_string_loses_last_char [OF assms, of a m] by blast

lemma upd_disk_frames [simp]:
  "sys_mem (upd_disk c d f s) = sys_mem s" "krn (upd_disk c d f s) = krn s" "hist (upd_disk c d f s) = hist s"
  "disk_of c d (upd_disk c d f s) = f (disk_of c d s)"
  by (simp_all add: upd_disk_def sys_mem_def disk_of_def)

text \<open>The data of a drive that answers: its size is stored and the two strings are put right.\<close>

lemma identity_read:
  assumes k: "keeps_kernel {(c, d)} s2 s3"
  shows "\<exists>s'. (let s = input_sector dev c idbuf s3;
              sectors = load32 (sys_mem s) (idbuf + 120);
              s = upd_disk c d (\<lambda>k. k\<lparr>disk_sectors := sectors\<rparr>) s
          in bindE (spin (manipulate_info_string (idbuf + 20) 20 (sys_mem s))) (\<lambda>m.
             let s = set_mem m s
             in bindE (spin (manipulate_info_string (idbuf + 54) 40 (sys_mem s))) (\<lambda>m.
                let s = set_mem m s;
                    s = sys_log ''sectors %d \<newline>'' [sectors] s
                in Inr (sys_log ''Serial no. %s\<newline>Model no. %s\<newline>''
                          (string_arg (idbuf + 20) (sys_mem s) @ 0 # string_arg (idbuf + 54) (sys_mem s)) s)))) = Inr s' \<and>
    keeps_kernel {(c, d)} s2 s'"
proof -
  define s4 where "s4 = input_sector dev c idbuf s3"
  define n where "n = load32 (sys_mem s4) (idbuf + 120)"
  define s5 where "s5 = upd_disk c d (\<lambda>k. k\<lparr>disk_sectors := n\<rparr>) s4"
  obtain m1 where m1: "manipulate_info_string (idbuf + 20) 20 (sys_mem s5) = Some m1"
    using info_string_returns [of 10] by auto
  obtain m2 where m2: "manipulate_info_string (idbuf + 54) 40 m1 = Some m2"
    using info_string_returns [of 20] by auto
  have sm: "sys_mem (set_mem m1 s5) = m1" by (simp add: set_mem_def sys_mem_def)
  define s6 where "s6 = sys_log ''sectors %d \<newline>'' [n] (set_mem m2 (set_mem m1 s5))"
  let ?s' = "sys_log ''Serial no. %s\<newline>Model no. %s\<newline>''
    (string_arg (idbuf + 20) (sys_mem s6) @ 0 # string_arg (idbuf + 54) (sys_mem s6)) s6"
  have "keeps_kernel {(c, d)} s2 s6" unfolding s6_def s5_def s4_def by (intro kept k) simp
  then have "keeps_kernel {(c, d)} s2 ?s'" by (intro kept)
  then show ?thesis
    using m1 m2 sm by (intro exI [of _ ?s']) (simp add: Let_def spin_def s6_def s5_def s4_def n_def)
qed

lemma identify_returns:
  assumes t: "at_task S idle me s" "me \<noteq> idle" "env_returns S idle me env" and w: "sema_wait (channels s c) \<in> S"
  shows "\<exists>s'. identify_ata_device dev env idbuf c d s = Inr s' \<and> at_task S idle me s' \<and> driver_frame {(c, d)} s s'"
proof (cases "is_ata_disk (disk_of c d s)")
  case False
  then show ?thesis using t by (simp add: identify_ata_device_def)
next
  case True
  define sq where "sq = issue_pio_cmd c CMD_IDENTIFY_DEVICE (select_disk_wait dev c d
    (sys_log ''Identify ata disk (%s) ... '' (map ucast (disk_name (disk_of c d s))) s))"
  have kq: "keeps_kernel {(c, d)} s sq" unfolding sq_def by (intro kept keeps_kernel_refl)
  have q: "at_task S idle me sq" "sema_wait (channels sq c) \<in> S"
    using keeps_at_task [OF kq t(1)] w by (simp_all add: frame_fields [OF keepsD [OF kq]])
  obtain s2 where 2: "down env (sema_wait (channels sq c)) sq = Inr s2" "at_task S idle me s2"
      "channels s2 = channels sq" "gates s2 = gates sq"
    by (rule down_returns [OF q(1) t(2,3) q(2)])
  have f2: "driver_frame {(c, d)} s s2" by (rule frame_trans [OF keepsD [OF kq] frame_same [OF 2(3,4)]])
  obtain ok s3 where w3: "wait_while_busy dev c d s2 = (ok, s3)" by fastforce
  have "keeps_kernel {(c, d)} s2 (snd (wait_while_busy dev c d s2))" by (intro kept keeps_kernel_refl)
  then have k3: "keeps_kernel {(c, d)} s2 s3" unfolding w3 by simp
  let ?read = "(let s = input_sector dev c idbuf s3;
              sectors = load32 (sys_mem s) (idbuf + 120);
              s = upd_disk c d (\<lambda>k. k\<lparr>disk_sectors := sectors\<rparr>) s
          in bindE (spin (manipulate_info_string (idbuf + 20) 20 (sys_mem s))) (\<lambda>m.
             let s = set_mem m s
             in bindE (spin (manipulate_info_string (idbuf + 54) 40 (sys_mem s))) (\<lambda>m.
                let s = set_mem m s;
                    s = sys_log ''sectors %d \<newline>'' [sectors] s
                in Inr (sys_log ''Serial no. %s\<newline>Model no. %s\<newline>''
                          (string_arg (idbuf + 20) (sys_mem s) @ 0 # string_arg (idbuf + 54) (sys_mem s)) s))))"
  have run: "identify_ata_device dev env idbuf c d s =
     (if \<not> ok then Inr (upd_disk c d (\<lambda>k. k\<lparr>is_ata_disk := False\<rparr>) s3) else ?read)"
    unfolding identify_ata_device_def Let_def sq_def [symmetric] 2(1) bindE_simps w3 prod.case
    using True by simp
  have "keeps_kernel {(c, d)} s2 (upd_disk c d (\<lambda>k. k\<lparr>is_ata_disk := False\<rparr>) s3)"
    by (rule keeps_disk(1) [OF k3]) simp
  then obtain s' where "identify_ata_device dev env idbuf c d s = Inr s'" "keeps_kernel {(c, d)} s2 s'"
    using identity_read [OF k3, of dev idbuf] unfolding run by (cases ok) auto
  then show ?thesis
    using keeps_at_task [OF _ 2(2)] frame_trans [OF f2 keepsD] by blast
qed

section \<open>Drives, names and memory\<close>

text \<open>The four drives in the order of their initialisation, their structures and their names, hda to hdd.\<close>

definition drives :: "(u32 \<times> u32) list" where
  "drives = [(0, 0), (0, 1), (1, 0), (1, 1)]"

definition drive_addr :: "layout \<Rightarrow> u32 \<times> u32 \<Rightarrow> u32" where
  "drive_addr lay x = disk_addr lay (fst x) (snd x)"

definition drive_blk :: "layout \<Rightarrow> u32 \<times> u32 \<Rightarrow> u32" where
  "drive_blk lay x = blk_addr lay (fst x * NR_ATA_DISKS + snd x)"

definition drive_name :: "u32 \<times> u32 \<Rightarrow> u8 list" where
  "drive_name x = [104, 100, ucast (97 + fst x * NR_ATA_DISKS + snd x)]"

text \<open>The linker places objects apart: here only the four bytes of each name matter.\<close>

definition far :: "u32 \<Rightarrow> u32 \<Rightarrow> bool" where
  "far a b \<longleftrightarrow> unat a + 4 \<le> unat b \<or> unat b + 4 \<le> unat a"

definition good_layout :: "layout \<Rightarrow> bool" where
  "good_layout lay \<longleftrightarrow>
     (\<forall>x\<in>set drives. drive_addr lay x \<noteq> NULL \<and> unat (drive_addr lay x) < 4294967200 \<and>
        drive_blk lay x \<noteq> NULL \<and> unat (drive_blk lay x) < 4294967200 \<and>
        (\<forall>y\<in>set drives. far (drive_addr lay x) (block_name (drive_blk lay y)) \<and>
           (x \<noteq> y \<longrightarrow> far (drive_addr lay x) (drive_addr lay y) \<and>
              far (block_name (drive_blk lay x)) (block_name (drive_blk lay y)))))"

lemma drive_name_nonzero: "x \<in> set drives \<Longrightarrow> 0 \<notin> set (drive_name x)"
  by (auto simp: drives_def drive_name_def)

lemma drive_name_length [simp]: "length (drive_name x) = 3"
  by (simp add: drive_name_def)

lemma disk_name_text: "format_text [Lit 104, Lit 100, Conv False [] None 99] [97 + c * NR_ATA_DISKS + d] = drive_name (c, d)"
  by (simp add: format_text_def drive_name_def convert_def)

text \<open>The bytes of a name and its terminator, and the memory outside all of them.\<close>

definition in_name :: "u32 \<Rightarrow> u32 \<Rightarrow> bool" where
  "in_name a p \<longleftrightarrow> unat p \<le> unat a \<and> unat a \<le> unat p + 3"

definition names_frame :: "layout \<Rightarrow> memory \<Rightarrow> memory \<Rightarrow> bool" where
  "names_frame lay m m' \<longleftrightarrow> (\<forall>a. (\<forall>x\<in>set drives. \<not> in_name a (drive_addr lay x) \<and> \<not> in_name a (block_name (drive_blk lay x)))
     \<longrightarrow> m' a = m a)"

lemma names_frame_refl [simp]: "names_frame lay m m"
  by (simp add: names_frame_def)

lemma names_frame_trans: "names_frame lay m m1 \<Longrightarrow> names_frame lay m1 m2 \<Longrightarrow> names_frame lay m m2"
  by (simp add: names_frame_def)

lemma put_text_other:
  assumes "length s = 3" "unat buf < 4294967200" "\<not> in_name a buf"
  shows "put_text buf s m a = m a"
proof -
  have "\<not> unat (a - buf) \<le> 3"
  proof
    assume near: "unat (a - buf) \<le> 3"
    then have "unat (buf + (a - buf)) = unat buf + unat (a - buf)" using assms(2) by (intro unat_plus_no_wrap) simp
    then have "unat a = unat buf + unat (a - buf)" by simp
    then show False using assms(3) near unfolding in_name_def by linarith
  qed
  then show ?thesis using assms(1) by (simp add: put_text_def)
qed

lemma cstr_names_frame:
  assumes "cstr m p s" "length s = 3" "unat p < 4294967290" "names_frame lay m m'"
    and "\<forall>x\<in>set drives. far p (drive_addr lay x) \<and> far p (block_name (drive_blk lay x))"
  shows "cstr m' p s"
proof (rule cstr_agree [OF assms(1)])
  fix a :: u32 assume a: "unat p \<le> unat a" "unat a \<le> unat p + length s"
  have "\<not> in_name a q" if "far p q" for q using that a assms(2) unfolding far_def in_name_def by linarith
  then show "m' a = m a" using assms(4,5) unfolding names_frame_def by blast
qed (use assms in simp)

lemma put_text_names:
  assumes s: "length s = 3" "0 \<notin> set s" and buf: "unat buf < 4294967200"
  shows "cstr (put_text buf s m) buf s"
    and "cstr m p t \<Longrightarrow> length t = 3 \<Longrightarrow> unat p < 4294967290 \<Longrightarrow> far p buf \<Longrightarrow> cstr (put_text buf s m) p t"
proof -
  have "cstr (put_text buf s m) buf (take 3 s)"
  proof (rule cstr_take)
    have u: "unat (buf + of_nat i - buf) = i" if "i \<le> 3" for i using that by (simp add: unat_of_nat32)
    show "put_text buf s m (buf + of_nat i) = s ! i" if "i < 3" for i
      using u [of i] that s by (simp add: put_text_def)
    show "put_text buf s m (buf + of_nat 3) = 0" using u [of 3] s by (simp add: put_text_def)
  qed (use s in simp_all)
  then show "cstr (put_text buf s m) buf s" using s by simp
  show "cstr (put_text buf s m) p t" if "cstr m p t" "length t = 3" "unat p < 4294967290" "far p buf"
  proof (rule cstr_agree [OF that(1)])
    fix a :: u32 assume a: "unat p \<le> unat a" "unat a \<le> unat p + length t"
    have "\<not> in_name a buf" using a that(2,4) unfolding far_def in_name_def by linarith
    then show "put_text buf s m a = m a" by (rule put_text_other [OF s(1) buf])
  qed (use that in simp)
qed

section \<open>The block devices\<close>

text \<open>
  A registered drive: its entry has the drive's name, size, operations and parameter.
  \<open>devices\<close>: of the drives \<open>ps\<close> that have been dealt with, \<open>ds\<close> are registered, in order, and
  among them are all that are still taken for disks; the drives \<open>named\<close> have their names.
\<close>

definition entry :: "device \<Rightarrow> env \<Rightarrow> layout \<Rightarrow> machine \<Rightarrow> machine result blocks \<Rightarrow> u32 \<times> u32 \<Rightarrow> bool" where
  "entry dev env lay s b x \<longleftrightarrow> cstr (bmem b) (block_name (drive_blk lay x)) (drive_name x) \<and>
     nr_sectors b (drive_blk lay x) = disk_sectors (disk_of (fst x) (snd x) s) \<and>
     block_ops b (drive_blk lay x) = ide_ops dev env lay \<and> block_params b (drive_blk lay x) = drive_addr lay x"

definition devices :: "device \<Rightarrow> env \<Rightarrow> layout \<Rightarrow> (u32 \<times> u32) set \<Rightarrow> (u32 \<times> u32) list \<Rightarrow> (u32 \<times> u32) list \<Rightarrow>
    machine \<Rightarrow> machine result blocks \<Rightarrow> bool" where
  "devices dev env lay named ps ds s b \<longleftrightarrow> subseq ds ps \<and>
     ring (blinks b) BlockDevices (map (BlockNode \<circ> drive_blk lay) ds) \<and>
     (\<forall>x\<in>set ds. entry dev env lay s b x) \<and>
     (\<forall>x\<in>named. cstr (bmem b) (drive_addr lay x) (drive_name x)) \<and>
     (\<forall>x\<in>set ps. is_ata_disk (disk_of (fst x) (snd x) s) \<longrightarrow> x \<in> set ds)"

lemma subseq_snoc: "subseq ds ps \<Longrightarrow> subseq ds (ps @ [x])" "subseq ds ps \<Longrightarrow> subseq (ds @ [x]) (ps @ [x])"
  by (simp_all add: list_emb_prefix list_emb_append_mono)

lemma layoutD:
  assumes "good_layout lay" "x \<in> set drives"
  shows "drive_addr lay x \<noteq> NULL" "unat (drive_addr lay x) < 4294967200" "drive_blk lay x \<noteq> NULL"
    "unat (drive_blk lay x) < 4294967200" "unat (block_name (drive_blk lay x)) = unat (drive_blk lay x) + 8"
proof -
  show "drive_addr lay x \<noteq> NULL" "unat (drive_addr lay x) < 4294967200" "drive_blk lay x \<noteq> NULL"
    and b: "unat (drive_blk lay x) < 4294967200"
    using assms by (simp_all add: good_layout_def)
  show "unat (block_name (drive_blk lay x)) = unat (drive_blk lay x) + 8"
    unfolding block_name_def using b by (subst unat_plus_no_wrap) simp_all
qed

lemma layout_apart:
  assumes "good_layout lay" "x \<in> set drives" "y \<in> set drives"
  shows "far (drive_addr lay x) (block_name (drive_blk lay y))"
    "x \<noteq> y \<Longrightarrow> far (drive_addr lay x) (drive_addr lay y)"
    "x \<noteq> y \<Longrightarrow> far (block_name (drive_blk lay x)) (block_name (drive_blk lay y))"
    "x \<noteq> y \<Longrightarrow> drive_blk lay x \<noteq> drive_blk lay y"
    "x \<noteq> y \<Longrightarrow> drive_addr lay x \<noteq> drive_addr lay y"
proof -
  show "far (drive_addr lay x) (block_name (drive_blk lay y))"
    and a: "x \<noteq> y \<Longrightarrow> far (drive_addr lay x) (drive_addr lay y)"
    and b: "x \<noteq> y \<Longrightarrow> far (block_name (drive_blk lay x)) (block_name (drive_blk lay y))"
    using assms by (simp_all add: good_layout_def)
  show "x \<noteq> y \<Longrightarrow> drive_blk lay x \<noteq> drive_blk lay y" using b by (auto simp: far_def)
  show "x \<noteq> y \<Longrightarrow> drive_addr lay x \<noteq> drive_addr lay y" using a by (auto simp: far_def)
qed

lemma far_sym: "far a b = far b a"
  by (auto simp: far_def)

text \<open>One more drive is registered.\<close>

lemma devices_subset: "devices dev env lay named ps ds s b \<Longrightarrow> set ds \<subseteq> set ps"
  by (auto simp: devices_def elim: list_emb_set)

text \<open>The name is copied into the device, and the names that lie elsewhere stay.\<close>

lemma name_stored:
  assumes lay: "good_layout lay" and x: "x \<in> set drives" and name: "cstr m (drive_addr lay x) (drive_name x)"
  obtains m' where "strlcpy (block_name (drive_blk lay x)) (drive_addr lay x) 16 m = Some (of_nat 3, m')"
    "cstr m' (block_name (drive_blk lay x)) (drive_name x)"
    "\<And>a. \<not> in_name a (block_name (drive_blk lay x)) \<Longrightarrow> m' a = m a"
    "\<And>p t. cstr m p t \<Longrightarrow> length t = 3 \<Longrightarrow> unat p < 4294967290 \<Longrightarrow> far p (block_name (drive_blk lay x)) \<Longrightarrow> cstr m' p t"
proof -
  note L = layoutD [OF lay x]
  let ?p = "block_name (drive_blk lay x)"
  have p: "unat ?p = unat (drive_blk lay x) + 8" using L(4) by (simp add: block_name_def unat_plus_no_wrap)
  have apart: "unat (drive_addr lay x) + length (drive_name x) < unat (drive_blk lay x) + 8 \<or>
      unat (drive_blk lay x) + 8 + length (drive_name x) < unat (drive_addr lay x)"
    using layout_apart(1) [OF lay x x] unfolding far_def p drive_name_length by linarith
  obtain m' where m': "strlcpy ?p (drive_addr lay x) 16 m = Some (of_nat (length (drive_name x)), m')" "cstr m' ?p (drive_name x)"
      "\<And>a. unat a < unat ?p \<or> unat ?p + length (drive_name x) < unat a \<Longrightarrow> m' a = m a"
    by (rule name_copied [OF L(3) L(1) name _ L(4) L(2) apart]) simp_all
  have same: "m' a = m a" if "\<not> in_name a ?p" for a using that m'(3) [of a] by (auto simp: in_name_def)
  have "cstr m' q t" if "cstr m q t" "length t = 3" "unat q < 4294967290" "far q ?p" for q t
  proof (rule cstr_agree [OF that(1)])
    fix a :: u32 assume "unat q \<le> unat a" "unat a \<le> unat q + length t"
    then show "m' a = m a" using that(2,4) unfolding far_def by (intro same) (auto simp: in_name_def)
  qed (use that in simp)
  then show ?thesis using that m'(1,2) same by simp
qed

lemma register_device:
  assumes lay: "good_layout lay" and x: "x \<in> set drives" "x \<in> named" "x \<notin> set ps"
    and sub: "named \<subseteq> set drives" "set ps \<subseteq> set drives" and D: "devices dev env lay named ps ds s b"
  shows "\<exists>p b'. block_register (drive_blk lay x) (drive_addr lay x) (disk_sectors (disk_of (fst x) (snd x) s))
      (ide_ops dev env lay) (drive_addr lay x) b = Some (p, b') \<and>
      devices dev env lay named (ps @ [x]) (ds @ [x]) s b' \<and> names_frame lay (bmem b) (bmem b')"
proof -
  let ?blk = "drive_blk lay x" and ?a = "drive_addr lay x" and ?n = "disk_sectors (disk_of (fst x) (snd x) s)"
  note L = layoutD [OF lay x(1)]
  have name: "cstr (bmem b) ?a (drive_name x)" using D x(2) by (simp add: devices_def)
  obtain m' where cp: "strlcpy (block_name ?blk) ?a 16 (bmem b) = Some (of_nat 3, m')"
    and c': "cstr m' (block_name ?blk) (drive_name x)" and same: "\<And>a. \<not> in_name a (block_name ?blk) \<Longrightarrow> m' a = bmem b a"
    and old: "\<And>p t. cstr (bmem b) p t \<Longrightarrow> length t = 3 \<Longrightarrow> unat p < 4294967290 \<Longrightarrow> far p (block_name ?blk) \<Longrightarrow> cstr m' p t"
    using name_stored [OF lay x(1) name] by metis
  define b' where "b' = b\<lparr>bmem := m', nr_sectors := (nr_sectors b)(?blk := ?n),
      block_ops := (block_ops b)(?blk := ide_ops dev env lay), block_params := (block_params b)(?blk := ?a),
      blinks := list_add_tail (BlockNode ?blk) BlockDevices (blinks b)\<rparr>"
  have reg: "block_register ?blk ?a ?n (ide_ops dev env lay) ?a b = Some (?blk, b')"
    using L(1,3) cp by (simp add: block_register_def b'_def)
  have ne: "y \<noteq> x" "y \<in> set drives" if "y \<in> set ds" for y using that devices_subset [OF D] x(3) sub(2) by auto
  have "BlockNode ?blk \<notin> set (BlockDevices # map (BlockNode \<circ> drive_blk lay) ds)"
    using layout_apart(4) [OF lay x(1)] ne by force
  then have ring: "ring (blinks b') BlockDevices (map (BlockNode \<circ> drive_blk lay) (ds @ [x]))"
    using D dl.rep_add_tail [of "blinks b" BlockDevices "map (BlockNode \<circ> drive_blk lay) ds" "BlockNode ?blk"]
    by (simp add: devices_def b'_def)
  have kept: "entry dev env lay s b' y" if "y \<in> set ds" for y
  proof -
    note ny = ne [OF that]
    have e: "entry dev env lay s b y" using D that by (simp add: devices_def)
    then have "cstr m' (block_name (drive_blk lay y)) (drive_name y)"
      using layoutD(4,5) [OF lay ny(2)] layout_apart(3) [OF lay ny(2) x(1) ny(1)]
      by (intro old) (simp_all add: entry_def)
    then show ?thesis using e layout_apart(4) [OF lay ny(2) x(1) ny(1)] by (simp add: entry_def b'_def)
  qed
  have nm: "cstr (bmem b') (drive_addr lay y) (drive_name y)" if "y \<in> named" for y
    using D that layoutD(2) [OF lay, of y] layout_apart(1) [OF lay _ x(1), of y] sub(1)
    by (simp add: b'_def) (intro old, auto simp: devices_def)
  have "entry dev env lay s b' x" using c' by (simp add: entry_def b'_def)
  then have "devices dev env lay named (ps @ [x]) (ds @ [x]) s b'"
    using D ring kept nm unfolding devices_def by (auto simp: subseq_snoc)
  moreover have "names_frame lay (bmem b) (bmem b')" using same x(1) by (auto simp: names_frame_def b'_def)
  ultimately show ?thesis using reg by blast
qed

lemma devices_frame:
  assumes D: "devices dev env lay named ps ds s b" and f: "\<And>x. x \<in> set ps \<Longrightarrow> disk_of (fst x) (snd x) s' = disk_of (fst x) (snd x) s"
  shows "devices dev env lay named ps ds s' b"
proof -
  have "x \<in> set ds \<Longrightarrow> disk_of (fst x) (snd x) s' = disk_of (fst x) (snd x) s" for x
    using f devices_subset [OF D] by blast
  then show ?thesis using D f by (simp add: devices_def entry_def)
qed

lemma register_returns:
  assumes lay: "good_layout lay" and x: "(c, d) \<in> set drives" "(c, d) \<in> named" "(c, d) \<notin> set ps"
    and sub: "named \<subseteq> set drives" "set ps \<subseteq> set drives" and D: "devices dev env lay named ps ds s b"
    and t: "at_task S idle me s" "me \<noteq> idle" "env_returns S idle me env" and w: "sema_wait (channels s c) \<in> S"
  obtains s' b' ds' where "register_disk dev env lay c d (s, b) = Inr (s', b')" "at_task S idle me s'"
    "driver_frame {(c, d)} s s'" "devices dev env lay named (ps @ [(c, d)]) ds' s' b'" "names_frame lay (bmem b) (bmem b')"
    "ds' = (if is_ata_disk (disk_of c d s) then ds @ [(c, d)] else ds)"
proof (cases "is_ata_disk (disk_of c d s)")
  case False
  then have "register_disk dev env lay c d (s, b) = Inr (s, b)" by (simp add: register_disk_def)
  moreover have "devices dev env lay named (ps @ [(c, d)]) ds s b"
    using D False by (auto simp: devices_def subseq_snoc)
  ultimately show ?thesis using t(1) False that [of s b ds] by simp
next
  case True
  obtain s' where s': "identify_ata_device dev env (id_buf lay) c d s = Inr s'" "at_task S idle me s'" "driver_frame {(c, d)} s s'"
    using identify_returns [OF t w] by blast
  have "disk_of (fst y) (snd y) s' = disk_of (fst y) (snd y) s" if "y \<in> set ps" for y
    using s'(3) x(3) that by (cases y) (auto simp: driver_frame_def)
  then have D': "devices dev env lay named ps ds s' b" by (rule devices_frame [OF D])
  obtain p b' where b': "block_register (drive_blk lay (c, d)) (drive_addr lay (c, d)) (disk_sectors (disk_of c d s'))
      (ide_ops dev env lay) (drive_addr lay (c, d)) b = Some (p, b')"
    "devices dev env lay named (ps @ [(c, d)]) (ds @ [(c, d)]) s' b'" "names_frame lay (bmem b) (bmem b')"
    using register_device [OF lay x sub D'] by auto
  then have "register_disk dev env lay c d (s, b) = Inr (s', b')"
    using True s'(1) by (simp add: register_disk_def spin_def drive_blk_def drive_addr_def)
  then show ?thesis using that [of s' b' "ds @ [(c, d)]"] s'(2,3) b'(2,3) True by simp
qed

section \<open>An adaptor\<close>

text \<open>What \<open>init_adaptor\<close> sets up before it looks at the drives.\<close>

definition set_up :: "layout \<Rightarrow> u32 \<Rightarrow> machine \<times> machine result blocks \<Rightarrow> machine \<times> machine result blocks" where
  "set_up lay c = (\<lambda>(s, b).
     let s = s\<lparr>channels := (channels s)(c := (channels s c)
               \<lparr>chan_name := format_text [Lit 105, Lit 100, Lit 101, Conv False [] None 100] [c],
                reg_base := chan_reg_bases c, irq := chan_irqs c,
                chan_slock := spin_lock_init (chan_slock (channels s c))\<rparr>)\<rparr>;
         s = s\<lparr>krn := sema_init (sema_wait (channels s c)) 0 (krn s)\<rparr>;
         s = s\<lparr>krn := sema_init (sema_rw (channels s c)) 1 (krn s)\<rparr>;
         (s, b) = init_disk lay c 1 (init_disk lay c 0 (s, b))
     in (s\<lparr>gates := set_interrupt_gate (ucast (chan_irqs c)) ide_interrupt (gates s)\<rparr>, b))"

definition detect :: "device \<Rightarrow> u32 \<Rightarrow> machine \<Rightarrow> machine" where
  "detect dev c s = (let s = reset_adaptor dev c s; (more, s) = check_disk_type dev c 0 s
     in if more then snd (check_disk_type dev c 1 s) else s)"

text \<open>The drives of an adaptor that the detection takes for disks.\<close>

definition found :: "device \<Rightarrow> layout \<Rightarrow> u32 \<Rightarrow> machine \<times> machine result blocks \<Rightarrow> (u32 \<times> u32) list" where
  "found dev lay c sb =
     filter (\<lambda>x. is_ata_disk (disk_of (fst x) (snd x) (detect dev c (fst (set_up lay c sb))))) [(c, 0), (c, 1)]"

lemma init_adaptor_eq:
  "init_adaptor dev env lay c sb = (let (s, b) = set_up lay c sb
     in bindE (register_disk dev env lay c 0 (detect dev c s, b)) (register_disk dev env lay c 1))"
  by (simp add: init_adaptor_def set_up_def detect_def Let_def case_prod_beta)

lemma keeps_adaptor: "keeps_kernel {(c, 0), (c, 1)} s (detect dev c s)"
proof -
  have r: "keeps_kernel {(c, 0), (c, 1)} s (reset_adaptor dev c s)" by (intro kept keeps_kernel_refl)
  have k: "keeps_kernel {(c, 0), (c, 1)} s (snd (check_disk_type dev c d t))"
    if "keeps_kernel {(c, 0), (c, 1)} s t" "d = 0 \<or> d = 1" for d t
    using that by (intro keeps_detect(2)) auto
  show ?thesis
    unfolding detect_def Let_def case_prod_beta using k [OF r, of 0] k [OF k [OF r, of 0], of 1] by simp
qed

text \<open>The adaptor's own configuration, which nothing changes afterwards.\<close>

definition configured :: "u32 \<Rightarrow> machine \<Rightarrow> bool" where
  "configured c s \<longleftrightarrow> reg_base (channels s c) = chan_reg_bases c \<and> irq (channels s c) = chan_irqs c \<and>
     isr_table (gates s) (ucast (chan_irqs c)) = Some ide_interrupt \<and>
     (\<forall>d\<in>{0, 1}. dev_no (disk_of c d s) = d \<and> disk_name (disk_of c d s) = drive_name (c, d))"

lemma configured_frame: "driver_frame P s t \<Longrightarrow> configured c t = configured c s"
  by (simp add: configured_def frame_fields [of P s t])

lemma init_disk_eq: "init_disk lay c d (s, b) =
  (upd_disk c d (\<lambda>k. k\<lparr>dev_no := d, disk_name := drive_name (c, d)\<rparr>) s,
   b\<lparr>bmem := put_text (drive_addr lay (c, d)) (drive_name (c, d)) (bmem b)\<rparr>)"
  by (simp add: init_disk_def disk_name_text drive_addr_def Let_def)

lemma set_up_fields:
  assumes "set_up lay c (s, b) = (s', b')"
  shows "krn s' = sema_init (sema_rw (channels s c)) 1 (sema_init (sema_wait (channels s c)) 0 (krn s))"
    "gates s' = set_interrupt_gate (ucast (chan_irqs c)) ide_interrupt (gates s)"
    "x \<noteq> c \<Longrightarrow> channels s' x = channels s x"
    "sema_wait (channels s' c) = sema_wait (channels s c)" "sema_rw (channels s' c) = sema_rw (channels s c)"
    "reg_base (channels s' c) = chan_reg_bases c" "irq (channels s' c) = chan_irqs c"
    "\<forall>d\<in>{0, 1}. dev_no (disk_of c d s') = d \<and> disk_name (disk_of c d s') = drive_name (c, d)"
    "b' = b\<lparr>bmem := put_text (drive_addr lay (c, 1)) (drive_name (c, 1))
       (put_text (drive_addr lay (c, 0)) (drive_name (c, 0)) (bmem b))\<rparr>"
  using assms by (auto simp: set_up_def init_disk_eq Let_def upd_disk_def disk_of_def)

lemma put_drive_name:
  fixes m :: memory
  assumes "good_layout lay" "x \<in> set drives"
  defines "m' \<equiv> put_text (drive_addr lay x) (drive_name x) m"
  shows "cstr m' (drive_addr lay x) (drive_name x)"
    and "y \<in> set drives \<Longrightarrow> y \<noteq> x \<Longrightarrow> cstr m (drive_addr lay y) (drive_name y) \<Longrightarrow> cstr m' (drive_addr lay y) (drive_name y)"
    and "y \<in> set drives \<Longrightarrow> cstr m (block_name (drive_blk lay y)) (drive_name y) \<Longrightarrow>
      cstr m' (block_name (drive_blk lay y)) (drive_name y)"
    and "names_frame lay m m'"
proof -
  show "names_frame lay m m'"
    unfolding names_frame_def m'_def using assms(2) layoutD(2) [OF assms(1,2)] by (auto intro: put_text_other)
  note put = put_text_names [OF drive_name_length drive_name_nonzero [OF assms(2)] layoutD(2) [OF assms(1,2)], where m = m]
  show "cstr m' (drive_addr lay x) (drive_name x)" unfolding m'_def by (rule put(1))
  show "cstr m' (drive_addr lay y) (drive_name y)"
    if "y \<in> set drives" "y \<noteq> x" "cstr m (drive_addr lay y) (drive_name y)"
    unfolding m'_def using that layoutD(2) [OF assms(1) that(1)] layout_apart(2) [OF assms(1) that(1) assms(2)]
    by (intro put(2)) simp_all
  have lt: "unat (block_name (drive_blk lay y)) < 4294967208" if "y \<in> set drives"
    using layoutD(4,5) [OF assms(1) that] by simp
  show "cstr m' (block_name (drive_blk lay y)) (drive_name y)"
    if "y \<in> set drives" "cstr m (block_name (drive_blk lay y)) (drive_name y)"
    unfolding m'_def using that lt layout_apart(1) [OF assms(1,2) that(1)]
    by (intro put(2)) (simp_all add: far_sym [of _ "drive_addr lay x"])
qed

text \<open>The devices known before stay, and the names of the two drives are written.\<close>

lemma set_up_devices:
  assumes lay: "good_layout lay" and c: "c = 0 \<or> c = 1" and named: "named \<subseteq> set drives" "(c, 0) \<notin> named" "(c, 1) \<notin> named"
    and ps: "\<And>d. (c, d) \<notin> set ps" "set ps \<subseteq> set drives" and D: "devices dev env lay named ps ds s b"
    and run: "set_up lay c (s, b) = (s', b')"
  shows "devices dev env lay (insert (c, 0) (insert (c, 1) named)) ps ds s' b'" "names_frame lay (bmem b) (bmem b')"
proof -
  note F = set_up_fields [OF run]
  have dr: "(c, 0) \<in> set drives" "(c, 1) \<in> set drives" using c by (auto simp: drives_def)
  note p0 = put_drive_name [OF lay dr(1)] and p1 = put_drive_name [OF lay dr(2)]
  show "names_frame lay (bmem b) (bmem b')" using names_frame_trans [OF p0(4) p1(4)] by (simp add: F(9))
  have "disk_of (fst x) (snd x) s' = disk_of (fst x) (snd x) s" if "x \<in> set ps" for x
  proof -
    have "fst x \<noteq> c" using ps(1) [of "snd x"] that by auto
    then show ?thesis by (simp add: disk_of_def F(3))
  qed
  from devices_frame [OF D this] have D': "devices dev env lay named ps ds s' b" .
  show "devices dev env lay (insert (c, 0) (insert (c, 1) named)) ps ds s' b'"
    unfolding devices_def
  proof (intro conjI ballI)
    show "subseq ds ps" "ring (blinks b') BlockDevices (map (BlockNode \<circ> drive_blk lay) ds)"
      using D' by (simp_all add: devices_def F(9))
    show "is_ata_disk (disk_of (fst x) (snd x) s') \<longrightarrow> x \<in> set ds" if "x \<in> set ps" for x
      using D' that by (simp add: devices_def)
    show "entry dev env lay s' b' x" if "x \<in> set ds" for x
    proof -
      have x: "x \<in> set drives" using that devices_subset [OF D] ps(2) by blast
      have "entry dev env lay s' b x" using D' that by (simp add: devices_def)
      then show ?thesis using p1(3) [OF x p0(3) [OF x]] by (simp add: entry_def F(9))
    qed
    show "cstr (bmem b') (drive_addr lay x) (drive_name x)" if mem: "x \<in> insert (c, 0) (insert (c, 1) named)" for x
    proof -
      consider "x = (c, 0)" | "x = (c, 1)" | "x \<in> named" "x \<noteq> (c, 0)" "x \<noteq> (c, 1)" using mem by auto
      then show ?thesis
      proof cases
        case 1
        then show ?thesis using p1(2) [OF dr(1) _ p0(1)] by (simp add: F(9))
      next
        case 2
        then show ?thesis using p1(1) by (simp add: F(9))
      next
        case 3
        then have "x \<in> set drives" "cstr (bmem b) (drive_addr lay x) (drive_name x)"
          using named(1) D by (auto simp: devices_def)
        then show ?thesis using p1(2) [OF _ 3(3) p0(2)] 3(2) by (simp add: F(9))
      qed
    qed
  qed
qed

lemma set_up_ready:
  assumes lay: "good_layout lay" and c: "c = 0 \<or> c = 1" and named: "named \<subseteq> set drives" "(c, 0) \<notin> named" "(c, 1) \<notin> named"
    and ps: "\<And>d. (c, d) \<notin> set ps" "set ps \<subseteq> set drives" and D: "devices dev env lay named ps ds s b"
    and t: "at_task S idle me s" and fresh: "sema_wait (channels s c) \<notin> S" "sema_rw (channels s c) \<notin> S"
      "sema_wait (channels s c) \<noteq> sema_rw (channels s c)" and idt: "idt_mapped (idt_table (gates s))"
    and run: "set_up lay c (s, b) = (s', b')"
  shows "at_task (insert (sema_rw (channels s c)) (insert (sema_wait (channels s c)) S)) idle me s'"
    "devices dev env lay (insert (c, 0) (insert (c, 1) named)) ps ds s' b'" "configured c s'"
    "idt_table (gates s') = idt_table (gates s)" "x \<noteq> c \<Longrightarrow> x = 0 \<or> x = 1 \<Longrightarrow> configured x s' = configured x s"
    "names_frame lay (bmem b) (bmem b')"
proof -
  note F = set_up_fields [OF run]
  obtain Q A where q: "sys S idle Q A (krn s)" "current (krn s) = me" using t by (auto simp: at_task_def sys_inv_def)
  note sys_sema_init [OF sys_sema_init [OF q(1) fresh(1), of 0], of "sema_rw (channels s c)" 1]
  then show "at_task (insert (sema_rw (channels s c)) (insert (sema_wait (channels s c)) S)) idle me s'"
    using fresh q(2) by (auto simp: at_task_def sys_inv_def F(1))
  have v: "(ucast (chan_irqs c) :: u32) < 256" using c by (auto simp: chan_irqs_def)
  have nn: "idt_table (gates s) + 8 * ucast (chan_irqs c) \<noteq> NULL" using idt v by (simp add: idt_mapped_def)
  note g = set_gate_spec [OF v nn, where dpl = 0 and type = GATE_TYPE_INTR and isr = ide_interrupt, simplified]
  show "idt_table (gates s') = idt_table (gates s)" using g by (simp add: F(2) set_interrupt_gate_def)
  show "configured c s'" using g F by (simp add: configured_def set_interrupt_gate_def)
  show "configured x s' = configured x s" if "x \<noteq> c" "x = 0 \<or> x = 1"
  proof -
    have "(ucast (chan_irqs x) :: u32) \<noteq> ucast (chan_irqs c)"
      using c that by (auto simp: chan_irqs_def)
    then show ?thesis using F(3) [OF that(1)] g
      by (simp add: configured_def F(2) set_interrupt_gate_def disk_of_def)
  qed
  show "devices dev env lay (insert (c, 0) (insert (c, 1) named)) ps ds s' b'" "names_frame lay (bmem b) (bmem b')"
    by (rule set_up_devices [OF lay c named ps D run])+
qed

text \<open>One adaptor: set up, its drives detected and registered.\<close>

lemma init_adaptor_returns:
  assumes lay: "good_layout lay" and c: "c = 0 \<or> c = 1" and named: "named = set ps" "set ps \<subseteq> set drives"
    and ps: "\<And>d. (c, d) \<notin> set ps" and D: "devices dev env lay named ps ds s b"
    and t: "at_task S idle me s" "me \<noteq> idle" and fresh: "sema_wait (channels s c) \<notin> S" "sema_rw (channels s c) \<notin> S"
      "sema_wait (channels s c) \<noteq> sema_rw (channels s c)" and idt: "idt_mapped (idt_table (gates s))"
    and env: "env_returns (insert (sema_rw (channels s c)) (insert (sema_wait (channels s c)) S)) idle me env"
  obtains s' b' ds' where "init_adaptor dev env lay c (s, b) = Inr (s', b')"
    "at_task (insert (sema_rw (channels s c)) (insert (sema_wait (channels s c)) S)) idle me s'"
    "devices dev env lay (set (ps @ [(c, 0), (c, 1)])) (ps @ [(c, 0), (c, 1)]) ds' s' b'" "configured c s'"
    "idt_table (gates s') = idt_table (gates s)" "\<And>x. x \<noteq> c \<Longrightarrow> x = 0 \<or> x = 1 \<Longrightarrow> configured x s' = configured x s"
    "\<And>x. sema_wait (channels s' x) = sema_wait (channels s x) \<and> sema_rw (channels s' x) = sema_rw (channels s x)"
    "names_frame lay (bmem b) (bmem b')" "ds' = ds @ found dev lay c (s, b)"
proof -
  let ?S = "insert (sema_rw (channels s c)) (insert (sema_wait (channels s c)) S)"
  let ?N = "insert (c, 0) (insert (c, 1) named)"
  obtain s1 b1 where run: "set_up lay c (s, b) = (s1, b1)" by fastforce
  note F = set_up_fields [OF run]
  have nm: "named \<subseteq> set drives" "(c, 0) \<notin> named" "(c, 1) \<notin> named" using named ps by auto
  note U = set_up_ready [OF lay c nm ps named(2) D t(1) fresh idt run]
  let ?s2 = "detect dev c s1"
  note k = keeps_adaptor [of c s1 dev]
  have s2: "at_task ?S idle me ?s2" by (rule keeps_at_task [OF k U(1)])
  have D2: "devices dev env lay ?N ps ds ?s2 b1"
  proof (rule devices_frame [OF U(2)])
    fix x assume "x \<in> set ps"
    then have "x \<notin> {(c, 0), (c, 1)}" using ps by auto
    then show "disk_of (fst x) (snd x) ?s2 = disk_of (fst x) (snd x) s1"
      using keepsD [OF k] unfolding driver_frame_def by (metis prod.collapse)
  qed
  have N: "?N \<subseteq> set drives" using c nm(1) by (auto simp: drives_def)
  have w2: "sema_wait (channels ?s2 x) = sema_wait (channels s x)" "sema_rw (channels ?s2 x) = sema_rw (channels s x)" for x
    using F(3) [of x] F(4,5) by (cases "x = c"; simp add: frame_fields [OF keepsD [OF k]])+
  have dr: "(c, 0) \<in> set drives" "(c, 1) \<in> set drives" using c by (auto simp: drives_def)
  obtain s3 b3 ds3 where 3: "register_disk dev env lay c 0 (?s2, b1) = Inr (s3, b3)" "at_task ?S idle me s3"
      "driver_frame {(c, 0)} ?s2 s3" "devices dev env lay ?N (ps @ [(c, 0)]) ds3 s3 b3" "names_frame lay (bmem b1) (bmem b3)"
      "ds3 = (if is_ata_disk (disk_of c 0 ?s2) then ds @ [(c, 0)] else ds)"
    by (rule register_returns [OF lay dr(1) _ ps N named(2) D2 s2 t(2) env]) (simp_all add: w2)
  have "(c, 1) \<notin> set (ps @ [(c, 0)])" "set (ps @ [(c, 0)]) \<subseteq> set drives" using ps named(2) dr by auto
  from register_returns [OF lay dr(2) _ this(1) N this(2) 3(4) 3(2) t(2) env]
  obtain s4 b4 ds4 where 4: "register_disk dev env lay c 1 (s3, b3) = Inr (s4, b4)" "at_task ?S idle me s4"
      "driver_frame {(c, 1)} s3 s4" "devices dev env lay ?N ((ps @ [(c, 0)]) @ [(c, 1)]) ds4 s4 b4" "names_frame lay (bmem b3) (bmem b4)"
      "ds4 = (if is_ata_disk (disk_of c 1 s3) then ds3 @ [(c, 1)] else ds3)"
    by (auto simp: w2 frame_fields [OF 3(3)])
  have f: "driver_frame {(c, 0), (c, 1)} s1 s4"
    by (rule frame_trans [OF frame_trans [OF keepsD [OF k] frame_mono [OF 3(3)]] frame_mono [OF 4(3)]]) auto
  show ?thesis
  proof (rule that)
    show "init_adaptor dev env lay c (s, b) = Inr (s4, b4)" by (simp add: init_adaptor_eq run 3(1) 4(1))
    show "at_task ?S idle me s4" by (rule 4(2))
    have "?N = set (ps @ [(c, 0), (c, 1)])" using named by auto
    then show "devices dev env lay (set (ps @ [(c, 0), (c, 1)])) (ps @ [(c, 0), (c, 1)]) ds4 s4 b4" using 4(4) by simp
    show "configured c s4" using U(3) configured_frame [OF f] by simp
    show "idt_table (gates s4) = idt_table (gates s)" using U(4) by (simp add: frame_fields [OF f])
    show "configured x s4 = configured x s" if "x \<noteq> c" "x = 0 \<or> x = 1" for x
      using U(5) [OF that] configured_frame [OF f] by simp
    show "sema_wait (channels s4 x) = sema_wait (channels s x) \<and> sema_rw (channels s4 x) = sema_rw (channels s x)" for x
      using F(3) [of x] F(4,5) by (cases "x = c") (simp_all add: frame_fields [OF f])
    have "disk_of c 1 s3 = disk_of c 1 ?s2" using 3(3) by (simp add: driver_frame_def)
    then show "ds4 = ds @ found dev lay c (s, b)" by (simp add: 3(6) 4(6) found_def run)
    show "names_frame lay (bmem b) (bmem b4)" by (rule names_frame_trans [OF names_frame_trans [OF U(6) 3(5)] 4(5)])
  qed
qed

section \<open>Requests through the block layer\<close>

lemma find_drive:
  assumes "good_layout lay" "x \<in> set drives"
  shows "find_disk lay (drive_addr lay x) = Some x"
proof -
  have "find_disk lay a = find (\<lambda>y. drive_addr lay y = a) drives" for a
    by (simp add: find_disk_def drives_def drive_addr_def)
  moreover have "find (\<lambda>y. drive_addr lay y = drive_addr lay x) xs = Some x" if "x \<in> set xs" "set xs \<subseteq> set drives" for xs
    using that
  proof (induction xs)
    case (Cons z zs)
    then show ?case using layout_apart(5) [OF assms(1) _ assms(2), of z] by auto
  qed simp
  ultimately show ?thesis using assms(2) by simp
qed

text \<open>
  A registered drive serves every request: one for a sector it has goes to the driver and
  returns, with 512 or -1; one behind its end returns -1 at once.
\<close>

definition serves :: "device \<Rightarrow> env \<Rightarrow> layout \<Rightarrow> u32 set \<Rightarrow> u32 \<Rightarrow> u32 \<Rightarrow> machine \<Rightarrow> machine result blocks \<Rightarrow> u32 \<times> u32 \<Rightarrow> bool" where
  "serves dev env lay S idle me s b x \<longleftrightarrow> (\<forall>buf k.
     let blk = drive_blk lay x; n = disk_sectors (disk_of (fst x) (snd x) s)
     in if k < n
        then (\<exists>r t. block_read blk buf k b (Inr s) = (r, Inr t) \<and> at_task S idle me t \<and>
                ide_read dev env buf k x s = Inr (r, t) \<and> (r = 512 \<or> r = - 1)) \<and>
             (\<exists>r t. block_write blk buf k b (Inr s) = (r, Inr t) \<and> at_task S idle me t \<and>
                ide_write dev env buf k x s = Inr (r, t) \<and> (r = 512 \<or> r = - 1))
        else block_read blk buf k b (Inr s) = (- 1, Inr s) \<and> block_write blk buf k b (Inr s) = (- 1, Inr s))"

lemma registered_serves:
  assumes lay: "good_layout lay" and x: "x \<in> set drives" and e: "entry dev env lay s b x"
    and ready: "request_ready S idle me env (fst x) s"
  shows "serves dev env lay S idle me s b x"
proof -
  note f = find_drive [OF lay x]
  have R: "\<exists>r t. ide_read dev env buf k x s = Inr (r, t) \<and> at_task S idle me t" for buf k
    using ide_read_returns [OF ready, of dev buf k "snd x"] by simp
  have W: "\<exists>r t. ide_write dev env buf k x s = Inr (r, t) \<and> at_task S idle me t" for buf k
    using ide_write_returns [OF ready, of dev buf k "snd x"] by simp
  show ?thesis
    unfolding serves_def Let_def
  proof (intro allI)
    fix buf k
    obtain r t where r: "ide_read dev env buf k x s = Inr (r, t)" "at_task S idle me t" using R by blast
    obtain w u where w: "ide_write dev env buf k x s = Inr (w, u)" "at_task S idle me u" using W by blast
    show "if k < disk_sectors (disk_of (fst x) (snd x) s)
        then (\<exists>r t. block_read (drive_blk lay x) buf k b (Inr s) = (r, Inr t) \<and> at_task S idle me t \<and>
                ide_read dev env buf k x s = Inr (r, t) \<and> (r = 512 \<or> r = - 1)) \<and>
             (\<exists>r t. block_write (drive_blk lay x) buf k b (Inr s) = (r, Inr t) \<and> at_task S idle me t \<and>
                ide_write dev env buf k x s = Inr (r, t) \<and> (r = 512 \<or> r = - 1))
        else block_read (drive_blk lay x) buf k b (Inr s) = (- 1, Inr s) \<and>
             block_write (drive_blk lay x) buf k b (Inr s) = (- 1, Inr s)"
      using e r w ide_read_result [OF r(1)] ide_write_result [OF w(1)]
      by (simp add: entry_def block_read_def block_write_def valid_sector_no_def ide_ops_def lift_op_def f)
  qed
qed

text \<open>Every lookup of a name of three bytes that starts with hd finds the first drive: the names differ in their last byte only.\<close>

lemma drive_lookup:
  assumes D: "devices dev env lay named ps ds s b" and name: "cstr (bmem b) p ([104, 100] @ [z])"
  shows "blcok_get_by_name p b = Some (case ds of [] \<Rightarrow> NULL | y # _ \<Rightarrow> drive_blk lay y)"
proof -
  have ring: "ring (blinks b) BlockDevices (map BlockNode (map (drive_blk lay) ds))" using D by (simp add: devices_def)
  have ent: "\<forall>y\<in>set ds. cstr (bmem b) (block_name (drive_blk lay y)) ([104, 100] @ [ucast (97 + fst y * NR_ATA_DISKS + snd y)])"
    using D by (simp add: devices_def entry_def drive_name_def)
  show ?thesis
  proof (cases ds)
    case Nil
    then show ?thesis using get_by_name_ring [of b "[]", OF _ name] ring by simp
  next
    case (Cons y ys)
    have ns: "\<forall>e\<in>set (map (drive_blk lay) ys). \<exists>t. cstr (bmem b) (block_name e) t"
      using ent unfolding Cons by (auto simp del: cstr.simps)
    have cy: "cstr (bmem b) (block_name (drive_blk lay y)) ([104, 100] @ [ucast (97 + fst y * NR_ATA_DISKS + snd y)])"
      using ent unfolding Cons by (simp del: cstr.simps)
    have "ring (blinks b) BlockDevices (map BlockNode (drive_blk lay y # map (drive_blk lay) ys))"
      using ring unfolding Cons by simp
    from block_lookup_confuses [OF this name cy ns] show ?thesis by (simp add: Cons)
  qed
qed

section \<open>The whole initialisation\<close>

text \<open>
  What \<open>ide_init\<close> starts from: a scheduled kernel, four semaphores not yet in use, no block
  device, an interrupt table, and others that wake the caller whenever it waits.
\<close>

definition adaptor_semas :: "u32 \<Rightarrow> machine \<Rightarrow> u32 set" where
  "adaptor_semas c s = {sema_rw (channels s c), sema_wait (channels s c)}"

definition init_ready :: "u32 set \<Rightarrow> u32 \<Rightarrow> u32 \<Rightarrow> env \<Rightarrow> layout \<Rightarrow> machine \<Rightarrow> machine result blocks \<Rightarrow> bool" where
  "init_ready S idle me env lay s b \<longleftrightarrow> at_task S idle me s \<and> me \<noteq> idle \<and> good_layout lay \<and>
     idt_mapped (idt_table (gates s)) \<and> ring (blinks b) BlockDevices [] \<and>
     distinct [sema_wait (channels s 0), sema_rw (channels s 0), sema_wait (channels s 1), sema_rw (channels s 1)] \<and>
     (adaptor_semas 0 s \<union> adaptor_semas 1 s) \<inter> S = {} \<and>
     env_returns (adaptor_semas 0 s \<union> S) idle me env \<and>
     env_returns (adaptor_semas 1 s \<union> (adaptor_semas 0 s \<union> S)) idle me env"

lemma ide_init_returns:
  assumes "init_ready S idle me env lay s b"
  obtains s' b' ds where "ide_init dev env lay (s, b) = Inr (s', b')"
    "devices dev env lay (set drives) drives ds s' b'" "configured 0 s'" "configured 1 s'"
    "\<forall>x\<in>set drives. request_ready (adaptor_semas 1 s \<union> (adaptor_semas 0 s \<union> S)) idle me env (fst x) s'"
    "names_frame lay (bmem b) (bmem b')"
    "\<exists>u. init_adaptor dev env lay 0 (s, b) = Inr u \<and> ds = found dev lay 0 (s, b) @ found dev lay 1 u"
proof -
  let ?S0 = "adaptor_semas 0 s \<union> S" and ?S1 = "adaptor_semas 1 s \<union> (adaptor_semas 0 s \<union> S)"
  have I: "at_task S idle me s" "me \<noteq> idle" "good_layout lay" "idt_mapped (idt_table (gates s))"
    "ring (blinks b) BlockDevices []" "env_returns ?S0 idle me env" "env_returns ?S1 idle me env"
    using assms by (simp_all add: init_ready_def)
  have w: "sema_wait (channels s 0) \<notin> S" "sema_rw (channels s 0) \<notin> S" "sema_wait (channels s 0) \<noteq> sema_rw (channels s 0)"
    "sema_wait (channels s 1) \<notin> ?S0" "sema_rw (channels s 1) \<notin> ?S0" "sema_wait (channels s 1) \<noteq> sema_rw (channels s 1)"
    using assms by (auto simp: init_ready_def adaptor_semas_def)
  have D: "devices dev env lay (set []) [] [] s b" using I(5) by (simp add: devices_def)
  obtain s1 b1 ds1 where 1: "init_adaptor dev env lay 0 (s, b) = Inr (s1, b1)" "at_task ?S0 idle me s1"
      "devices dev env lay (set [(0, 0), (0, 1)]) [(0, 0), (0, 1)] ds1 s1 b1" "configured 0 s1"
      "idt_table (gates s1) = idt_table (gates s)" "names_frame lay (bmem b) (bmem b1)"
      "ds1 = [] @ found dev lay 0 (s, b)"
    and same1: "\<And>x. sema_wait (channels s1 x) = sema_wait (channels s x) \<and> sema_rw (channels s1 x) = sema_rw (channels s x)"
  proof (rule init_adaptor_returns [OF I(3) _ refl _ _ D I(1,2) w(1-3) I(4)])
  qed (use I(6) in \<open>simp_all add: adaptor_semas_def\<close>)
  have S1: "insert (sema_rw (channels s1 1)) (insert (sema_wait (channels s1 1)) ?S0) = ?S1"
    and S2: "insert (sema_rw (channels s 1)) (insert (sema_wait (channels s 1)) ?S0) = ?S1"
    by (auto simp: same1 adaptor_semas_def)
  obtain s2 b2 ds2 where 2: "init_adaptor dev env lay 1 (s1, b1) = Inr (s2, b2)" "at_task ?S1 idle me s2"
      "devices dev env lay (set drives) drives ds2 s2 b2" "configured 1 s2" "configured 0 s2"
      "\<And>x. sema_wait (channels s2 x) = sema_wait (channels s x) \<and> sema_rw (channels s2 x) = sema_rw (channels s x)"
      "names_frame lay (bmem b1) (bmem b2)" "ds2 = ds1 @ found dev lay 1 (s1, b1)"
  proof (rule init_adaptor_returns [OF I(3) _ refl _ _ 1(3,2) I(2), of 1])
    fix s' b' ds'
    assume "init_adaptor dev env lay 1 (s1, b1) = Inr (s', b')"
      "at_task (insert (sema_rw (channels s1 1)) (insert (sema_wait (channels s1 1)) ?S0)) idle me s'"
      "devices dev env lay (set ([(0, 0), (0, 1)] @ [(1, 0), (1, 1)])) ([(0, 0), (0, 1)] @ [(1, 0), (1, 1)]) ds' s' b'"
      "configured 1 s'" "\<And>x. x \<noteq> 1 \<Longrightarrow> x = 0 \<or> x = 1 \<Longrightarrow> configured x s' = configured x s1"
      "\<And>x. sema_wait (channels s' x) = sema_wait (channels s1 x) \<and> sema_rw (channels s' x) = sema_rw (channels s1 x)"
      "names_frame lay (bmem b1) (bmem b')" "ds' = ds1 @ found dev lay 1 (s1, b1)"
    then show thesis using that [of s' b' ds'] same1 1(4) unfolding S1 by (simp add: drives_def)
  qed (use w I(4,7) 1(5) same1 in \<open>simp_all add: S2 drives_def\<close>)
  have run: "ide_init dev env lay (s, b) = Inr (s2, b2)" by (simp add: ide_init_def 1(1) 2(1))
  have ready: "request_ready ?S1 idle me env (fst x) s2" if "x \<in> set drives" for x
    using that 2(2,6) I(2,7) by (auto simp: request_ready_def adaptor_semas_def drives_def)
  show ?thesis
    by (rule that [OF run 2(3,5,4) _ names_frame_trans [OF 1(6) 2(7)]]) (use ready 1(1,7) 2(8) in auto)
qed


section \<open>A machine with two adaptors\<close>

text \<open>Two drives on the first adaptor and none on the second: hda and hdb always answer like an idle disk with data.\<close>

definition one_disk :: device where
  "one_disk h p = (if p = 0x1f1 then 1 else if p = 0x1f7 then 0x40 else if p = 0x3f6 then 8 else if p = 0x1f0 then 0xaa55 else 0)"

lemma one_disk_check:
  assumes "reg_base (channels s c) = 0x1f0"
  shows "fst (check_disk_type one_disk c d s)" "is_ata_disk (disk_of c d (snd (check_disk_type one_disk c d s)))"
proof -
  have ch: "channels (select_disk c d s) = channels s" by (simp add: select_disk_def Let_def)
  show "fst (check_disk_type one_disk c d s)" "is_ata_disk (disk_of c d (snd (check_disk_type one_disk c d s)))"
    by (simp_all add: check_disk_type_def sys_in_eq Let_def ch reg_defs assms one_disk_def)
qed

lemma one_disk_found: "found one_disk lay 0 (s, b) = [(0, 0), (0, 1)]"
proof -
  obtain s1 b1 where run: "set_up lay 0 (s, b) = (s1, b1)" by fastforce
  define s2 where "s2 = reset_adaptor one_disk 0 s1"
  define s3 where "s3 = snd (check_disk_type one_disk 0 0 s2)"
  define s4 where "s4 = snd (check_disk_type one_disk 0 1 s3)"
  have k: "keeps_kernel {} s1 s2" "keeps_kernel {(0, 0)} s2 s3" "keeps_kernel {(0, 1)} s3 s4"
    unfolding s2_def s3_def s4_def by (intro kept keeps_kernel_refl; simp)+
  have base: "reg_base (channels s2 0) = 0x1f0"
    using set_up_fields(6) [OF run] frame_fields(3) [OF keepsD [OF k(1)], of 0] by (simp add: chan_reg_bases_def)
  then have base3: "reg_base (channels s3 0) = 0x1f0"
    using frame_fields(3) [OF keepsD [OF k(2)], of 0] by simp
  have "is_ata_disk (disk_of 0 0 s3)" "is_ata_disk (disk_of 0 1 s4)"
    using one_disk_check(2) [OF base, of 0, folded s3_def] one_disk_check(2) [OF base3, of 1, folded s4_def] by simp_all
  moreover have "disk_of 0 0 s4 = disk_of 0 0 s3" using keepsD [OF k(3)] by (simp add: driver_frame_def)
  moreover have "detect one_disk 0 s1 = s4"
    using one_disk_check(1) [OF base] by (simp add: detect_def s2_def [symmetric] s3_def s4_def case_prod_beta Let_def)
  ultimately show ?thesis by (simp add: found_def run)
qed

definition start_layout :: layout where
  "start_layout = \<lparr>disk_addr = \<lambda>c d. 0xC0030000 + 32 * (c * 2 + d), blk_addr = \<lambda>n. 0xC0040000 + 64 * n, id_buf = 0xC009D000\<rparr>"

definition start_machine :: "kernel \<Rightarrow> machine" where
  "start_machine k = quiet_machine\<lparr>krn := k, gates := empty_idt\<lparr>idt_table := 0xC0010000\<rparr>,
     channels := (\<lambda>c. (channels quiet_machine c)\<lparr>sema_wait := 16 + 8 * c, sema_rw := 20 + 8 * c\<rparr>)\<rparr>"

definition start_blocks :: "env \<Rightarrow> machine result blocks" where
  "start_blocks env = \<lparr>bmem = \<lambda>_. 0, blinks = list_head_init BlockDevices \<lparr>lprev = id, lnext = id\<rparr>,
     nr_sectors = (\<lambda>_. 0), block_ops = (\<lambda>_. ide_ops quiet_dev env start_layout), block_params = id\<rparr>"

lemma start_layout_good: "good_layout start_layout"
  by (simp add: good_layout_def drives_def drive_addr_def drive_blk_def start_layout_def block_name_def far_def)

lemma sys_subset:
  assumes "sys S idle Q A k" "T \<subseteq> S"
  shows "sys T idle Q A k"
proof -
  have sub: "heads T \<subseteq> heads S" using assms(2) by (auto simp: heads_def)
  have "lists (heads S) Q A (links k)" using assms(1) by (simp add: sys_def kernel_inv_def)
  then have "lists (heads T) Q A (links k)" using sub unfolding lists_def by (meson order_trans subsetD)
  then show ?thesis
    using assms sub by (auto simp: sys_def kernel_inv_def waits_ok_def)
qed

text \<open>The first idle task initialises the driver; others bring it back with the semaphores in place.\<close>

lemma start_adaptors:
  obtains k k' idle me where "sys_inv {4096} idle k" "current k = me" "me \<noteq> idle" "current k' = me"
    "sys_inv ({28, 24} \<union> ({20, 16} \<union> {4096})) idle k'" "sys_inv ({20, 16} \<union> {4096}) idle k'"
proof -
  have eq: "{28, 24} \<union> ({20, 16} \<union> {4096}) = {28, 24, 20, 16, 4096 :: u32}" by blast
  obtain i1 i2 s where s: "sched_init 4096 1 start_kernel = Inr s"
    "sys {4096} i1 ((\<lambda>_. [])(RUNQ := [i1, i2], WaitHead 4096 := [0xC009E000])) [i2, i1, 0xC009E000] s"
    "current s = i1" "count (semas s 4096) = 0" "6 \<le> free_pages (pages s)" "i1 \<noteq> i2"
    "priority (tasks s 0xC009E000) = 31" "priority (tasks s i1) = 31"
    by (rule start_scheduled)
  let ?Q = "(\<lambda>_. [])(RUNQ := [i1, i2], WaitHead 4096 := [0xC009E000])"
  have 0: "sys {4096} i2 ?Q [i2, i1, 0xC009E000] s" using s(2) by (simp add: sys_def)
  note sys_sema_init [OF 0, of 16 0]
  then have "sys {16, 4096} i2 (?Q(WaitHead 16 := [])) [i2, i1, 0xC009E000] (sema_init 16 0 s)" by simp
  from sys_sema_init [OF this, of 20 1]
  have "sys {20, 16, 4096} i2 (?Q(WaitHead 16 := [], WaitHead 20 := [])) [i2, i1, 0xC009E000]
      (sema_init 20 1 (sema_init 16 0 s))" by simp
  from sys_sema_init [OF this, of 24 0]
  have "sys {24, 20, 16, 4096} i2 (?Q(WaitHead 16 := [], WaitHead 20 := [], WaitHead 24 := [])) [i2, i1, 0xC009E000]
      (sema_init 24 0 (sema_init 20 1 (sema_init 16 0 s)))" by simp
  from sys_sema_init [OF this, of 28 1]
  have k: "sys {28, 24, 20, 16, 4096} i2 (?Q(WaitHead 16 := [], WaitHead 20 := [], WaitHead 24 := [], WaitHead 28 := []))
      [i2, i1, 0xC009E000] (sema_init 28 1 (sema_init 24 0 (sema_init 20 1 (sema_init 16 0 s))))" (is "sys _ _ _ _ ?k") by simp
  have "sys_inv ({20, 16} \<union> {4096}) i2 ?k" unfolding sys_inv_def using sys_subset [OF k, of "{20, 16} \<union> {4096}"] by auto
  moreover have "sys_inv ({28, 24} \<union> ({20, 16} \<union> {4096})) i2 ?k" unfolding sys_inv_def eq using k by blast
  moreover have "sys_inv {4096} i2 s" unfolding sys_inv_def using 0 by blast
  ultimately show ?thesis using that [of i2 s i1 ?k] s(3,6) by simp
qed


end
