(* ===== verification/Main_Run.thy ===== *)
theory Main_Run
  imports Machine_Props Disk_Init
begin

text \<open>
  \<open>main\<close> from its first instruction to its last: the boot of \<open>Machine_Props\<close>, the disk
  initialisation of \<open>Disk_Init\<close>, the read of the first sector and the end of the boot task.
\<close>

section \<open>The end of a task\<close>

lemma exit_leaves:
  assumes t: "at_task S idle me s" "me \<noteq> idle"
  obtains k where "task_exit (krn s) = Inr k" "sys_inv S idle k" "current k \<noteq> me" "status (tasks k me) = TASK_DYING"
    "pages k = pages (krn s)"
proof -
  let ?k = "krn s"
  obtain Q A where sys: "sys S idle Q A ?k" and c: "current ?k = me" using t(1) by (auto simp: at_task_def sys_inv_def)
  note S = sysD [OF sys]
  let ?Q = "Q(RUNQ := remove1 (current ?k) (Q RUNQ))"
  have "idle \<in> set (?Q RUNQ)" using S(4) t(2) c by (simp add: in_set_remove1)
  then have ne: "?Q RUNQ \<noteq> []" by auto
  obtain g where ex: "task_exit ?k = Inr (switched (hd (?Q RUNQ)) g (upd_task (current ?k) (\<lambda>t. t\<lparr>status := TASK_DYING\<rparr>) ?k))"
    using task_exit_spec [OF S(1,10,3) ne] by metis
  have "hd (?Q RUNQ) \<in> set (?Q RUNQ)" using ne by (rule hd_in_set)
  then have "hd (?Q RUNQ) \<noteq> me" using S(9) c by auto
  moreover obtain k where "task_exit ?k = Inr k" "sys_inv S idle k"
    using sys_exit [OF sys] t(2) c by (auto dest: sys_afterD)
  moreover have "pages (switched n g (upd_task t f ?k)) = pages ?k" for n t f by simp
  ultimately show ?thesis using that ex c by auto
qed

section \<open>After the first wait\<close>

text \<open>
  What the rest of \<open>main\<close> starts from: the boot task \<open>me\<close> runs, the disk driver can be initialised,
  and the literal hda lies apart from the names the driver writes.
\<close>

definition main_ready :: "u32 set \<Rightarrow> u32 \<Rightarrow> u32 \<Rightarrow> env \<Rightarrow> image \<Rightarrow> system \<Rightarrow> bool" where
  "main_ready S idle me env img s \<longleftrightarrow> init_ready S idle me env (disks img) (mach s) (block_init (blks s)) \<and>
     cstr (bmem (blks s)) (hda_addr img) [104, 100, 97] \<and> unat (hda_addr img) < 4294967290 \<and>
     (\<forall>x\<in>set drives. far (hda_addr img) (drive_addr (disks img) x) \<and>
        far (hda_addr img) (block_name (drive_blk (disks img) x)))"

lemma drivers_return:
  assumes "main_ready S idle me env img s"
  obtains s1 ds where "main_drivers img dev env s = Inr s1"
    "devices dev env (disks img) (set drives) drives ds (mach s1) (blks s1)"
    "\<forall>x\<in>set drives. request_ready (adaptor_semas 1 (mach s) \<union> (adaptor_semas 0 (mach s) \<union> S)) idle me env (fst x) (mach s1)"
    "blcok_get_by_name (hda_addr img) (blks s1) = Some (case ds of [] \<Rightarrow> NULL | y # _ \<Rightarrow> drive_blk (disks img) y)"
    "\<exists>u. init_adaptor dev env (disks img) 0 (mach s, block_init (blks s)) = Inr u \<and>
       ds = found dev (disks img) 0 (mach s, block_init (blks s)) @ found dev (disks img) 1 u"
proof -
  let ?lay = "disks img" and ?b = "block_init (blks s)"
  have ready: "init_ready S idle me env ?lay (mach s) ?b" and name: "cstr (bmem (blks s)) (hda_addr img) [104, 100, 97]"
    and p: "unat (hda_addr img) < 4294967290"
    and apart: "\<forall>x\<in>set drives. far (hda_addr img) (drive_addr ?lay x) \<and> far (hda_addr img) (block_name (drive_blk ?lay x))"
    using assms by (simp_all add: main_ready_def)
  obtain m b ds where i: "ide_init dev env ?lay (mach s, ?b) = Inr (m, b)" "devices dev env ?lay (set drives) drives ds m b"
    "configured 0 m" "configured 1 m"
    "\<forall>x\<in>set drives. request_ready (adaptor_semas 1 (mach s) \<union> (adaptor_semas 0 (mach s) \<union> S)) idle me env (fst x) m"
    "names_frame ?lay (bmem ?b) (bmem b)"
    "\<exists>u. init_adaptor dev env ?lay 0 (mach s, ?b) = Inr u \<and> ds = found dev ?lay 0 (mach s, ?b) @ found dev ?lay 1 u"
    by (rule ide_init_returns [OF ready])
  define s1 where "s1 = upd_mach (\<lambda>m. m\<lparr>gates := set_trap_gate 0x0e divide_error (gates m)\<rparr>)
    (upd_mach (sys_log ''isr addr %p\<newline>'' [divide_error_addr img])
      (s\<lparr>blks := b, mach := m, lock := spin_lock_init (lock s)\<rparr>))"
  have "main_drivers img dev env s = Inr s1"
    by (simp add: main_drivers_def Let_def i(1) s1_def upd_mach_def)
  moreover have b: "blks s1 = b" and ch: "channels (mach s1) = channels m" and k: "kcore (krn (mach s1)) = kcore (krn m)"
    by (simp_all add: s1_def upd_mach_def) (simp add: kcore_def sys_log_def printk_mm_def)
  moreover have "devices dev env ?lay (set drives) drives ds (mach s1) b"
    by (rule devices_frame [OF i(2)]) (simp add: disk_of_def ch)
  moreover have "request_ready T idle me env c (mach s1) = request_ready T idle me env c m" for T c
    by (simp add: request_ready_def ch at_task_def sys_inv_def) (metis k sys_kcore kcore_current)
  moreover have "cstr (bmem b) (hda_addr img) ([104, 100] @ [97])"
    using cstr_names_frame [OF _ _ p i(6) apart] name by (simp add: block_init_def del: cstr.simps)
  note drive_lookup [OF i(2) this]
  ultimately show ?thesis using that [of s1 ds] i(5,7) by simp
qed

text \<open>
  The read of sector 0 of drive \<open>y\<close> from state \<open>s\<close> to state \<open>t\<close>: the driver takes the mutex of the
  adaptor, gives one READ command for sector 0, one sector, takes down the semaphore of its
  interrupt and puts what the drive answers into the buffer.
\<close>

definition reads_first :: "device \<Rightarrow> env \<Rightarrow> u32 \<Rightarrow> u32 \<times> u32 \<Rightarrow> machine \<Rightarrow> machine \<Rightarrow> bool" where
  "reads_first dev env buf y s t \<longleftrightarrow> (\<exists>ret w req sq a. ide_read dev env buf 0 y s = Inr (ret, t) \<and>
     down env (sema_rw (channels s (fst y))) s = Inr w \<and> steps_to w sq req \<and> asks_sector 0x20 (fst y) (snd y) 0 s req \<and>
     down env (sema_wait (channels s (fst y))) sq = Inr a \<and> read_answer dev buf (fst y) a ret t)"

text \<open>
  The rest of \<open>main\<close> on drive \<open>y\<close>, from the state \<open>s\<close> after the drivers: it prints the size of the
  drive, reads sector 0 if the drive has one (a drive whose identification failed has none),
  and prints the last byte but one of the buffer.
\<close>

definition uses_disk :: "image \<Rightarrow> device \<Rightarrow> env \<Rightarrow> u32 \<times> u32 \<Rightarrow> machine \<Rightarrow> machine \<Rightarrow> bool" where
  "uses_disk img dev env y s t \<longleftrightarrow>
     (let n = disk_sectors (disk_of (fst y) (snd y) s); b = sys_log ''blk %d\<newline>'' [n] s
      in \<exists>r. (if 0 < n then reads_first dev env (sector_buf img) y b r else r = b) \<and>
         hist t = hist r \<and> pages (krn t) =
           printk_mm ''read sector 0,  %02x\<newline>'' [ucast (sys_mem r (sector_buf img + 510))] (pages (krn r)))"

lemma disk_returns:
  assumes buf: "unat (sector_buf img) + 512 < 4294967296"
    and lay: "good_layout (disks img)" and D: "devices dev env (disks img) (set drives) drives (y # ys) (mach s) (blks s)"
    and ready: "\<forall>x\<in>set drives. request_ready S idle me env (fst x) (mach s)"
    and found: "blcok_get_by_name (hda_addr img) (blks s) = Some (drive_blk (disks img) y)"
  obtains s' where "main_disk img s = Inr s'" "sys_inv S idle (krn (mach s'))" "current (krn (mach s')) \<noteq> me"
    "status (tasks (krn (mach s')) me) = TASK_DYING" "uses_disk img dev env y (mach s) (mach s')"
proof -
  let ?blk = "drive_blk (disks img) y"
  have y: "y \<in> set drives" using devices_subset [OF D] by simp
  define m0 where "m0 = sys_log ''blk %d\<newline>'' [nr_sectors (blks s) ?blk] (mach s)"
  define s1 where "s1 = s\<lparr>mach := m0\<rparr>"
  have k: "keeps_kernel {} (mach s) (mach s1)" by (simp add: s1_def m0_def kept)
  have same: "channels (mach s1) = channels (mach s)" "blks s1 = blks s" by (simp_all add: s1_def m0_def)
  have t: "at_task S idle me (mach s1)" "me \<noteq> idle"
    using keeps_at_task [OF k] ready y by (auto simp: request_ready_def)
  have "request_ready S idle me env (fst y) (mach s1)" using ready y t by (simp add: request_ready_def same)
  moreover have "entry dev env (disks img) (mach s1) (blks s1) y"
    using D by (simp add: devices_def entry_def same disk_of_def)
  ultimately have "serves dev env (disks img) S idle me (mach s1) (blks s1) y" by (intro registered_serves [OF lay y])
  then have serve: "if 0 < disk_sectors (disk_of (fst y) (snd y) (mach s1))
      then (\<exists>r t. block_read ?blk (sector_buf img) 0 (blks s1) (Inr (mach s1)) = (r, Inr t) \<and> at_task S idle me t \<and>
              ide_read dev env (sector_buf img) 0 y (mach s1) = Inr (r, t))
      else block_read ?blk (sector_buf img) 0 (blks s1) (Inr (mach s1)) = (- 1, Inr (mach s1))"
    unfolding serves_def Let_def by meson
  have nr: "nr_sectors (blks s) ?blk = disk_sectors (disk_of (fst y) (snd y) (mach s))"
    using D by (simp add: devices_def entry_def)
  have n1: "disk_sectors (disk_of (fst y) (snd y) (mach s1)) = disk_sectors (disk_of (fst y) (snd y) (mach s))"
    by (simp add: disk_of_def same)
  have sv: "if 0 < disk_sectors (disk_of (fst y) (snd y) (mach s))
      then (\<exists>r t. block_read ?blk (sector_buf img) 0 (blks s1) (Inr (mach s1)) = (r, Inr t) \<and> at_task S idle me t \<and>
              ide_read dev env (sector_buf img) 0 y (mach s1) = Inr (r, t))
      else block_read ?blk (sector_buf img) 0 (blks s1) (Inr (mach s1)) = (- 1, Inr (mach s1))"
    using serve unfolding n1 .
  have m0: "mach s1 = m0" by (simp add: s1_def)
  have "\<exists>r m. block_read ?blk (sector_buf img) 0 (blks s1) (Inr (mach s1)) = (r, Inr m) \<and> at_task S idle me m \<and>
      (if 0 < disk_sectors (disk_of (fst y) (snd y) (mach s)) then reads_first dev env (sector_buf img) y m0 m else m = m0)"
  proof (cases "0 < disk_sectors (disk_of (fst y) (snd y) (mach s))")
    case True
    have "\<exists>r t. block_read ?blk (sector_buf img) 0 (blks s1) (Inr (mach s1)) = (r, Inr t) \<and> at_task S idle me t \<and>
        ide_read dev env (sector_buf img) 0 y (mach s1) = Inr (r, t)"
      using sv unfolding if_P [OF True] .
    then obtain r m where m: "block_read ?blk (sector_buf img) 0 (blks s1) (Inr (mach s1)) = (r, Inr m)" "at_task S idle me m"
      and i: "ide_read dev env (sector_buf img) 0 (fst y, snd y) m0 = Inr (r, m)"
      unfolding m0 prod.collapse by blast
    have "channels t' = channels t" if "env t = Inr t'" for t t'
      using ready y that by (auto simp: request_ready_def env_returns_def)
    from ide_read_transfers [OF this i buf]
    have "reads_first dev env (sector_buf img) y m0 m"
      unfolding reads_first_def using i asks_small by fastforce
    then show ?thesis using m True by auto
  next
    case False
    have "block_read ?blk (sector_buf img) 0 (blks s1) (Inr (mach s1)) = (- 1, Inr (mach s1))"
      using sv unfolding if_not_P [OF False] .
    then show ?thesis using t(1) False m0 by auto
  qed
  then obtain r m where r: "block_read ?blk (sector_buf img) 0 (blks s1) (Inr (mach s1)) = (r, Inr m)" "at_task S idle me m"
    and reads: "if 0 < disk_sectors (disk_of (fst y) (snd y) (mach s)) then reads_first dev env (sector_buf img) y m0 m else m = m0"
    by blast
  define m1 where "m1 = sys_log ''read sector 0,  %02x\<newline>'' [ucast (sys_mem m (sector_buf img + 510))] m"
  have "keeps_kernel {} m m1" unfolding m1_def by (simp add: kept)
  then have t1: "at_task S idle me m1" using r(2) by (rule keeps_at_task)
  obtain k' where e: "task_exit (krn m1) = Inr k'" "sys_inv S idle k'" "current k' \<noteq> me" "status (tasks k' me) = TASK_DYING"
    "pages k' = pages (krn m1)"
    by (rule exit_leaves [OF t1 t(2)])
  have "main_disk img s = Inr (s1\<lparr>mach := m1\<lparr>krn := k'\<rparr>\<rparr>)"
    using layoutD(3) [OF lay y] r(1) e(1) unfolding m1_def
    by (simp add: main_disk_def found spin_def Let_def upd_mach_def try_krn_def try_mach_def m0_def [symmetric] s1_def)
  moreover have "uses_disk img dev env y (mach s) (m1\<lparr>krn := k'\<rparr>)"
    unfolding uses_disk_def Let_def using reads
    by (intro exI [of _ m]) (simp add: e(5) m1_def m0_def nr sys_log_def cong: if_cong)
  ultimately show ?thesis
    by (intro that [of "s1\<lparr>mach := m1\<lparr>krn := k'\<rparr>\<rparr>"]) (simp_all add: e)
qed

section \<open>The whole of main\<close>

text \<open>
  What the linker and the rest of the system give \<open>main\<close>: the disk structures, the literal and
  the semaphores lie apart, and while \<open>main\<close> waits others bring it back, with \<open>t\<close> the idle task
  that ran first.
\<close>

definition disk_image :: "image \<Rightarrow> system \<Rightarrow> bool" where
  "disk_image img s \<longleftrightarrow> good_layout (disks img) \<and>
     distinct [boot_sema img, sema_wait (channels (mach s) 0), sema_rw (channels (mach s) 0),
       sema_wait (channels (mach s) 1), sema_rw (channels (mach s) 1)] \<and>
     cstr (bmem (blks s)) (hda_addr img) [104, 100, 97] \<and> unat (hda_addr img) < 4294967290 \<and>
     unat (start_bss img) \<le> unat (end_bss img) \<and>
     (unat (hda_addr img) + 4 \<le> unat (start_bss img) \<or> unat (end_bss img) \<le> unat (hda_addr img)) \<and>
     (\<forall>x\<in>set drives. far (hda_addr img) (drive_addr (disks img) x) \<and>
        far (hda_addr img) (block_name (drive_blk (disks img) x)))"

lemma hda_kept:
  assumes "disk_image img s"
  shows "cstr (clear_bytes img (bmem (blks s))) (hda_addr img) [104, 100, 97]"
proof (rule cstr_agree)
  show "cstr (bmem (blks s)) (hda_addr img) [104, 100, 97]" "unat (hda_addr img) + length [104 :: u8, 100, 97] < 4294967296"
    using assms by (auto simp: disk_image_def)
  fix a :: u32
  let ?n = "unat (end_bss img - start_bss img)"
  assume a: "unat (hda_addr img) \<le> unat a" "unat a \<le> unat (hda_addr img) + length [104 :: u8, 100, 97]"
  have b: "unat (start_bss img) \<le> unat (end_bss img)"
    "unat (hda_addr img) + 4 \<le> unat (start_bss img) \<or> unat (end_bss img) \<le> unat (hda_addr img)"
    using assms by (simp_all add: disk_image_def)
  have n: "unat (start_bss img) + ?n = unat (end_bss img)"
    using b(1) by (subst unat_sub) (simp_all add: word_le_nat_alt)
  have w: "unat (start_bss img) + ?n < 4294967296" unfolding n by (rule u32_lt)
  show "clear_bytes img (bmem (blks s)) a = bmem (blks s) a"
    using a b(2) n by (auto simp: clear_bytes_def memset_def fill_bytes_spec [OF w])
qed

abbreviation all_semas :: "image \<Rightarrow> system \<Rightarrow> u32 set" where
  "all_semas img s \<equiv> adaptor_semas 1 (mach s) \<union> (adaptor_semas 0 (mach s) \<union> {boot_sema img})"

definition env_wakes :: "image \<Rightarrow> system \<Rightarrow> u32 \<Rightarrow> u32 \<Rightarrow> env \<Rightarrow> bool" where
  "env_wakes img s t i env \<longleftrightarrow> env_returns {boot_sema img} t i env \<and>
     env_returns (adaptor_semas 0 (mach s) \<union> {boot_sema img}) t i env \<and> env_returns (all_semas img s) t i env"

lemma main_waits:
  assumes static: "disk_image img s" and wakes: "env_wakes img s t i env" and idt: "idt_mapped (idt_table (gates (mach s1)))"
    and s1: "sys {boot_sema img} t Q A (krn (mach s1))" "current (krn (mach s1)) = t" "t \<noteq> i"
      "channels (mach s1) = clear_adaptor \<circ> channels (mach s)" "blks s1 = clear_blocks img (blks s)"
  obtains s2 where "try_mach env s1 = Inr s2" "main_ready {boot_sema img} t i env img s2"
    "adaptor_semas c (mach s2) = adaptor_semas c (mach s)" "adaptor_semas c' (mach s2) = adaptor_semas c' (mach s)"
proof -
  have "sys_inv {boot_sema img} t (krn (mach s1))" using s1(1) by (auto simp: sys_inv_def)
  then obtain m where m: "env (mach s1) = Inr m" "at_task {boot_sema img} t i m" "channels m = channels (mach s1)"
    "gates m = gates (mach s1)"
    using wakes s1(2,3) unfolding env_wakes_def env_returns_def by metis
  define s2 where "s2 = s1\<lparr>mach := m\<rparr>"
  have eq: "adaptor_semas x (mach s2) = adaptor_semas x (mach s)" for x
    by (simp add: adaptor_semas_def s2_def m(3) s1(4) clear_adaptor_def)
  have d: "distinct [sema_wait (channels m 0), sema_rw (channels m 0), sema_wait (channels m 1), sema_rw (channels m 1)]"
    "(adaptor_semas 0 m \<union> adaptor_semas 1 m) \<inter> {boot_sema img} = {}"
    using static by (auto simp: disk_image_def adaptor_semas_def m(3) s1(4) clear_adaptor_def)
  have "ring (blinks (block_init (clear_blocks img (blks s)))) BlockDevices []" by (simp add: block_init_def dl.rep_init)
  moreover have "idt_mapped (idt_table (gates m))" using idt m(4) by simp
  ultimately have "init_ready {boot_sema img} t i env (disks img) (mach s2) (block_init (blks s2))"
    unfolding init_ready_def using d m(2) s1(3) static wakes eq [unfolded s2_def]
    by (simp add: s2_def s1(5) disk_image_def env_wakes_def del: distinct.simps)
  then have "main_ready {boot_sema img} t i env img s2"
    using static hda_kept [OF static]
    by (simp add: main_ready_def disk_image_def s2_def s1(5) clear_blocks_def del: cstr.simps)
  moreover have "try_mach env s1 = Inr s2" by (simp add: try_mach_def m(1) s2_def)
  ultimately show ?thesis using that eq by blast
qed


section \<open>A machine that boots from its disk\<close>

text \<open>
  The small image with the literal hda in memory and four semaphores; the others wake the boot
  task once it waits, and leave the semaphores initialised.
\<close>

definition disk_system :: system where
  "disk_system = (ticking start_kernel)
     \<lparr>mach := (mach (ticking start_kernel))\<lparr>channels := channels (start_machine start_kernel)\<rparr>,
      blks := (blks (ticking start_kernel))\<lparr>bmem := (\<lambda>_. 0)(0xC0025000 := 104, 0xC0025001 := 100, 0xC0025002 := 97)\<rparr>\<rparr>"

lemma kernel_inv_current: "kernel_inv H Q A (k\<lparr>current := i\<rparr>) = kernel_inv H Q A k"
  by (simp add: kernel_inv_def task_ok_def valid_task_def)

lemma woken:
  assumes sys: "sys {b} t ((\<lambda>_. [])(RUNQ := [t, t2], WaitHead b := [i])) [t2, t, i] k"
    and c: "count (semas k b) = 0" "priority (tasks k i) = 31"
  obtains Q k' where "sys {b} t Q [t2, t, i] k'" "current k' = i"
proof -
  let ?Q = "(\<lambda>_. [])(RUNQ := [t, t2], WaitHead b := [i])"
  note S = sysD [OF sys]
  have free: "sema_free b k" and blocked: "status (tasks k i) = TASK_BLOCKED" using S(6) by (simp_all add: waits_ok_def)
  have c1: "0 < sint (count (semas k b) + 1)" by (simp add: c(1))
  have "WaitHead b \<in> heads {b}" "?Q (WaitHead b) = i # []" by simp_all
  from sema_up_wakes [OF S(1) free this c1 blocked]
  obtain k1 g where k1: "kernel_inv (heads {b}) (?Q(WaitHead b := [], ReadyHead (unat (priority (tasks k i))) :=
      ?Q (ReadyHead (unat (priority (tasks k i)))) @ [i])) [t2, t, i] k1"
    and eq: "k1 = upd_links g (upd_task i (\<lambda>t. t\<lparr>status := TASK_RUNNING\<rparr>) (upd_sema b (\<lambda>x. x\<lparr>count := count x + 1\<rparr>) k))"
    by blast
  let ?Q1 = "?Q(WaitHead b := [], RUNQ := [t, t2, i])" and ?k = "k1\<lparr>current := i\<rparr>"
  have "unat (31 :: i32) = 31" by simp
  then have "kernel_inv (heads {b}) ?Q1 [t2, t, i] k1" using k1 by (simp add: c(2))
  then have "kernel_inv (heads {b}) ?Q1 [t2, t, i] ?k" by (simp only: kernel_inv_current)
  moreover have "waits_ok {b} ?Q1 ?k" using free by (simp add: waits_ok_def sema_free_def eq)
  moreover have "running ?k" "init_task ?k = init_task k" by (simp_all add: running_def eq)
  ultimately have "sys {b} t ?Q1 [t2, t, i] ?k" using S(5) by (simp add: sys_def)
  then show ?thesis by (rule that) simp
qed

lemma four_semas:
  assumes "sys {4096} t Q A k"
  obtains k' where "sys {28, 24, 20, 16, 4096} t (Q(WaitHead 16 := [], WaitHead 20 := [], WaitHead 24 := [], WaitHead 28 := [])) A k'"
    "current k' = current k"
proof -
  have "sys {16, 4096} t (Q(WaitHead 16 := [])) A (sema_init 16 0 k)"
    using sys_sema_init [OF assms, of 16 0] by simp
  from sys_sema_init [OF this, of 20 1]
  have "sys {20, 16, 4096} t (Q(WaitHead 16 := [], WaitHead 20 := [])) A (sema_init 20 1 (sema_init 16 0 k))" by simp
  from sys_sema_init [OF this, of 24 0]
  have "sys {24, 20, 16, 4096} t (Q(WaitHead 16 := [], WaitHead 20 := [], WaitHead 24 := [])) A
      (sema_init 24 0 (sema_init 20 1 (sema_init 16 0 k)))" by simp
  from sys_sema_init [OF this, of 28 1]
  have "sys {28, 24, 20, 16, 4096} t (Q(WaitHead 16 := [], WaitHead 20 := [], WaitHead 24 := [], WaitHead 28 := [])) A
      (sema_init 28 1 (sema_init 24 0 (sema_init 20 1 (sema_init 16 0 k))))" by simp
  then show ?thesis by (rule that) simp
qed


end
