(* ===== verification/Disk_Irq.thy ===== *)
theory Disk_Irq
  imports Disk_Run
begin

text \<open>
  A disk read by interrupt, with nothing left open: while the reader waits, the drive raises its
  interrupt once, and the timer takes the processor from one ready task to the next until the
  reader has it again. What \<open>sema_down\<close> leaves behind for a task that was woken makes the next
  request pass its wait.
\<close>

section \<open>What happens during the wait\<close>

fun run_until :: "nat \<Rightarrow> u32 \<Rightarrow> kernel \<Rightarrow> kernel result" where
  "run_until 0 me k = (if current k = me then Inr k else Inl Spin)"
| "run_until (Suc n) me k = (if current k = me then Inr k else bindE (schedule k) (run_until n me))"

definition irq_env :: "device \<Rightarrow> u32 \<Rightarrow> u32 \<Rightarrow> nat \<Rightarrow> env" where
  "irq_env dev c me n s =
     bindE (ide_interrupt_body dev c s) (\<lambda>s. bindE (run_until n me (krn s)) (\<lambda>k. Inr (s\<lparr>krn := k\<rparr>)))"

lemma run_until_now [simp]: "current k = me \<Longrightarrow> run_until n me k = Inr k"
  by (cases n) simp_all

text \<open>If \<open>m\<close> calls of \<open>schedule\<close> reach the task, so does the loop with at least as much fuel.\<close>

lemma run_until_reaches:
  assumes "sys_inv S idle k" "schedules m k = Inr k1" "current k1 = me" "m \<le> n"
  shows "\<exists>k'. run_until n me k = Inr k' \<and> sys_inv S idle k' \<and> current k' = me \<and> semas k' = semas k"
  using assms
proof (induction m arbitrary: n k)
  case 0
  then show ?case by simp
next
  case (Suc m)
  show ?case
  proof (cases "current k = me")
    case True
    then show ?thesis using Suc.prems(1) by simp
  next
    case False
    obtain k2 where k2: "schedule k = Inr k2" "sys_inv S idle k2"
      using Suc.prems(1) sys_schedule by (fastforce simp: sys_inv_def [of _ _ k] dest: sys_afterD)
    have sm: "semas k2 = semas k" using Suc.prems(1) sys_schedule_semas k2(1) by (auto simp: sys_inv_def)
    have "schedules m k2 = Inr k1" using Suc.prems(2) k2(1) by simp
    from Suc.IH [OF k2(2) this Suc.prems(3), of "n - 1"] Suc.prems(4)
    show ?thesis using False k2(1) by (cases n) (auto simp: sm)
  qed
qed

lemma run_until_current: "run_until n me k = Inr k' \<Longrightarrow> current k' = me"
  by (induction n arbitrary: k) (auto split: if_splits)

lemma irq_env_channels: "irq_env dev c me n s = Inr s' \<Longrightarrow> channels s' = channels s"
  by (auto simp: irq_env_def ide_interrupt_body_def sys_in_eq up_def)

section \<open>The wait\<close>

lemma blocked_and_woken:
  assumes sys: "sys S idle Q A k" and me: "current k = me" "me \<noteq> idle" "priority (tasks k me) = 31"
    and a: "a \<in> S" "Q (WaitHead a) = []" "count (semas k a) = 0"
  obtains k1 k2 where "sema_down a k = Inr k1" "current k1 \<noteq> me" "sema_up a k1 = Inr k2" "sys_inv S idle k2"
    "semas k2 = (semas k)(a := (semas k a)\<lparr>count := 1\<rparr>)"
    "\<exists>k3. schedules (2 * length (remove1 me (Q RUNQ))) k2 = Inr k3 \<and> current k3 = me"
proof -
  note S = sysD [OF sys]
  let ?Q = "Q(RUNQ := remove1 me (Q RUNQ))" and ?ts = "remove1 me (Q RUNQ)"
  have free: "sema_free a k" and w: "WaitHead a \<in> heads S" using S(6) a(1) by (simp_all add: waits_ok_def)
  have idle: "idle \<in> set ?ts" using S(4) me(2) by (simp add: in_set_remove1)
  then have ne: "(Q(RUNQ := remove1 (current k) (Q RUNQ))) RUNQ \<noteq> []" by (auto simp: me(1))
  have c0: "sint (count (semas k a)) \<le> 0" by (simp add: a(3))
  obtain g where down: "sema_down a k = Inr (switched (hd ?ts) g (upd_task me (\<lambda>t. t\<lparr>status := TASK_BLOCKED\<rparr>) k))"
    and inv1: "kernel_inv (heads S) (?Q(WaitHead a := me # Q (WaitHead a))) A
      (switched (hd ?ts) g (upd_task me (\<lambda>t. t\<lparr>status := TASK_BLOCKED\<rparr>) k))"
    using sema_down_blocks [OF S(1) free c0 w S(10,3) _ ne] by (auto simp: me(1))
  let ?k1 = "switched (hd ?ts) g (upd_task me (\<lambda>t. t\<lparr>status := TASK_BLOCKED\<rparr>) k)"
  have hd: "hd ?ts \<in> set ?ts" using idle by (intro hd_in_set) auto
  then have nm: "hd ?ts \<noteq> me" using S(9) by auto
  obtain k2 where k2: "sema_up a ?k1 = Inr k2" "sys_inv S idle k2"
  proof -
    obtain k' where "sema_down a k = Inr k'" "sys_inv S idle k'"
      using sys_down [OF sys a(1)] me by (auto dest: sys_afterD)
    then obtain Q' A' where "sys S idle Q' A' ?k1" using down by (auto simp: sys_inv_def)
    from sys_up [OF this a(1)] show ?thesis using that by (auto dest: sys_afterD)
  qed
  let ?W = "?Q(WaitHead a := me # Q (WaitHead a))"
  have W: "?W (WaitHead a) = me # []" by (simp add: a(2))
  have free1: "sema_free a ?k1" and c1: "0 < sint (count (semas ?k1 a) + 1)" using free a(3) by (simp_all add: sema_free_def)
  have b1: "status (tasks ?k1 me) = TASK_BLOCKED" and p1: "priority (tasks ?k1 me) = 31" using nm me(3) by auto
  obtain k' g' where up: "sema_up a ?k1 = Inr k'"
    and inv2: "kernel_inv (heads S) (?W(WaitHead a := [], ReadyHead (unat (priority (tasks ?k1 me))) :=
      ?W (ReadyHead (unat (priority (tasks ?k1 me)))) @ [me])) A k'"
    and k': "k' = upd_links g' (upd_task me (\<lambda>t. t\<lparr>status := TASK_RUNNING\<rparr>) (upd_sema a (\<lambda>x. x\<lparr>count := count x + 1\<rparr>) ?k1))"
    by (rule sema_up_wakes [OF inv1 free1 w W c1 b1])
  have eq: "k' = k2" using up k2(1) by simp
  let ?R = "?W(WaitHead a := [], RUNQ := ?ts @ [me])"
  have "unat (31 :: i32) = 31" by simp
  then have inv3: "kernel_inv (heads S) ?R A k2" using inv2 unfolding p1 by (simp add: eq)
  have "?ts \<noteq> []" using idle by fastforce
  then have cur: "current k2 = hd (?ts @ [me])" "running k2"
    using nm by (auto simp: eq [symmetric] k' running_def hd_append2)
  have "?R RUNQ = ?ts @ [me]" "?ts @ [me] \<noteq> []" by simp_all
  from round_robin_steps [OF inv3 this cur, of "length ?ts"]
  have "\<exists>k3. schedules (2 * length ?ts) k2 = Inr k3 \<and> current k3 = me"
    by (auto simp: rotate_append)
  moreover have "semas k2 = (semas k)(a := (semas k a)\<lparr>count := 1\<rparr>)"
    by (simp add: eq [symmetric] k' upd_sema_def a(3))
  ultimately show ?thesis using that [OF down _ k2] nm by simp
qed

lemma irq_wait:
  assumes sys: "sys S idle Q A (krn s)" and me: "current (krn s) = me" "me \<noteq> idle" "priority (tasks (krn s) me) = 31"
    and w: "sema_wait (channels s c) \<in> S" "Q (WaitHead (sema_wait (channels s c))) = []"
      "count (semas (krn s) (sema_wait (channels s c))) = 0"
    and n: "2 * length (Q RUNQ) \<le> n"
  shows "\<exists>s'. down (irq_env dev c me n) (sema_wait (channels s c)) s = Inr s' \<and> at_task S idle me s' \<and> channels s' = channels s \<and>
    semas (krn s') = (semas (krn s))(sema_wait (channels s c) := (semas (krn s) (sema_wait (channels s c)))\<lparr>count := 1\<rparr>)"
proof -
  obtain k1 k2 where k: "sema_down (sema_wait (channels s c)) (krn s) = Inr k1" "current k1 \<noteq> me"
    "sema_up (sema_wait (channels s c)) k1 = Inr k2" "sys_inv S idle k2"
    "semas k2 = (semas (krn s))(sema_wait (channels s c) := (semas (krn s) (sema_wait (channels s c)))\<lparr>count := 1\<rparr>)"
    "\<exists>k3. schedules (2 * length (remove1 me (Q RUNQ))) k2 = Inr k3 \<and> current k3 = me"
    by (rule blocked_and_woken [OF sys me w])
  have "length (remove1 me (Q RUNQ)) \<le> length (Q RUNQ)" by (simp add: length_remove1)
  then have m: "2 * length (remove1 me (Q RUNQ)) \<le> n" using n by linarith
  obtain k' where k': "run_until n me k2 = Inr k'" "sys_inv S idle k'" "current k' = me" "semas k' = semas k2"
    using k(6) run_until_reaches [OF k(4) _ _ m] by blast
  have "\<exists>s'. irq_env dev c me n (s\<lparr>krn := k1\<rparr>) = Inr s' \<and> krn s' = k' \<and> channels s' = channels s"
    by (simp add: irq_env_def ide_interrupt_body_def sys_in_eq up_def k(3) k'(1))
  then show ?thesis using k(1,2,5) k'(2-4) me(1) by (auto simp: down_def at_task_def)
qed

section \<open>The read\<close>

lemma keeps_facts:
  assumes "keeps_kernel {} s t"
  shows "semas (krn t) = semas (krn s)" "tasks (krn t) = tasks (krn s)" "current (krn t) = current (krn s)"
    "sys S idle Q A (krn t) = sys S idle Q A (krn s)"
    "sema_wait (channels t c) = sema_wait (channels s c)" "sema_rw (channels t c) = sema_rw (channels s c)"
proof -
  have kc: "kcore (krn t) = kcore (krn s)" using assms by (simp add: keeps_kernel_def)
  show "semas (krn t) = semas (krn s)" "tasks (krn t) = tasks (krn s)" "current (krn t) = current (krn s)"
    using arg_cong [OF kc, of semas] arg_cong [OF kc, of tasks] arg_cong [OF kc, of current] by (simp_all add: kcore_def)
  show "sys S idle Q A (krn t) = sys S idle Q A (krn s)" using kc by (metis sys_kcore)
qed (simp_all add: frame_fields [OF keepsD [OF assms]])

text \<open>A positive count is taken at once.\<close>

lemma down_at_once:
  assumes "sys S idle Q A (krn s)" "a \<in> S" "0 < sint (count (semas (krn s) a))"
  shows "down env a s = Inr (s\<lparr>krn := upd_sema a (\<lambda>x. x\<lparr>count := count x - 1\<rparr>) (krn s)\<rparr>)"
    "sys S idle Q A (upd_sema a (\<lambda>x. x\<lparr>count := count x - 1\<rparr>) (krn s))"
proof -
  have "sema_free a (krn s)" using sysD(6) [OF assms(1)] assms(2) by (simp add: waits_ok_def)
  then show "down env a s = Inr (s\<lparr>krn := upd_sema a (\<lambda>x. x\<lparr>count := count x - 1\<rparr>) (krn s)\<rparr>)"
    by (simp add: down_def sema_down_free [OF _ assms(3)])
  show "sys S idle Q A (upd_sema a (\<lambda>x. x\<lparr>count := count x - 1\<rparr>) (krn s))"
    using assms(1) by (simp add: sys_def running_def waits_ok_def sema_free_def)
qed

text \<open>
  The adaptor is free and the waiting queue of its interrupt is empty, with the count the driver
  starts with. The read ends; the count of the interrupt's semaphore is then one.
\<close>

lemma irq_read_ends:
  assumes sys: "sys S idle Q A (krn s)" and me: "current (krn s) = me" "me \<noteq> idle" "priority (tasks (krn s) me) = 31"
    and w: "w = sema_wait (channels s c)" "rw = sema_rw (channels s c)" "w \<in> S" "rw \<in> S" "w \<noteq> rw"
    and c: "Q (WaitHead w) = []" "count (semas (krn s) w) = 0" "0 < sint (count (semas (krn s) rw))"
    and n: "2 * length (Q RUNQ) \<le> n"
  obtains ret s' where "ide_read dev (irq_env dev c me n) buf sect_no (c, d) s = Inr (ret, s')" "at_task S idle me s'"
    "down (irq_env dev c me n) rw s = Inr (s\<lparr>krn := upd_sema rw (\<lambda>x. x\<lparr>count := count x - 1\<rparr>) (krn s)\<rparr>)"
    "count (semas (krn s') w) = 1" "count (semas (krn s') rw) = count (semas (krn s) rw)"
    "sema_wait (channels s' c) = w" "sema_rw (channels s' c) = rw"
proof -
  let ?env = "irq_env dev c me n"
  note rw = down_at_once [OF sys w(4) c(3)]
  define s1 where "s1 = s\<lparr>krn := upd_sema rw (\<lambda>x. x\<lparr>count := count x - 1\<rparr>) (krn s)\<rparr>"
  have d1: "down ?env rw s = Inr s1" and sys1: "sys S idle Q A (krn s1)" by (simp_all add: rw s1_def)
  have t1: "at_task S idle me s1" using sys1 me(1) by (auto simp: at_task_def sys_inv_def s1_def)
  let ?P = "\<lambda>sq s2. semas (krn s2) = (semas (krn sq))(w := (semas (krn sq) w)\<lparr>count := 1\<rparr>) \<and> channels s2 = channels sq"
  have wait: "\<exists>s2. down ?env (sema_wait (channels sq c)) sq = Inr s2 \<and> at_task S idle me s2 \<and> channels s2 = channels sq \<and> ?P sq s2"
    if k: "keeps_kernel {} s1 sq" for sq
    using irq_wait [of S idle Q A sq me c n dev] sys1 me w c(1,2) n by (auto simp: keeps_facts [OF k] s1_def)
  obtain ret s' sq s2 s4 where run: "ide_read dev ?env buf sect_no (c, d) s = Inr (ret, s')" "at_task S idle me s'"
    "keeps_kernel {} s1 sq" "?P sq s2" "keeps_kernel {} s2 s4" "at_task S idle me s4" "up rw s4 = Inr s'"
  proof (rule ide_read_ends [where P = ?P and dev = dev and buf = buf and sect_no = sect_no and d = d, OF _ t1 _ wait])
    show "down ?env (sema_rw (channels s c)) s = Inr s1" "channels s1 = channels s" "sema_rw (channels s c) \<in> S"
      using d1 w(2,4) by (simp_all add: s1_def)
  qed (use w(2) that in simp_all)
  obtain Q' A' k where 4: "sys S idle Q' A' (krn s4)" "sema_up rw (krn s4) = Inr k" "s' = s4\<lparr>krn := k\<rparr>"
    using run(6,7) by (auto simp: at_task_def sys_inv_def up_def elim!: bindE_InrE)
  note k = sys_up_semas [OF 4(1) w(4) 4(2)]
  have "count (semas (krn s') w) = 1" "count (semas (krn s') rw) = count (semas (krn s) rw)"
    "sema_wait (channels s' c) = w" "sema_rw (channels s' c) = rw"
    using k w run(4) keeps_facts [OF run(3)] keeps_facts [OF run(5)] by (simp_all add: 4(3) s1_def)
  then show ?thesis using that run(1,2) d1 by (simp add: s1_def)
qed


text \<open>A request that finds both counts positive never comes to \<open>env\<close>.\<close>

lemma read_at_once:
  assumes t: "at_task S idle me s" and S: "sema_wait (channels s c) \<in> S" "sema_rw (channels s c) \<in> S"
      "sema_wait (channels s c) \<noteq> sema_rw (channels s c)"
    and c: "0 < sint (count (semas (krn s) (sema_wait (channels s c))))" "0 < sint (count (semas (krn s) (sema_rw (channels s c))))"
  shows "\<exists>ret s'. \<forall>env. ide_read dev env buf sect_no (c, d) s = Inr (ret, s')"
proof -
  let ?w = "sema_wait (channels s c)" and ?rw = "sema_rw (channels s c)"
  obtain Q A where sys: "sys S idle Q A (krn s)" using t by (auto simp: at_task_def sys_inv_def)
  define s1 where "s1 = s\<lparr>krn := upd_sema ?rw (\<lambda>x. x\<lparr>count := count x - 1\<rparr>) (krn s)\<rparr>"
  have d1: "down env ?rw s = Inr s1" and sys1: "sys S idle Q A (krn s1)" for env
    using down_at_once [OF sys S(2) c(2)] by (simp_all add: s1_def)
  have t1: "at_task S idle me s1" using sys1 t by (auto simp: at_task_def sys_inv_def s1_def)
  have d2: "down env (sema_wait (channels sq c)) sq = Inr (sq\<lparr>krn := upd_sema ?w (\<lambda>x. x\<lparr>count := count x - 1\<rparr>) (krn sq)\<rparr>) \<and>
      at_task S idle me (sq\<lparr>krn := upd_sema ?w (\<lambda>x. x\<lparr>count := count x - 1\<rparr>) (krn sq)\<rparr>)"
    if k: "keeps_kernel {} s1 sq" for sq env
  proof -
    have sq: "sys S idle Q A (krn sq)" "0 < sint (count (semas (krn sq) ?w))" "current (krn sq) = me" "sema_wait (channels sq c) = ?w"
      using sys1 c(1) S(3) t1 by (simp_all add: keeps_facts [OF k]) (simp_all add: s1_def at_task_def)
    then show ?thesis using down_at_once [OF sq(1) S(1) sq(2)] by (auto simp: at_task_def sys_inv_def)
  qed
  have "\<exists>s2. down env (sema_wait (channels sq c)) sq = Inr s2 \<and> at_task S idle me s2 \<and> channels s2 = channels sq"
    if "keeps_kernel {} s1 sq" for sq env
    using d2 [OF that] by (intro exI conjI) (blast, blast, simp)
  then have ends: "\<exists>ret s'. ide_read dev env buf sect_no (c, d) s = Inr (ret, s') \<and> at_task S idle me s'" for env
    using ide_read_returns_if [OF d1 t1 _ _ S(2), of env dev buf sect_no d] by (simp add: s1_def)
  have "keeps_kernel {} s1 (issue_pio_cmd c CMD_READ_SECTOR_RETRY (select_sector dev c d sect_no s1))"
    by (intro kept keeps_kernel_refl)
  from d2 [OF this] have "ide_read dev env buf sect_no (c, d) s = ide_read dev env' buf sect_no (c, d) s" for env env'
    by (simp add: ide_read_def d1 Let_def)
  then show ?thesis using ends by metis
qed

text \<open>
  C24: The wait for the interrupt works only once. After such a read the count of the
  adaptor's semaphore is one, because the woken reader has not taken it down: the next request of the
  same task does not wait. Whatever would have happened until the interrupt, its result is
  the same: it polls the drive at once.
\<close>

theorem next_read_does_not_wait:
  assumes "sys S idle Q A (krn s)" "current (krn s) = me" "me \<noteq> idle" "priority (tasks (krn s) me) = 31"
    and "w = sema_wait (channels s c)" "rw = sema_rw (channels s c)" "w \<in> S" "rw \<in> S" "w \<noteq> rw"
    and "Q (WaitHead w) = []" "count (semas (krn s) w) = 0" "0 < sint (count (semas (krn s) rw))"
    and "2 * length (Q RUNQ) \<le> n"
  shows "\<exists>ret s'. ide_read dev (irq_env dev c me n) buf sect_no (c, d) s = Inr (ret, s') \<and> count (semas (krn s') w) = 1 \<and>
    (\<exists>ret' s''. \<forall>env. ide_read dev env buf' sect_no' (c, d') s' = Inr (ret', s''))"
proof -
  obtain ret s' where r: "ide_read dev (irq_env dev c me n) buf sect_no (c, d) s = Inr (ret, s')" "at_task S idle me s'"
    and c: "count (semas (krn s') w) = 1" "count (semas (krn s') rw) = count (semas (krn s) rw)"
    and ch: "sema_wait (channels s' c) = w" "sema_rw (channels s' c) = rw"
    by (rule irq_read_ends [OF assms(1-13)])
  have "\<exists>ret' s''. \<forall>env. ide_read dev env buf' sect_no' (c, d') s' = Inr (ret', s'')"
    by (rule read_at_once [OF r(2)]) (use assms(7-9,12) c in \<open>simp_all add: ch\<close>)
  then show ?thesis using r(1) c(1) by blast
qed

section \<open>A concrete reader\<close>

text \<open>The first idle task after the boot reads from a drive that is never busy.\<close>

lemma boot_reader:
  obtains k me t Q A where "sys {8, 4, 4096} t Q A (krn (disk_machine k))" "current (krn (disk_machine k)) = me" "me \<noteq> t"
    "priority (tasks (krn (disk_machine k)) me) = 31" "(4 :: u32) = sema_wait (channels (disk_machine k) 0)"
    "(8 :: u32) = sema_rw (channels (disk_machine k) 0)" "Q (WaitHead 4) = []" "count (semas (krn (disk_machine k)) 4) = 0"
    "0 < sint (count (semas (krn (disk_machine k)) 8))" "2 * length (Q RUNQ) \<le> 4" "current k = me" "me \<noteq> 0"
proof -
  obtain i1 i2 s where s: "sched_init 4096 1 start_kernel = Inr s"
    "sys {4096} i1 ((\<lambda>_. [])(RUNQ := [i1, i2], WaitHead 4096 := [0xC009E000])) [i2, i1, 0xC009E000] s"
    "current s = i1" "count (semas s 4096) = 0" "6 \<le> free_pages (pages s)" "i1 \<noteq> i2"
    "priority (tasks s 0xC009E000) = 31" "priority (tasks s i1) = 31"
    by (rule start_scheduled)
  let ?Q = "(\<lambda>_. [])(RUNQ := [i1, i2], WaitHead 4096 := [0xC009E000])" and ?k = "sema_init 8 1 (sema_init 4 0 s)"
  have "sys {4096} i2 ?Q [i2, i1, 0xC009E000] s" using s(2) by (simp add: sys_def)
  from sys_sema_init [OF sys_sema_init [OF this, of 4 0], of 8 1]
  have sys: "sys {8, 4, 4096} i2 (?Q(WaitHead 4 := [], WaitHead 8 := [])) [i2, i1, 0xC009E000] (krn (disk_machine ?k))"
    by (simp add: disk_machine_def)
  have "i1 \<noteq> 0" using sysD(8) [OF s(2)] s(3) by simp
  then show ?thesis
    by (intro that [OF sys, of i1])
      (use s(3,6,8) in \<open>simp_all add: disk_machine_def quiet_machine_def sema_init_def Let_def upd_sema_def upd_links_def\<close>)
qed


theorem next_read_does_not_wait_witness:
  "\<exists>k s' ret me. current k = me \<and> ide_read quiet_dev (irq_env quiet_dev 0 me 4) 0x1000 1 (0, 1) (disk_machine k) = Inr (ret, s') \<and>
    count (semas (krn s') 4) = 1 \<and>
    (\<exists>ret' s''. \<forall>env. ide_read quiet_dev env 0x2000 2 (0, 1) s' = Inr (ret', s''))"
proof -
  obtain k me t Q A where h: "sys {8, 4, 4096} t Q A (krn (disk_machine k))" "current (krn (disk_machine k)) = me" "me \<noteq> t"
    "priority (tasks (krn (disk_machine k)) me) = 31" "(4 :: u32) = sema_wait (channels (disk_machine k) 0)"
    "(8 :: u32) = sema_rw (channels (disk_machine k) 0)" "Q (WaitHead 4) = []" "count (semas (krn (disk_machine k)) 4) = 0"
    "0 < sint (count (semas (krn (disk_machine k)) 8))" "2 * length (Q RUNQ) \<le> 4" "current k = me" "me \<noteq> 0"
    by (rule boot_reader)
  have a: "(4 :: u32) \<in> {8, 4, 4096}" "(8 :: u32) \<in> {8, 4, 4096}" "(4 :: u32) \<noteq> 8" by simp_all
  show ?thesis
    using next_read_does_not_wait [OF h(1-6) a h(7-10), of quiet_dev "0x1000" 1 1 "0x2000" 2 1] h(11) by blast
qed
end
