(* ===== verification/Spec2Isabelle.thy ===== *)
theory Spec2Isabelle
  imports Library_Props Kernel_Props Ide_Props Switch Machine_Props Isr_Stubs Loader Early_Boot Main_Run Disk_Irq
begin

text \<open>
  A verification library for a small i386 kernel: page allocator, tasks, semaphores, context
  switch, interrupts, paging, console, disk, keyboard and serial port.

  \<^bold>\<open>The program.\<close> The boot loader (\<open>boot/loader.S\<close>) finds the kernel's partition and loads it;
  its first code (\<open>boot/start.S\<close>) counts the memory, maps it at 3 GB and calls \<open>main\<close> in
  \<open>kernel/init.c\<close>. \<open>main\<close> makes the page pool (\<open>kernel/mm.c\<close>, on the bitmaps of \<open>lib/kernel/\<close>),
  builds the page tables, installs the interrupt gates and drivers, and starts the scheduler
  (\<open>kernel/sched.c\<close>), which turns the boot stack into a task and creates two idle tasks. Tasks
  wait on semaphores (\<open>kernel/sync.c\<close>); timer and disk interrupts reach the scheduler and the
  semaphores through the entry stubs (\<open>kernel/isr-stubs.S\<close>) and \<open>generic_isr\<close>
  (\<open>kernel/interrupt.c\<close>). The block layer finds the disk that
  the ATA driver has registered and passes it requests.

  \<^bold>\<open>The theories\<close>, each with the definitions of its component and their lemmas:

  \<^item> \<open>Prelude\<close>: the C integer types, results (\<open>Spin\<close>: the code never goes on; \<open>Fault\<close>: a wild
    pointer), counting loops.
  \<^item> \<open>Linked_List\<close> (\<open>lib/list.h\<close>), \<open>Bitmap\<close> (\<open>lib/kernel/bitmap.c\<close>), \<open>Memory\<close> (\<open>lib/string.c\<close>),
    \<open>Vaddr\<close> (\<open>kernel/vaddr.h\<close>, \<open>kernel/pte.h\<close>, \<open>kernel/loader.h\<close>), \<open>Spinlock\<close> and \<open>Sema\<close>
    (\<open>kernel/sync.c\<close>), \<open>Mm\<close> (\<open>kernel/mm.c\<close>).
  \<^item> \<open>Sched\<close> (\<open>kernel/sched.c\<close>) with the queues it maintains in \<open>Queues\<close> and \<open>Sched_Inv\<close>, task
    creation in \<open>Task_Create\<close>, \<open>sched_init\<close> and \<open>idle_proc\<close> in \<open>Boot\<close>, sequences of kernel
    calls in \<open>Kernel_Run\<close>.
  \<^item> \<open>Switch\<close> (\<open>kernel/switch.S\<close>, \<open>current\<close> of \<open>kernel/sched.h\<close>): the context switch as instructions
    on registers and memory, and the current task as the page of the stack pointer;
    \<open>Isr_Stubs\<close> (\<open>kernel/isr-stubs.S\<close>): the entry of and return from an interrupt on the same
    machine, with the frame structure of \<open>kernel/interrupt.h\<close>.
  \<^item> \<open>Loader\<close> (\<open>boot/loader.S\<close>): the scan for the kernel and its load; \<open>Start\<close> and \<open>Start_Mode\<close>
    (\<open>boot/start.S\<close>): the size of memory, the A20 line, the temporary page tables and the first
    gates; then \<open>start\<close> as a whole, with the switch to protected mode, and the first handler.
    \<open>Early_Boot\<close>: the kernel's tables are built under the temporary ones.
  \<^item> \<open>Paging\<close> (\<open>kernel_pg_dir_init\<close> of \<open>kernel/init.c\<close>) against the table walk of the processor.
  \<^item> \<open>Port_IO\<close> (\<open>lib/asm/io.h\<close>), \<open>Interrupts\<close> (\<open>kernel/interrupt.c\<close>, \<open>devices/pic.c\<close>,
    \<open>devices/hw_timer.c\<close>), \<open>Console\<close> (\<open>devices/fb.c\<close>), \<open>Format\<close> (\<open>lib/vsprintf.c\<close>, \<open>lib/ctype.h\<close>,
    \<open>kernel/utils.c\<close>), \<open>Block\<close> (\<open>devices/block.c\<close>), \<open>Ide\<close> (\<open>devices/ide.c\<close>), \<open>Kbd\<close>
    (\<open>devices/kbd.c\<close>), \<open>Serial\<close> (\<open>devices/serial.c\<close>).
  \<^item> \<open>Machine\<close>: interrupt dispatch, the remaining handlers and \<open>main\<close>, on the state of all.
  \<^item> \<open>Library_Props\<close>, \<open>Kernel_Props\<close>, \<open>Ide_Props\<close>, \<open>Machine_Props\<close>: properties over several
    components, with the concrete states that show their hypotheses can hold.
  \<^item> \<open>Disk_Run\<close>, \<open>Disk_Init\<close>, \<open>Main_Run\<close>: total correctness of the disk driver's requests, of
    \<open>ide_init\<close> and of \<open>main\<close> as a whole; \<open>Disk_Irq\<close>: a read with the drive's interrupt and the
    scheduler in place of \<open>env\<close>.

  \<^bold>\<open>State.\<close> Memory is a function from 32-bit addresses to bytes. Pages, stacks, page tables,
  strings and sector buffers are bytes of it. The kernel's own structures (tasks, semaphores,
  list nodes, the pool's header and bitmap, adaptors, block devices) are records and functions
  on their addresses instead, so a write through a wild pointer into one of them is outside
  the model; where the code would follow such a pointer the result is \<open>Fault\<close>. Machine
  integers are words and wrap. Hardware is a \<open>device\<close>: a function from the history of port
  accesses to the next value read; outputs are events of that history.

  \<^bold>\<open>Concurrency.\<close> Kernel code runs on one CPU; \<open>schedule\<close> returns the state of the task
  switched to. Code that goes on after a wait has an argument \<open>env\<close>, what happens until then,
  of which only what a statement says is assumed. Where a statement says that code returns, that
  is that the waiting task runs again with the scheduler's invariant (\<open>env_returns\<close>); of the
  invariant \<open>Kernel_Run\<close> shows it for every sequence of kernel calls. Interrupts are calls of \<open>generic_isr\<close>; inside
  a critical section their effect is that of the lock (a call on a held lock is \<open>Spin\<close>). The
  two spin locks themselves are also modelled as atomic steps of any number of threads.

  \<^bold>\<open>Messages.\<close> \<open>printk\<close> is modelled in full in \<open>Format\<close> and \<open>Console\<close>; in the other components
  a message is an entry of the kernel log, format and arguments, a string argument as its
  bytes.

  \<^bold>\<open>What is shown.\<close> The library routines are characterised on every input (the list and bitmap
  operations against abstract lists and sets of bits, through locales the components
  interpret; the block layer states what it relies on in a driver as a locale that the ATA
  driver interprets). The allocator's blocks never overlap. From the start state no sequence of kernel
  calls by any task breaks the lists, faults or spins; \<open>schedule\<close> is a round robin of the
  default level; semaphores wake in the order shown, with the count the code really leaves.
  The context switch saves and restores what the calling convention demands, and brings a new
  task to its procedure, and makes the page of the stack pointer the task the scheduler chose.
  An interrupt is transparent to the code it interrupts, except for the stack fault. The loader
  puts the sectors of the kernel in memory in order, as long as their numbers do not cross a
  multiple of 65536; \<open>start\<close> calls \<open>main\<close> in protected mode with flat segments, 256 gates and the first 64 MB
  mapped twice; the tables of the kernel map exactly the physical memory. The console and the
  formatter implement a terminal and a format language. A disk request names the drive and
  sector asked for and the data is transferred unchanged. The machine comes up from any memory
  contents to the first wait of \<open>main\<close>; from there, for every behaviour of the drives, \<open>ide_init\<close>
  and every later request return, and \<open>main\<close> ends by leaving its task, or faults if it finds no
  disk. A read that waited for its interrupt leaves the semaphore such that the next one does
  not wait. Where the code does not do what it means to, the
  theorem says what it does: the manifest lists these as findings.

  \<^bold>\<open>Bounds.\<close> Loops with a bound in the code (3000 and 1000 polls of the disk, 64 levels, 256
  vectors, the counts of \<open>loop\<close> in the boot code) are recursions over that number. Scans of strings, of
  drives and of the memory map, and the polls of the serial port and of the keyboard controller
  have none: they are partial functions, and their termination is a theorem. Memory is assumed
  to be at most 1 GB, the linear map of the kernel; the boot needs 2 MB.

  \<^bold>\<open>Not modelled.\<close> Of \<open>boot/start.S\<close> the words of real mode below the stack pointer and the fetch of
  instructions; of \<open>boot/loader.S\<close> the copy of its messages to the serial port.
  The services of the BIOS are parameters. The stubs of \<open>Isr_Stubs\<close> and the dispatch of
  \<open>generic_isr\<close> in \<open>Machine\<close> have different states (registers and memory, and the kernel's
  records): the former takes the latter as a parameter under the calling convention. The
  compiler headers give only type names and builtins; of the build files, the addresses the
  linker script fixes are parameters or fields of the state.
\<close>

end
